(* ===== verification/Prelude.thy ===== *)
theory Prelude
  imports Main "HOL-Library.Word" "HOL-Library.Monad_Syntax"
begin

text \<open>
  Shared vocabulary of the development: the machine types of the ILP32 SPARC target, C objects
  as lists with checked accesses, C strings, error numbers, and the lemmas on them that the
  component theories use.

  Conventions.
  \<^item> An access outside an object is undefined behaviour; a model function that can perform one
    returns an \<open>option\<close>, and \<open>None\<close> is exactly \<open>undefined behaviour was reached\<close>.
    Theorems that conclude \<open>= Some \<dots>\<close> therefore state memory safety as well.
  \<^item> A pointer that may be null is an \<open>'a ptr\<close>, so that null and undefined are never confused.
  \<^item> \<open>size_t\<close> is 32 bits wide: a size computed by the code from sizes its caller chose goes
    through \<open>sz\<close>; an index into an existing object cannot wrap and is a plain \<open>nat\<close>.
\<close>

named_theorems mem_simps \<open>rewriting of checked buffer accesses\<close>
named_theorems cstr_simps \<open>rewriting of C string contents\<close>

type_synonym u8 = "8 word"
type_synonym u16 = "16 word"
type_synonym u32 = "32 word"
type_synonym u64 = "64 word"
type_synonym cbuf = "char list"

datatype 'a ptr = NULL | Ptr 'a

datatype errno =
    EPERM | ENOENT | EINTR | EIO | EBADF | EAGAIN | ENOMEM | EACCES | EBUSY | EEXIST | ENOTDIR
  | EINVAL | ENOSPC | ENAMETOOLONG | ENOSYS | ENOTSUP | EWOULDBLOCK | ETIMEDOUT | EAFNOSUPPORT
  | EOTHER nat

abbreviation NUL :: char where
  "NUL \<equiv> CHR 0x00"

definition sz :: "nat \<Rightarrow> nat" where
  "sz n = n mod 2 ^ 32"

text \<open>The value of a plain \<open>char\<close> after integer promotion; \<open>char\<close> is signed on the target.\<close>

definition char_int :: "char \<Rightarrow> int" where
  "char_int c = (let n = of_char c :: int in if n < 128 then n else n - 256)"

section \<open>Checked access to C objects\<close>

definition rd :: "'a list \<Rightarrow> nat \<Rightarrow> 'a option" where
  "rd b i = (if i < length b then Some (b ! i) else None)"

definition wr :: "'a list \<Rightarrow> nat \<Rightarrow> 'a \<Rightarrow> 'a list option" where
  "wr b i v = (if i < length b then Some (b[i := v]) else None)"

text \<open>\<open>memcpy(dst + d, src + s, n)\<close> between two distinct objects.\<close>

definition memcpy :: "'a list \<Rightarrow> nat \<Rightarrow> 'a list \<Rightarrow> nat \<Rightarrow> nat \<Rightarrow> 'a list option" where
  "memcpy dst d src s n =
     (if d + n \<le> length dst \<and> s + n \<le> length src
      then Some (take d dst @ take n (drop s src) @ drop (d + n) dst) else None)"

text \<open>\<open>memset(dst + d, v, n)\<close>.\<close>

definition memset :: "'a list \<Rightarrow> nat \<Rightarrow> 'a \<Rightarrow> nat \<Rightarrow> 'a list option" where
  "memset dst d v n =
     (if d + n \<le> length dst then Some (take d dst @ replicate n v @ drop (d + n) dst) else None)"

text \<open>\<open>memcmp(a + i, b + j, n) == 0\<close>.\<close>

definition memcmp_eq :: "'a list \<Rightarrow> nat \<Rightarrow> 'a list \<Rightarrow> nat \<Rightarrow> nat \<Rightarrow> bool option" where
  "memcmp_eq a i b j n =
     (if i + n \<le> length a \<and> j + n \<le> length b
      then Some (take n (drop i a) = take n (drop j b)) else None)"

text \<open>
  \<open>malloc\<close> is a parameter: it returns null, or an object of the requested size with
  indeterminate contents.
\<close>

definition wf_malloc :: "(nat \<Rightarrow> 'a list ptr) \<Rightarrow> bool" where
  "wf_malloc malloc \<longleftrightarrow> (\<forall>n b. malloc n = Ptr b \<longrightarrow> length b = n)"

lemma wf_mallocD: "wf_malloc malloc \<Longrightarrow> malloc n = Ptr b \<Longrightarrow> length b = n"
  by (simp add: wf_malloc_def)

lemma rd_Some [mem_simps]: "i < length b \<Longrightarrow> rd b i = Some (b ! i)"
  by (simp add: rd_def)

lemma rd_None [mem_simps]: "length b \<le> i \<Longrightarrow> rd b i = None"
  by (simp add: rd_def)

lemma rd_append [mem_simps]: "rd (a @ c # b) (length a) = Some c"
  by (simp add: rd_def)

lemma wr_Some [mem_simps]: "i < length b \<Longrightarrow> wr b i v = Some (b[i := v])"
  by (simp add: wr_def)

lemma wr_None [mem_simps]: "length b \<le> i \<Longrightarrow> wr b i v = None"
  by (simp add: wr_def)

lemma wr_append [mem_simps]: "wr (a @ c # b) (length a) v = Some (a @ v # b)"
  by (simp add: wr_def)

lemma memcpy_Some [mem_simps]:
  "d + n \<le> length dst \<Longrightarrow> s + n \<le> length src \<Longrightarrow>
   memcpy dst d src s n = Some (take d dst @ take n (drop s src) @ drop (d + n) dst)"
  by (simp add: memcpy_def)

lemma length_memcpy: "memcpy dst d src s n = Some r \<Longrightarrow> length r = length dst"
  by (auto simp: memcpy_def split: if_splits)

lemma memset_Some [mem_simps]:
  "d + n \<le> length dst \<Longrightarrow>
   memset dst d v n = Some (take d dst @ replicate n v @ drop (d + n) dst)"
  by (simp add: memset_def)

lemma memcmp_eq_Some [mem_simps]:
  "i + n \<le> length a \<Longrightarrow> j + n \<le> length b \<Longrightarrow>
   memcmp_eq a i b j n = Some (take n (drop i a) = take n (drop j b))"
  by (simp add: memcmp_eq_def)

lemma sz_id [simp]: "n < 2 ^ 32 \<Longrightarrow> sz n = n"
  by (simp add: sz_def)

lemma sz_less [simp]: "sz n < 4294967296"
  by (simp add: sz_def)

lemma unat_u16: "unat (w :: u16) < 65536"
  using unsigned_less [where ?'a = nat, of w] by simp

lemma unat_u32: "unat (w :: u32) < 4294967296"
  using unsigned_less [where ?'a = nat, of w] by simp

lemma uint_u32: "0 \<le> uint (w :: u32)" "uint w < 4294967296"
  using unsigned_less [where ?'a = int, of w] by simp_all

lemma sint_u32: "sint (w :: u32) = (if uint w < 2 ^ 31 then uint w else uint w - 2 ^ 32)"
proof -
  have "odd (uint w div 2 ^ 31) \<longleftrightarrow> \<not> uint w < 2 ^ 31"
  proof (cases "uint w < 2 ^ 31")
    case False
    then have "uint w div 2 ^ 31 = 1" using uint_u32 [of w] by simp
    then show ?thesis using False by simp
  qed (simp add: div_pos_pos_trivial)
  then show ?thesis
    using uint_u32 [of w]
    by (simp add: sint_uint signed_take_bit_eq_take_bit_minus take_bit_int_eq_self bit_iff_odd)
qed

section \<open>C strings\<close>

text \<open>The contents of the C string that starts at offset \<open>off\<close> of an object.\<close>

definition cstr :: "cbuf \<Rightarrow> nat \<Rightarrow> string" where
  "cstr b off = takeWhile (\<lambda>c. c \<noteq> NUL) (drop off b)"

text \<open>\<open>strlen(b + off)\<close>: undefined when no terminator lies inside the object.\<close>

definition strlen_at :: "cbuf \<Rightarrow> nat \<Rightarrow> nat option" where
  "strlen_at b off =
     (if off + length (cstr b off) < length b then Some (length (cstr b off)) else None)"

text \<open>
  A read-only string argument is the list of its characters before the terminator; reading
  index \<open>length s\<close> gives the terminator and reading further is undefined.
\<close>

definition cat :: "string \<Rightarrow> nat \<Rightarrow> char option" where
  "cat s i = (if i < length s then Some (s ! i) else if i = length s then Some NUL else None)"

definition wf_cstr :: "string \<Rightarrow> bool" where
  "wf_cstr s \<longleftrightarrow> NUL \<notin> set s"

lemma cstr_append_NUL [cstr_simps]: "wf_cstr s \<Longrightarrow> cstr (s @ NUL # r) 0 = s"
  by (auto simp: cstr_def wf_cstr_def takeWhile_append)

lemma cstr_offset [cstr_simps]: "cstr (p @ b) (length p) = cstr b 0"
  by (simp add: cstr_def)

lemma strlen_at_NUL [cstr_simps]: "wf_cstr s \<Longrightarrow> strlen_at (s @ NUL # r) 0 = Some (length s)"
  by (simp add: strlen_at_def cstr_append_NUL)

lemma cat_Nil [cstr_simps]: "cat [] 0 = Some NUL"
  by (simp add: cat_def)

lemma cat_Cons [cstr_simps]:
  "cat (c # s) 0 = Some c" "cat (c # s) (Suc i) = cat s i" "cat (c # s) 1 = cat s 0" "cat (c # s) 2 = cat s 1"
  by (simp_all add: cat_def nth_Cons')

lemma cat_NUL_iff: "wf_cstr s \<Longrightarrow> cat s i = Some NUL \<longleftrightarrow> i = length s"
  by (auto simp: cat_def wf_cstr_def) (metis nth_mem)

lemma cat_nonNUL: "cat s i = Some c \<Longrightarrow> c \<noteq> NUL \<Longrightarrow> i < length s"
  by (auto simp: cat_def split: if_splits)

lemma cat_Some: "i \<le> length s \<Longrightarrow> \<exists>c. cat s i = Some c"
  by (auto simp: cat_def)

lemma wf_cstr_cstr [simp]: "wf_cstr (cstr b off)"
  by (auto simp: wf_cstr_def cstr_def dest: set_takeWhileD)

lemma wf_cstr_take [simp]: "wf_cstr s \<Longrightarrow> wf_cstr (take n s)"
  by (auto simp: wf_cstr_def dest: in_set_takeD)

lemma wf_cstr_append [simp]: "wf_cstr (a @ b) \<longleftrightarrow> wf_cstr a \<and> wf_cstr b"
  by (auto simp: wf_cstr_def)

lemma wf_cstr_Cons [simp]: "wf_cstr (c # s) \<longleftrightarrow> c \<noteq> NUL \<and> wf_cstr s"
  by (auto simp: wf_cstr_def)

lemma wf_cstr_Nil [simp]: "wf_cstr []"
  by (simp add: wf_cstr_def)

text \<open>An object that holds a terminated string splits into the string, its terminator, the rest.\<close>

lemma strlen_at_SomeE:
  assumes "strlen_at b 0 = Some n"
  obtains r where "b = cstr b 0 @ NUL # r" and "n = length (cstr b 0)"
proof -
  let ?p = "\<lambda>c. c \<noteq> NUL"
  from assms have len: "length (takeWhile ?p b) < length b" and n: "n = length (takeWhile ?p b)"
    by (auto simp: strlen_at_def cstr_def split: if_splits)
  then have ne: "dropWhile ?p b \<noteq> []"
    by (metis append_Nil2 less_irrefl takeWhile_dropWhile_id)
  then have "hd (dropWhile ?p b) = NUL"
    using hd_dropWhile by blast
  with ne have "dropWhile ?p b = NUL # tl (dropWhile ?p b)"
    by (metis list.collapse)
  then have "b = takeWhile ?p b @ NUL # tl (dropWhile ?p b)"
    by (metis takeWhile_dropWhile_id)
  with n show ?thesis by (intro that) (auto simp: cstr_def)
qed

section \<open>Polling loops\<close>

text \<open>
  A loop \<open>for (;;)\<close> whose pass number \<open>k\<close> either returns (\<open>verdict k\<close> is the value) or waits and tries
  again; \<open>None\<close> is a run that never returns. The result has the number of passes.
\<close>

partial_function (option) poll_until :: "(nat \<Rightarrow> 'r option) \<Rightarrow> nat \<Rightarrow> ('r \<times> nat) option" where
  "poll_until verdict k =
     (case verdict k of Some r \<Rightarrow> Some (r, k + 1) | None \<Rightarrow> poll_until verdict (k + 1))"

lemma poll_until_first:
  assumes "verdict n \<noteq> None" and "k \<le> n"
  shows "\<exists>m r. k \<le> m \<and> verdict m = Some r \<and> (\<forall>j. k \<le> j \<and> j < m \<longrightarrow> verdict j = None)
    \<and> poll_until verdict k = Some (r, m + 1)"
  using assms(2)
proof (induction "n - k" arbitrary: k)
  case 0
  then have "k = n" by simp
  with assms(1) obtain r where "verdict k = Some r" by auto
  then show ?case by (intro exI [of _ k] exI [of _ r]) (auto simp: poll_until.simps)
next
  case (Suc d)
  show ?case
  proof (cases "verdict k")
    case None
    have "k \<noteq> n" using None assms(1) by auto
    then have "d = n - (k + 1)" "k + 1 \<le> n" using Suc.hyps(2) Suc.prems by auto
    then obtain m r where m: "k + 1 \<le> m" "verdict m = Some r" "\<forall>j. k + 1 \<le> j \<and> j < m \<longrightarrow> verdict j = None"
      "poll_until verdict (k + 1) = Some (r, m + 1)"
      using Suc.hyps(1) [of "k + 1"] by blast
    have "verdict j = None" if "k \<le> j \<and> j < m" for j using that m(3) None by (cases "j = k") auto
    moreover have "poll_until verdict k = Some (r, m + 1)" using m(4) None by (simp add: poll_until.simps [of verdict k])
    ultimately show ?thesis using m by (intro exI [of _ m] exI [of _ r]) auto
  qed (auto simp: poll_until.simps intro!: exI [of _ k])
qed

unbundle bit_operations_syntax

text \<open>Appending a byte to a word.\<close>

lemma push_or_byte: "push_bit 8 v OR ucast (b :: u8) = (v * 256 + ucast b :: 'a :: len word)"
proof -
  have "push_bit 8 v AND (ucast b :: 'a word) = 0"
    by (rule bit_word_eqI) (auto simp: bit_simps dest: bit_imp_le_length)
  then show ?thesis by (simp add: disjunctive_add_eq_or [symmetric] push_bit_eq_mult)
qed

lemma take_bit_word_add: "take_bit n (take_bit n y + x) = take_bit n (y + x :: 'a :: len word)"
proof -
  have "take_bit k (take_bit n u + v) = take_bit k (u + v)" if "k \<le> n" for k and u v :: int
    using that take_bit_add [of k "take_bit n u" v] take_bit_add [of k u v] by (simp add: take_bit_take_bit min_absorb1)
  then have "take_bit (min n LENGTH('a)) (take_bit n (uint y) + uint x) = take_bit (min n LENGTH('a)) (uint y + uint x)"
    by simp
  then show ?thesis by (simp add: word_uint_eq_iff unsigned_take_bit_eq uint_word_arith_bintrs)
qed

end
