(* ===== verification/Getopt.thy ===== *)
theory Getopt
  imports Prelude "HOL-Library.Sublist"
begin

text \<open>
  Option parsing, \<open>src/src/getopt_long.c\<close>: the global parsing state, \<open>getopt\<close> for clusters of
  short options, \<open>getopt_long\<close> and \<open>getopt_long_only\<close>.

  \<open>argv\<close> is the list of its element pointers, the terminating null pointer included; an element
  is the list of its characters before the terminator. A \<open>longopts\<close> table is the list of its
  entries before the one whose name is null. \<open>optarg\<close> is the string it points to. The text the
  parser prints on \<open>stderr\<close> is part of the state, as are the variables that \<open>flag\<close> members and
  \<open>longindex\<close> point to.
\<close>

section \<open>State\<close>

record gstate =
  optarg :: "string ptr"
  optind :: nat
  opterr :: int
  optopt :: int
  short_next :: nat
  stderr_text :: string
  flag_vars :: "nat \<Rightarrow> int"
  longindex_var :: "int ptr"

definition getopt_init :: gstate where
  "getopt_init = \<lparr>optarg = NULL, optind = 1, opterr = 1, optopt = 0, short_next = 0,
     stderr_text = [], flag_vars = (\<lambda>_. 0), longindex_var = NULL\<rparr>"

record longopt =
  lo_name :: string
  has_arg :: int
  flag :: "nat ptr"
  val :: int

definition no_argument :: int where "no_argument = 0"
definition required_argument :: int where "required_argument = 1"
definition optional_argument :: int where "optional_argument = 2"

section \<open>Helpers of the three parsers\<close>

text \<open>\<open>argv[0] ? argv[0] : ""\<close>, and \<open>fprintf(stderr, "%s: ...", ...)\<close> under a condition.\<close>

definition progname :: "string ptr list \<Rightarrow> string option" where
  "progname argv = (case rd argv 0 of None \<Rightarrow> None | Some NULL \<Rightarrow> Some [] | Some (Ptr s) \<Rightarrow> Some s)"

definition complain :: "bool \<Rightarrow> string ptr list \<Rightarrow> string \<Rightarrow> gstate \<Rightarrow> gstate option" where
  "complain c argv msg g =
     (if c then map_option (\<lambda>p. g\<lparr>stderr_text := stderr_text g @ p @ msg\<rparr>) (progname argv)
      else Some g)"

definition quoted :: "string \<Rightarrow> string" where
  "quoted s = CHR 0x27 # s @ [CHR 0x27]"

text \<open>\<open>p[i]\<close> for an element pointer \<open>p\<close>; dereferencing null is undefined.\<close>

definition str_at :: "string ptr \<Rightarrow> nat \<Rightarrow> char option" where
  "str_at p i = (case p of NULL \<Rightarrow> None | Ptr s \<Rightarrow> cat s i)"

text \<open>\<open>arg[0] == '-' && arg[1] == '-' && arg[2] == '\0'\<close>.\<close>

definition is_dashdash :: "string \<Rightarrow> bool option" where
  "is_dashdash arg = do {
     c0 \<leftarrow> cat arg 0;
     if c0 \<noteq> CHR ''-'' then Some False else do {
       c1 \<leftarrow> cat arg 1;
       if c1 \<noteq> CHR ''-'' then Some False else do {
         c2 \<leftarrow> cat arg 2;
         Some (c2 = NUL) } } }"

section \<open>\<open>getopt\<close>\<close>

text \<open>The option character has been fetched: look it up and handle its argument.\<close>

definition getopt_dispatch ::
    "nat \<Rightarrow> string ptr list \<Rightarrow> string \<Rightarrow> string \<Rightarrow> char \<Rightarrow> gstate \<Rightarrow> (int \<times> gstate) option" where
  "getopt_dispatch argc argv optstring lookup opt g =
     (let spec = dropWhile (\<lambda>c. c \<noteq> opt) lookup in
      if spec = [] \<or> opt = CHR '':'' then do {
        c0 \<leftarrow> cat optstring 0;
        g \<leftarrow> complain (opterr g \<noteq> 0 \<and> c0 \<noteq> CHR '':'') argv
               ('': invalid option -- '' @ quoted [opt] @ [CHR 0x0A]) g;
        let g = g\<lparr>optopt := char_int opt, short_next := short_next g + 1\<rparr>;
        a \<leftarrow> rd argv (optind g);
        at_end \<leftarrow> (if a = NULL then Some False else map_option ((=) NUL) (str_at a (short_next g)));
        Some (char_int CHR ''?'', if at_end then g\<lparr>short_next := 0, optind := optind g + 1\<rparr> else g) }
      else do {
        s1 \<leftarrow> cat spec 1;
        a \<leftarrow> rd argv (optind g);
        c \<leftarrow> str_at a (short_next g + 1);
        if s1 = CHR '':'' then
          (if c \<noteq> NUL then
             (case a of
                NULL \<Rightarrow> None
              | Ptr s \<Rightarrow> Some (char_int opt,
                  g\<lparr>optarg := Ptr (drop (short_next g + 1) s), short_next := 0, optind := optind g + 1\<rparr>))
           else do {
             s2 \<leftarrow> cat spec 2;
             if s2 = CHR '':'' then
               Some (char_int opt, g\<lparr>optarg := NULL, short_next := 0, optind := optind g + 1\<rparr>)
             else do {
               let g = g\<lparr>short_next := 0, optind := optind g + 1\<rparr>;
               if argc \<le> optind g then do {
                 c0 \<leftarrow> cat optstring 0;
                 g \<leftarrow> complain (opterr g \<noteq> 0 \<and> c0 \<noteq> CHR '':'') argv
                        ('': option requires an argument -- '' @ quoted [opt] @ [CHR 0x0A]) g;
                 Some (char_int (if c0 = CHR '':'' then CHR '':'' else CHR ''?''), g\<lparr>optopt := char_int opt\<rparr>) }
               else do {
                 v \<leftarrow> rd argv (optind g);
                 Some (char_int opt, g\<lparr>optarg := v, optind := optind g + 1\<rparr>) } } })
        else do {
          let g = g\<lparr>optarg := NULL, short_next := short_next g + 1\<rparr>;
          Some (char_int opt, if c = NUL then g\<lparr>short_next := 0, optind := optind g + 1\<rparr> else g) } })"

function getopt :: "nat \<Rightarrow> string ptr list \<Rightarrow> string ptr \<Rightarrow> gstate \<Rightarrow> (int \<times> gstate) option" where
  "getopt argc argv optstring0 g =
     (let optstring = (case optstring0 of NULL \<Rightarrow> [] | Ptr s \<Rightarrow> s);
          dash_mode = (cat optstring 0 = Some CHR ''-'');
          lookup = (if cat optstring 0 \<in> {Some CHR ''+'', Some CHR ''-''} then tl optstring else optstring)
      in
      if short_next g > 0 then
        (if argc \<le> optind g then Some (-1, g\<lparr>short_next := 0\<rparr>)
         else case rd argv (optind g) of
           None \<Rightarrow> None
         | Some NULL \<Rightarrow> Some (-1, g\<lparr>short_next := 0\<rparr>)
         | Some (Ptr arg) \<Rightarrow>
             (case cat arg (short_next g) of
                None \<Rightarrow> None
              | Some opt \<Rightarrow>
                  if opt = NUL then
                    getopt argc argv (Ptr optstring) (g\<lparr>short_next := 0, optind := optind g + 1\<rparr>)
                  else getopt_dispatch argc argv optstring lookup opt g))
      else
        (if argc \<le> optind g then Some (-1, g)
         else case rd argv (optind g) of
           None \<Rightarrow> None
         | Some NULL \<Rightarrow> Some (-1, g)
         | Some (Ptr arg) \<Rightarrow>
             if cat arg 0 \<noteq> Some CHR ''-'' \<or> cat arg 1 = Some NUL then
               (if dash_mode then Some (1, g\<lparr>optarg := Ptr arg, optind := optind g + 1\<rparr>)
                else Some (-1, g))
             else
               (case is_dashdash arg of
                  None \<Rightarrow> None
                | Some True \<Rightarrow> Some (-1, g\<lparr>optind := optind g + 1\<rparr>)
                | Some False \<Rightarrow>
                    (case cat arg 1 of
                       None \<Rightarrow> None
                     | Some opt \<Rightarrow> getopt_dispatch argc argv optstring lookup opt (g\<lparr>short_next := 1\<rparr>)))))"
  by pat_completeness auto
termination
  by (relation "measure (\<lambda>(_, _, _, g). short_next g)") auto

declare getopt.simps [simp del]

section \<open>\<open>getopt_long\<close> and \<open>getopt_long_only\<close>\<close>

text \<open>The name part of a long option: its length up to \<open>'='\<close>, and what follows the \<open>'='\<close>.\<close>

definition eq_part :: "string \<Rightarrow> string ptr" where
  "eq_part name =
     (case dropWhile (\<lambda>c. c \<noteq> CHR ''='') name of [] \<Rightarrow> NULL | _ # v \<Rightarrow> Ptr v)"

definition namelen :: "string \<Rightarrow> nat" where
  "namelen name = length (takeWhile (\<lambda>c. c \<noteq> CHR ''='') name)"

text \<open>\<open>strncmp(a, b, n) == 0\<close> on strings without inner terminators.\<close>

definition strncmp_eq :: "string \<Rightarrow> string \<Rightarrow> nat \<Rightarrow> bool" where
  "strncmp_eq a b n \<longleftrightarrow> take n a = take n b"

text \<open>The table scan of \<open>getopt_long\<close>: the current index, \<open>match\<close> and \<open>ambiguous\<close>.\<close>

fun long_match :: "string \<Rightarrow> nat \<Rightarrow> longopt list \<Rightarrow> nat \<Rightarrow> nat option \<Rightarrow> bool \<Rightarrow> nat option \<times> bool" where
  "long_match name n [] i mtch ambiguous = (mtch, ambiguous)"
| "long_match name n (lo # los) i mtch ambiguous =
     (if strncmp_eq (lo_name lo) name n then
        (if length (lo_name lo) = n then (Some i, False)
         else case mtch of
           Some j \<Rightarrow> long_match name n los (i + 1) (Some j) True
         | None \<Rightarrow> long_match name n los (i + 1) (Some i) ambiguous)
      else long_match name n los (i + 1) mtch ambiguous)"

text \<open>The table scan of \<open>getopt_long_only\<close>: exact names only.\<close>

fun long_exact :: "string \<Rightarrow> nat \<Rightarrow> longopt list \<Rightarrow> nat \<Rightarrow> nat option" where
  "long_exact name n [] i = None"
| "long_exact name n (lo # los) i =
     (if strncmp_eq (lo_name lo) name n \<and> length (lo_name lo) = n then Some i
      else long_exact name n los (i + 1))"

definition set_longindex :: "nat \<Rightarrow> gstate \<Rightarrow> gstate" where
  "set_longindex i g =
     (case longindex_var g of NULL \<Rightarrow> g | Ptr _ \<Rightarrow> g\<lparr>longindex_var := Ptr (int i)\<rparr>)"

text \<open>Deliver the matched option: store through \<open>flag\<close> or return \<open>val\<close>.\<close>

definition long_return :: "longopt \<Rightarrow> gstate \<Rightarrow> int \<times> gstate" where
  "long_return lo g =
     (case flag lo of
        Ptr a \<Rightarrow> (0, g\<lparr>flag_vars := (flag_vars g)(a := val lo)\<rparr>)
      | NULL \<Rightarrow> (val lo, g))"

definition missing_code :: "string ptr \<Rightarrow> int" where
  "missing_code optstring =
     char_int (case optstring of
        NULL \<Rightarrow> CHR ''?''
      | Ptr s \<Rightarrow> (if cat s 0 = Some CHR '':'' then CHR '':'' else CHR ''?''))"

text \<open>The argument handling of \<open>getopt_long\<close> after a unique match; \<open>optind\<close> is already advanced.\<close>

definition long_argument ::
    "nat \<Rightarrow> string ptr list \<Rightarrow> string ptr \<Rightarrow> longopt \<Rightarrow> string ptr \<Rightarrow> gstate \<Rightarrow> (int \<times> gstate) option" where
  "long_argument argc argv optstring lo eq g =
     (if has_arg lo = no_argument then
        (if eq \<noteq> NULL then do {
           g \<leftarrow> complain (opterr g \<noteq> 0) argv
                  ('': option '' @ quoted (''--'' @ lo_name lo) @ '' doesn'' @ CHR 0x27 # ''t allow an argument'' @ [CHR 0x0A]) g;
           Some (char_int CHR ''?'', g) }
         else Some (long_return lo (g\<lparr>optarg := NULL\<rparr>)))
      else if has_arg lo = required_argument then
        (if eq \<noteq> NULL then Some (long_return lo (g\<lparr>optarg := eq\<rparr>))
         else if optind g < argc then do {
           v \<leftarrow> rd argv (optind g);
           Some (long_return lo (g\<lparr>optarg := v, optind := optind g + 1\<rparr>)) }
         else do {
           g \<leftarrow> complain (opterr g \<noteq> 0) argv
                  ('': option '' @ quoted (''--'' @ lo_name lo) @ '' requires an argument'' @ [CHR 0x0A]) g;
           Some (missing_code optstring, g) })
      else Some (long_return lo (g\<lparr>optarg := eq\<rparr>)))"

definition getopt_long ::
    "nat \<Rightarrow> string ptr list \<Rightarrow> string ptr \<Rightarrow> longopt list ptr \<Rightarrow> gstate \<Rightarrow> (int \<times> gstate) option" where
  "getopt_long argc argv optstring longopts g =
     (if argc \<le> optind g then Some (-1, g) else do {
        a \<leftarrow> rd argv (optind g);
        case a of
          NULL \<Rightarrow> Some (-1, g)
        | Ptr arg \<Rightarrow>
            if short_next g > 0 then getopt argc argv optstring g else do {
              dd \<leftarrow> is_dashdash arg;
              if dd then Some (-1, g\<lparr>optind := optind g + 1\<rparr>)
              else if cat arg 0 = Some CHR ''-'' \<and> cat arg 1 = Some CHR ''-'' then
                (case longopts of
                   NULL \<Rightarrow> getopt argc argv optstring g
                 | Ptr los \<Rightarrow>
                     let name = drop 2 arg; n = namelen name; (mtch, ambiguous) = long_match name n los 0 None False in
                     if ambiguous then do {
                       g \<leftarrow> complain (opterr g \<noteq> 0) argv
                              ('': option '' @ quoted (''--'' @ take n name) @ '' is ambiguous'' @ [CHR 0x0A]) g;
                       Some (char_int CHR ''?'', g\<lparr>optind := optind g + 1\<rparr>) }
                     else (case mtch of
                       None \<Rightarrow> do {
                         g \<leftarrow> complain (opterr g \<noteq> 0) argv
                                ('': unrecognized option '' @ quoted (''--'' @ take n name) @ [CHR 0x0A]) g;
                         Some (char_int CHR ''?'', g\<lparr>optind := optind g + 1\<rparr>) }
                     | Some i \<Rightarrow>
                         long_argument argc argv optstring (los ! i) (eq_part name)
                           ((set_longindex i g)\<lparr>optind := optind g + 1\<rparr>)))
              else getopt argc argv optstring g } })"

text \<open>
  \<open>getopt_long_only\<close> orders its argument tests differently and prints a single dash, so its
  argument handling is a definition of its own.
\<close>

definition long_only_argument ::
    "nat \<Rightarrow> string ptr list \<Rightarrow> string ptr \<Rightarrow> longopt \<Rightarrow> string ptr \<Rightarrow> gstate \<Rightarrow> (int \<times> gstate) option" where
  "long_only_argument argc argv optstring lo eq g =
     (if has_arg lo = required_argument then
        (if eq \<noteq> NULL then Some (long_return lo (g\<lparr>optarg := eq\<rparr>))
         else if optind g < argc then do {
           v \<leftarrow> rd argv (optind g);
           Some (long_return lo (g\<lparr>optarg := v, optind := optind g + 1\<rparr>)) }
         else do {
           g \<leftarrow> complain (opterr g \<noteq> 0) argv
                  ('': option '' @ quoted (''-'' @ lo_name lo) @ '' requires an argument'' @ [CHR 0x0A]) g;
           Some (missing_code optstring, g) })
      else if has_arg lo = optional_argument then Some (long_return lo (g\<lparr>optarg := eq\<rparr>))
      else if eq \<noteq> NULL then do {
        g \<leftarrow> complain (opterr g \<noteq> 0) argv
               ('': option '' @ quoted (''-'' @ lo_name lo) @ '' doesn'' @ CHR 0x27 # ''t allow an argument'' @ [CHR 0x0A]) g;
        Some (char_int CHR ''?'', g) }
      else Some (long_return lo (g\<lparr>optarg := NULL\<rparr>)))"

definition getopt_long_only ::
    "nat \<Rightarrow> string ptr list \<Rightarrow> string ptr \<Rightarrow> longopt list ptr \<Rightarrow> gstate \<Rightarrow> (int \<times> gstate) option" where
  "getopt_long_only argc argv optstring longopts g =
     (if argc \<le> optind g then Some (-1, g) else do {
        a \<leftarrow> rd argv (optind g);
        case a of
          NULL \<Rightarrow> Some (-1, g)
        | Ptr arg \<Rightarrow>
            if short_next g > 0 then getopt argc argv optstring g else do {
              dd \<leftarrow> is_dashdash arg;
              if dd then Some (-1, g\<lparr>optind := optind g + 1\<rparr>)
              else if cat arg 0 = Some CHR ''-'' \<and> cat arg 1 = Some CHR ''-'' then
                getopt_long argc argv optstring longopts g
              else if cat arg 0 = Some CHR ''-'' \<and> cat arg 1 \<noteq> Some NUL \<and> cat arg 2 \<noteq> Some NUL then
                (case longopts of
                   NULL \<Rightarrow> getopt argc argv optstring g
                 | Ptr los \<Rightarrow>
                     let name = drop 1 arg in
                     (case long_exact name (namelen name) los 0 of
                        None \<Rightarrow> getopt argc argv optstring g
                      | Some i \<Rightarrow>
                          long_only_argument argc argv optstring (los ! i) (eq_part name)
                            ((set_longindex i g)\<lparr>optind := optind g + 1\<rparr>)))
              else getopt argc argv optstring g } })"

section \<open>The client loop and the contract of a parser\<close>

text \<open>The arguments that stay the same during a parse.\<close>

record genv =
  ge_argc :: nat
  ge_argv :: "string ptr list"
  ge_optstring :: "string ptr"
  ge_longopts :: "longopt list ptr"

definition getopt_step :: "genv \<Rightarrow> gstate \<Rightarrow> (int \<times> gstate) option" where
  "getopt_step e g = getopt (ge_argc e) (ge_argv e) (ge_optstring e) g"

definition getopt_long_step :: "genv \<Rightarrow> gstate \<Rightarrow> (int \<times> gstate) option" where
  "getopt_long_step e g = getopt_long (ge_argc e) (ge_argv e) (ge_optstring e) (ge_longopts e) g"

definition getopt_long_only_step :: "genv \<Rightarrow> gstate \<Rightarrow> (int \<times> gstate) option" where
  "getopt_long_only_step e g = getopt_long_only (ge_argc e) (ge_argv e) (ge_optstring e) (ge_longopts e) g"

text \<open>
  \<open>while ((c = getopt...(...)) != -1)\<close> as every caller writes it: the options seen with their
  arguments, and the state at the end. The outer option is undefined behaviour or exhausted fuel.
\<close>

fun parse_loop :: "(gstate \<Rightarrow> (int \<times> gstate) option) \<Rightarrow> nat \<Rightarrow> gstate \<Rightarrow> ((int \<times> string ptr) list \<times> gstate) option" where
  "parse_loop step 0 g = None"
| "parse_loop step (Suc fuel) g =
     (case step g of
        None \<Rightarrow> None
      | Some (c, g') \<Rightarrow>
          if c = -1 then Some ([], g')
          else map_option (\<lambda>(os, g''). ((c, optarg g') # os, g'')) (parse_loop step fuel g'))"

text \<open>\<open>argv\<close> holds \<open>argc\<close> elements and the null pointer after them.\<close>

definition wf_env :: "genv \<Rightarrow> bool" where
  "wf_env e \<longleftrightarrow> length (ge_argv e) = ge_argc e + 1
     \<and> list_all (\<lambda>p. case p of NULL \<Rightarrow> True | Ptr s \<Rightarrow> wf_cstr s) (ge_argv e)"

text \<open>The cursor of a cluster stays inside the element \<open>optind\<close> selects.\<close>

definition ginv :: "genv \<Rightarrow> gstate \<Rightarrow> bool" where
  "ginv e g \<longleftrightarrow> short_next g = 0 \<or>
     (optind g < ge_argc e \<and>
      (case ge_argv e ! optind g of NULL \<Rightarrow> False | Ptr arg \<Rightarrow> short_next g \<le> length arg))"

fun elem_size :: "string ptr \<Rightarrow> nat" where
  "elem_size NULL = 1"
| "elem_size (Ptr s) = length s + 1"

definition remaining :: "genv \<Rightarrow> nat \<Rightarrow> nat" where
  "remaining e k = sum_list (map (\<lambda>i. elem_size (ge_argv e ! i)) [k..<ge_argc e])"

text \<open>The characters of the command line that are still to be read.\<close>

definition todo :: "genv \<Rightarrow> gstate \<Rightarrow> nat" where
  "todo e g = remaining e (optind g) - short_next g"

locale option_parser =
  fixes step :: "genv \<Rightarrow> gstate \<Rightarrow> (int \<times> gstate) option"
  assumes step_ok: "wf_env e \<Longrightarrow> ginv e g \<Longrightarrow>
    \<exists>c g'. step e g = Some (c, g') \<and> ginv e g' \<and> (c \<noteq> -1 \<longrightarrow> todo e g' < todo e g)"
begin

lemma loop_terminates:
  "wf_env e \<Longrightarrow> ginv e g \<Longrightarrow> todo e g < fuel \<Longrightarrow>
   \<exists>os g'. parse_loop (step e) fuel g = Some (os, g') \<and> ginv e g' \<and> length os \<le> todo e g"
proof (induction fuel arbitrary: g)
  case (Suc fuel)
  then obtain c g1 where s: "step e g = Some (c, g1)" "ginv e g1" "c \<noteq> -1 \<longrightarrow> todo e g1 < todo e g"
    using step_ok by blast
  show ?case
  proof (cases "c = -1")
    case False
    then obtain os g' where "parse_loop (step e) fuel g1 = Some (os, g')" "ginv e g'" "length os \<le> todo e g1"
      using Suc s by (meson less_Suc_eq_le less_le_trans)
    with s False show ?thesis by auto
  qed (use s in simp)
qed simp

end

lemma remaining_Suc: "k < ge_argc e \<Longrightarrow> remaining e k = elem_size (ge_argv e ! k) + remaining e (k + 1)"
  by (simp add: remaining_def upt_conv_Cons)

lemma elem_size_pos [simp]: "0 < elem_size p"
  by (cases p) auto

lemma remaining_antimono: "k \<le> j \<Longrightarrow> remaining e j \<le> remaining e k"
proof (rule lift_Suc_antimono_le [of "remaining e"])
  fix n
  show "remaining e (Suc n) \<le> remaining e n"
    by (cases "n < ge_argc e") (simp_all add: remaining_def upt_conv_Cons)
qed

text \<open>Moving the cursor forward inside an element, or to a later element, leaves less to do.\<close>

lemma todo_advance:
  assumes "optind g < ge_argc e" "ge_argv e ! optind g = Ptr arg" "short_next g \<le> length arg"
  shows "optind g < optind g' \<Longrightarrow> todo e g' < todo e g"
    and "optind g' = optind g \<Longrightarrow> short_next g < short_next g' \<Longrightarrow> todo e g' < todo e g"
proof -
  have r: "remaining e (optind g) = length arg + 1 + remaining e (optind g + 1)"
    using assms by (simp add: remaining_Suc)
  show "todo e g' < todo e g" if "optind g < optind g'"
    using that assms(3) r remaining_antimono [of "optind g + 1" "optind g'" e] by (simp add: todo_def)
  show "todo e g' < todo e g" if "optind g' = optind g" "short_next g < short_next g'"
    using that assms(3) r by (simp add: todo_def)
qed

section \<open>Safety and progress of one call\<close>

lemma rd_argv: "wf_env e \<Longrightarrow> i \<le> ge_argc e \<Longrightarrow> rd (ge_argv e) i = Some (ge_argv e ! i)"
  by (simp add: wf_env_def rd_def)

lemma wf_argv_elem: "wf_env e \<Longrightarrow> i \<le> ge_argc e \<Longrightarrow> ge_argv e ! i = Ptr s \<Longrightarrow> wf_cstr s"
  unfolding wf_env_def list_all_length by (metis Suc_eq_plus1 le_imp_less_Suc ptr.simps(5))

text \<open>Once \<open>argv\<close> is well formed a diagnostic only extends the text printed so far.\<close>

definition complaint :: "bool \<Rightarrow> genv \<Rightarrow> string \<Rightarrow> string" where
  "complaint c e msg = (if c then (case ge_argv e ! 0 of NULL \<Rightarrow> [] | Ptr s \<Rightarrow> s) @ msg else [])"

lemma complain_eq:
  "wf_env e \<Longrightarrow> complain c (ge_argv e) msg g = Some (g\<lparr>stderr_text := stderr_text g @ complaint c e msg\<rparr>)"
  using rd_argv [of e 0] by (simp add: complain_def progname_def complaint_def split: ptr.split)

lemma ginv_reset [simp]: "short_next g = 0 \<Longrightarrow> ginv e g"
  by (simp add: ginv_def)

lemma dropWhile_cat_Some: "dropWhile P xs \<noteq> [] \<Longrightarrow> \<exists>c. cat (dropWhile P xs) 1 = Some c"
  by (cases "dropWhile P xs") (auto simp: cat_def)

text \<open>The result of a call: defined, the invariant kept, and something consumed.\<close>

definition advances :: "genv \<Rightarrow> gstate \<Rightarrow> (int \<times> gstate) option \<Rightarrow> bool" where
  "advances e g r \<longleftrightarrow> (\<exists>c g'. r = Some (c, g') \<and> ginv e g' \<and> todo e g' < todo e g)"

lemma advancesI:
  assumes "optind g < ge_argc e" "ge_argv e ! optind g = Ptr arg" "short_next g \<le> length arg"
    and "short_next g' = 0 \<and> optind g < optind g' \<or>
         optind g' = optind g \<and> short_next g < short_next g' \<and> short_next g' \<le> length arg"
  shows "advances e g (Some (c, g'))"
  using assms todo_advance [OF assms(1-3), of g'] by (auto simp: advances_def ginv_def)

lemma getopt_dispatch_advances:
  assumes "wf_env e" "optind g < ge_argc e" "ge_argv e ! optind g = Ptr arg" "short_next g < length arg"
  shows "advances e g (getopt_dispatch (ge_argc e) (ge_argv e) os lookup opt g)"
proof -
  note rd = rd_argv [OF assms(1), of "optind g"] rd_argv [OF assms(1), of "optind g + 1"]
  note adv = advancesI [OF assms(2,3)]
  obtain c0 where c0: "cat os 0 = Some c0" using cat_Some [of 0 os] by auto
  obtain c where c: "cat arg (short_next g + 1) = Some c" using cat_Some [of "short_next g + 1" arg] assms(4) by auto
  let ?spec = "dropWhile (\<lambda>x. x \<noteq> opt) lookup"
  show ?thesis
  proof (cases "?spec = [] \<or> opt = CHR '':''")
    case True
    then show ?thesis
      using assms rd c by (auto simp: getopt_dispatch_def c0 complain_eq str_at_def Let_def intro!: adv)
  next
    case False
    then obtain s1 where s1: "cat ?spec 1 = Some s1" using dropWhile_cat_Some by blast
    obtain s2 where s2: "s1 = CHR '':'' \<longrightarrow> cat ?spec 2 = Some s2"
      using s1 cat_nonNUL [OF s1] cat_Some [of 2 ?spec] by fastforce
    show ?thesis
      using False assms rd s2
      by (auto simp: getopt_dispatch_def c0 c [simplified] complain_eq s1 [simplified] str_at_def Let_def intro!: adv)
  qed
qed

definition call_ok :: "genv \<Rightarrow> gstate \<Rightarrow> (int \<times> gstate) option \<Rightarrow> bool" where
  "call_ok e g r \<longleftrightarrow> (\<exists>c g'. r = Some (c, g') \<and> ginv e g' \<and> (c \<noteq> -1 \<longrightarrow> todo e g' < todo e g))"

lemma advances_call_ok: "advances e g r \<Longrightarrow> call_ok e g r"
  by (auto simp: advances_def call_ok_def)

lemma call_ok_end [simp]: "call_ok e g (Some (-1, g')) \<longleftrightarrow> ginv e g'"
  by (auto simp: call_ok_def)

lemma call_ok_mono: "call_ok e g1 r \<Longrightarrow> todo e g1 \<le> todo e g \<Longrightarrow> call_ok e g r"
  by (auto simp: call_ok_def)

lemma is_dashdash_Some:
  assumes "wf_cstr arg"
  shows "is_dashdash arg = Some (arg = ''--'')"
proof -
  consider "arg = []" | c where "arg = [c]" | c d where "arg = [c, d]" | c d x xs where "arg = c # d # x # xs"
    by (metis list.exhaust)
  then show ?thesis using assms by cases (auto simp: is_dashdash_def cat_def wf_cstr_def)
qed

text \<open>An argument that \<open>getopt\<close> scans for options: a dash and at least one more character.\<close>

definition optionlike :: "string \<Rightarrow> bool" where
  "optionlike arg \<longleftrightarrow> cat arg 0 = Some CHR ''-'' \<and> cat arg 1 \<noteq> Some NUL"

lemma optionlike_iff: "wf_cstr arg \<Longrightarrow> optionlike arg \<longleftrightarrow> (\<exists>c r. arg = CHR ''-'' # c # r)"
  by (cases arg rule: remdups_adj.cases) (auto simp: optionlike_def cat_def)

lemma getopt_start_ok:
  assumes "wf_env e" "short_next g = 0"
  shows "call_ok e g (getopt (ge_argc e) (ge_argv e) os g)"
proof (cases "optind g < ge_argc e")
  case True
  note rd = rd_argv [OF assms(1), of "optind g"]
  show ?thesis
  proof (cases "ge_argv e ! optind g")
    case (Ptr arg)
    then have wf: "wf_cstr arg" using wf_argv_elem [OF assms(1)] True by (meson less_imp_le)
    show ?thesis
    proof (cases "optionlike arg")
      case False
      with assms True rd Ptr show ?thesis
        by (subst getopt.simps)
          (auto simp: optionlike_def Let_def intro!: advances_call_ok advancesI)
    next
      case opt: True
      then obtain c r where arg: "arg = CHR ''-'' # c # r" using wf optionlike_iff by blast
      have adv: "advances e (g\<lparr>short_next := 1\<rparr>)
          (getopt_dispatch (ge_argc e) (ge_argv e) os' lookup c (g\<lparr>short_next := 1\<rparr>))" for os' lookup
        using assms True Ptr by (intro getopt_dispatch_advances) (auto simp: arg)
      have "todo e (g\<lparr>short_next := 1\<rparr>) \<le> todo e g" by (simp add: todo_def assms)
      then have "call_ok e g (getopt_dispatch (ge_argc e) (ge_argv e) os' lookup c (g\<lparr>short_next := 1\<rparr>))" for os' lookup
        using adv advances_call_ok call_ok_mono by blast
      with assms True rd Ptr opt wf show ?thesis
        by (subst getopt.simps)
          (auto simp: optionlike_def Let_def is_dashdash_Some arg cstr_simps split: bool.split)
    qed
  qed (use assms True rd in \<open>subst getopt.simps, simp\<close>)
qed (use assms in \<open>subst getopt.simps, simp\<close>)

lemma getopt_ok:
  assumes "wf_env e" "ginv e g"
  shows "call_ok e g (getopt (ge_argc e) (ge_argv e) os g)"
proof (cases "short_next g = 0")
  case False
  with assms(2) obtain arg where i: "optind g < ge_argc e" "ge_argv e ! optind g = Ptr arg" "short_next g \<le> length arg"
    by (auto simp: ginv_def split: ptr.splits)
  then obtain opt where opt: "cat arg (short_next g) = Some opt" using cat_Some by blast
  let ?g = "g\<lparr>short_next := 0, optind := optind g + 1\<rparr>"
  have "todo e ?g < todo e g" using todo_advance(1) [OF i] by simp
  then have "call_ok e g (getopt (ge_argc e) (ge_argv e) os' ?g)" for os'
    using getopt_start_ok [OF assms(1), of ?g os'] by (auto intro: call_ok_mono)
  moreover have "opt \<noteq> NUL \<Longrightarrow> call_ok e g (getopt_dispatch (ge_argc e) (ge_argv e) os' lookup opt g)" for os' lookup
    using getopt_dispatch_advances [OF assms(1) i(1,2)] cat_nonNUL [OF opt] advances_call_ok by blast
  ultimately show ?thesis
    using False i opt rd_argv [OF assms(1), of "optind g"]
    by (subst getopt.simps) (auto simp: Let_def)
qed (use getopt_start_ok assms in blast)

interpretation go: option_parser getopt_step
  by unfold_locales (use getopt_ok in \<open>auto simp: getopt_step_def call_ok_def\<close>)

section \<open>Resolution of long option names\<close>

text \<open>The table indices (from \<open>i\<close> on) whose entry satisfies a predicate, in table order.\<close>

definition indices :: "(string \<Rightarrow> bool) \<Rightarrow> nat \<Rightarrow> longopt list \<Rightarrow> nat list" where
  "indices P i los = map fst (filter (\<lambda>(_, lo). P (lo_name lo)) (enumerate i los))"

lemma indices_simps [simp]:
  "indices P i [] = []"
  "indices P i (lo # los) = (if P (lo_name lo) then i # indices P (Suc i) los else indices P (Suc i) los)"
  by (simp_all add: indices_def)

lemma indices_bound: "j \<in> set (indices P i los) \<Longrightarrow> i \<le> j \<and> j < i + length los"
  by (auto simp: indices_def in_set_enumerate_eq)

lemma indices_hd: "indices P 0 los = i # js \<Longrightarrow> i < length los"
  using indices_bound [of i P 0 los] by simp

lemma strncmp_eq_prefix: "strncmp_eq a (key @ r) (length key) \<longleftrightarrow> prefix key a"
  by (auto simp: strncmp_eq_def prefix_def) (metis append_take_drop_id)

lemma prefix_exact: "prefix key a \<Longrightarrow> length a = length key \<Longrightarrow> a = key"
  by (auto simp: prefix_def)

lemma long_match_eq:
  "long_match (key @ r) (length key) los i m amb =
     (case indices ((=) key) i los of
        j # _ \<Rightarrow> (Some j, False)
      | [] \<Rightarrow> (case m of
          Some k \<Rightarrow> (Some k, amb \<or> indices (prefix key) i los \<noteq> [])
        | None \<Rightarrow> (case indices (prefix key) i los of
            [] \<Rightarrow> (None, amb)
          | j # js \<Rightarrow> (Some j, amb \<or> js \<noteq> []))))"
  by (induction los arbitrary: i m amb)
    (auto simp: strncmp_eq_prefix split: list.splits option.splits dest: prefix_exact)

lemma long_exact_eq:
  "long_exact (key @ r) (length key) los i =
     (case indices ((=) key) i los of [] \<Rightarrow> None | j # _ \<Rightarrow> Some j)"
  by (induction los arbitrary: i) (auto simp: strncmp_eq_prefix dest: prefix_exact)

lemma name_split: "name = takeWhile (\<lambda>c. c \<noteq> CHR ''='') name @ dropWhile (\<lambda>c. c \<noteq> CHR ''='') name"
  by simp

lemma long_match_bound:
  assumes "long_match name (namelen name) los 0 None False = (Some i, amb)"
  shows "i < length los"
  using assms long_match_eq [of "takeWhile (\<lambda>c. c \<noteq> CHR ''='') name" "dropWhile (\<lambda>c. c \<noteq> CHR ''='') name" los 0 None False]
  by (auto simp: namelen_def split: list.splits dest: indices_hd)

lemma long_exact_bound:
  assumes "long_exact name (namelen name) los 0 = Some i"
  shows "i < length los"
  using assms long_exact_eq [of "takeWhile (\<lambda>c. c \<noteq> CHR ''='') name" "dropWhile (\<lambda>c. c \<noteq> CHR ''='') name" los 0]
  by (auto simp: namelen_def split: list.splits dest: indices_hd)

section \<open>Safety and progress of the long parsers\<close>

lemma set_longindex_fields [simp]:
  "optind (set_longindex i g) = optind g" "short_next (set_longindex i g) = short_next g"
  "stderr_text (set_longindex i g) = stderr_text g"
  by (simp_all add: set_longindex_def split: ptr.split)

lemma long_return_fields [simp]:
  "optind (snd (long_return lo g)) = optind g" "short_next (snd (long_return lo g)) = short_next g"
  by (simp_all add: long_return_def split: ptr.split)

lemma long_argument_advances:
  assumes "wf_env e" "short_next g = 0"
  shows "\<exists>c g'. long_argument (ge_argc e) (ge_argv e) os lo eq g = Some (c, g') \<and> short_next g' = 0 \<and> optind g \<le> optind g'"
    and "\<exists>c g'. long_only_argument (ge_argc e) (ge_argv e) os lo eq g = Some (c, g') \<and> short_next g' = 0 \<and> optind g \<le> optind g'"
  using assms rd_argv [OF assms(1), of "optind g"]
  by (auto simp: long_argument_def long_only_argument_def complain_eq long_return_def split: ptr.splits)

lemma advances_next:
  assumes "optind g < ge_argc e" "ge_argv e ! optind g = Ptr arg" "short_next g = 0"
    and "\<exists>c g'. r = Some (c, g') \<and> short_next g' = 0 \<and> optind g < optind g'"
  shows "call_ok e g r"
  using assms by (auto intro!: advances_call_ok advancesI)

lemma getopt_long_ok:
  assumes "wf_env e" "ginv e g"
  shows "call_ok e g (getopt_long (ge_argc e) (ge_argv e) os los g)"
proof (cases "optind g < ge_argc e \<and> ge_argv e ! optind g \<noteq> NULL \<and> short_next g = 0")
  case True
  then obtain arg where i: "optind g < ge_argc e" "ge_argv e ! optind g = Ptr arg" "short_next g = 0"
    by (cases "ge_argv e ! optind g") auto
  have dd: "is_dashdash arg = Some (arg = ''--'')"
    using is_dashdash_Some wf_argv_elem [OF assms(1) _ i(2)] i(1) by simp
  have la: "\<exists>c g'. long_argument (ge_argc e) (ge_argv e) os lo eq ((set_longindex k g)\<lparr>optind := optind g + 1\<rparr>) = Some (c, g')
      \<and> short_next g' = 0 \<and> optind g < optind g'" for lo eq k
    using long_argument_advances(1) [OF assms(1), of "(set_longindex k g)\<lparr>optind := optind g + 1\<rparr>" os lo eq] i
    by (auto simp: Suc_le_eq)
  show ?thesis
    using i dd la assms rd_argv [OF assms(1), of "optind g"] getopt_ok [OF assms]
    by (auto simp: getopt_long_def complain_eq Let_def split: ptr.splits prod.splits option.splits
        intro!: advances_next [OF i])
next
  case False
  then show ?thesis
    using assms getopt_ok [OF assms] rd_argv [OF assms(1), of "optind g"]
    by (auto simp: getopt_long_def split: ptr.splits)
qed

lemma getopt_long_only_ok:
  assumes "wf_env e" "ginv e g"
  shows "call_ok e g (getopt_long_only (ge_argc e) (ge_argv e) os los g)"
proof (cases "optind g < ge_argc e \<and> ge_argv e ! optind g \<noteq> NULL \<and> short_next g = 0")
  case True
  then obtain arg where i: "optind g < ge_argc e" "ge_argv e ! optind g = Ptr arg" "short_next g = 0"
    by (cases "ge_argv e ! optind g") auto
  have dd: "is_dashdash arg = Some (arg = ''--'')"
    using is_dashdash_Some wf_argv_elem [OF assms(1) _ i(2)] i(1) by simp
  have la: "\<exists>c g'. long_only_argument (ge_argc e) (ge_argv e) os lo eq ((set_longindex k g)\<lparr>optind := optind g + 1\<rparr>) = Some (c, g')
      \<and> short_next g' = 0 \<and> optind g < optind g'" for lo eq k
    using long_argument_advances(2) [OF assms(1), of "(set_longindex k g)\<lparr>optind := optind g + 1\<rparr>" os lo eq] i
    by (auto simp: Suc_le_eq)
  show ?thesis
    using i dd la assms rd_argv [OF assms(1), of "optind g"] getopt_ok [OF assms] getopt_long_ok [OF assms]
    by (auto simp: getopt_long_only_def complain_eq Let_def split: ptr.splits option.splits
        intro!: advances_next [OF i])
next
  case False
  then show ?thesis
    using assms getopt_ok [OF assms] rd_argv [OF assms(1), of "optind g"]
    by (auto simp: getopt_long_only_def split: ptr.splits)
qed

interpretation gol: option_parser getopt_long_step
  by unfold_locales (use getopt_long_ok in \<open>auto simp: getopt_long_step_def call_ok_def\<close>)

interpretation golo: option_parser getopt_long_only_step
  by unfold_locales (use getopt_long_only_ok in \<open>auto simp: getopt_long_only_step_def call_ok_def\<close>)

section \<open>Command lines and their options\<close>

text \<open>
  An abstract command line: clusters of argument-less short options, clusters that end in an
  option with its argument inline or in the next word, and long options under a (possibly
  abbreviated) name with no argument, an argument after \<open>'='\<close>, or one in the next word.
\<close>

datatype item =
    Flags string
  | Inline string char string
  | Separate string char string
  | LFlag string nat
  | LEq string nat string
  | LSep string nat string

fun words_of :: "item \<Rightarrow> string list" where
  "words_of (Flags cs) = [''-'' @ cs]"
| "words_of (Inline cs c v) = [''-'' @ cs @ c # v]"
| "words_of (Separate cs c v) = [''-'' @ cs @ [c], v]"
| "words_of (LFlag key i) = [''--'' @ key]"
| "words_of (LEq key i v) = [''--'' @ key @ ''='' @ v]"
| "words_of (LSep key i v) = [''--'' @ key, v]"

definition flag_events :: "string \<Rightarrow> (int \<times> string ptr) list" where
  "flag_events cs = map (\<lambda>c. (char_int c, NULL)) cs"

fun events_of :: "longopt list \<Rightarrow> item \<Rightarrow> (int \<times> string ptr) list" where
  "events_of los (Flags cs) = flag_events cs"
| "events_of los (Inline cs c v) = flag_events cs @ [(char_int c, Ptr v)]"
| "events_of los (Separate cs c v) = flag_events cs @ [(char_int c, Ptr v)]"
| "events_of los (LFlag key i) = [(val (los ! i), NULL)]"
| "events_of los (LEq key i v) = [(val (los ! i), Ptr v)]"
| "events_of los (LSep key i v) = [(val (los ! i), Ptr v)]"

text \<open>What \<open>optstring\<close> says of an option character: 0, 1 or 2 colons after it.\<close>

definition lookup_of :: "string \<Rightarrow> string" where
  "lookup_of os = (case os of [] \<Rightarrow> [] | c # r \<Rightarrow> if c = CHR ''+'' \<or> c = CHR ''-'' then r else os)"

definition short_kind :: "string \<Rightarrow> char \<Rightarrow> nat option" where
  "short_kind os c =
     (case dropWhile (\<lambda>x. x \<noteq> c) (lookup_of os) of
        [] \<Rightarrow> None
      | _ # s \<Rightarrow> if c \<in> {CHR '':'', NUL, CHR 0xFF} then None
                 else Some (length (takeWhile (\<lambda>x. x = CHR '':'') (take 2 s))))"

text \<open>A name selects entry \<open>i\<close>: the first exact entry, or the only entry it abbreviates.\<close>

definition resolves :: "longopt list \<Rightarrow> string \<Rightarrow> nat \<Rightarrow> bool" where
  "resolves los key i \<longleftrightarrow>
     take 1 (indices ((=) key) 0 los) = [i] \<or>
     indices ((=) key) 0 los = [] \<and> indices (prefix key) 0 los = [i]"

definition wf_long :: "longopt list \<Rightarrow> string \<Rightarrow> nat \<Rightarrow> int set \<Rightarrow> bool" where
  "wf_long los key i args \<longleftrightarrow> key \<noteq> [] \<and> CHR ''='' \<notin> set key \<and> resolves los key i
     \<and> has_arg (los ! i) \<in> args \<and> flag (los ! i) = NULL \<and> val (los ! i) \<noteq> -1"

fun wf_item :: "string \<Rightarrow> longopt list \<Rightarrow> item \<Rightarrow> bool" where
  "wf_item os los (Flags cs) \<longleftrightarrow>
     cs \<noteq> [] \<and> hd cs \<noteq> CHR ''-'' \<and> list_all (\<lambda>c. short_kind os c = Some 0) cs"
| "wf_item os los (Inline cs c v) \<longleftrightarrow>
     hd (cs @ [c]) \<noteq> CHR ''-'' \<and> list_all (\<lambda>c. short_kind os c = Some 0) cs
     \<and> short_kind os c \<in> {Some 1, Some 2} \<and> v \<noteq> []"
| "wf_item os los (Separate cs c v) \<longleftrightarrow>
     hd (cs @ [c]) \<noteq> CHR ''-'' \<and> list_all (\<lambda>c. short_kind os c = Some 0) cs \<and> short_kind os c = Some 1"
| "wf_item os los (LFlag key i) \<longleftrightarrow> wf_long los key i {no_argument, optional_argument}"
| "wf_item os los (LEq key i v) \<longleftrightarrow> wf_long los key i {required_argument, optional_argument}"
| "wf_item os los (LSep key i v) \<longleftrightarrow> wf_long los key i {required_argument}"

text \<open>From \<open>g\<close> the loop reports the given options without a diagnostic and goes on from \<open>g'\<close>.\<close>

definition emits :: "genv \<Rightarrow> gstate \<Rightarrow> (int \<times> string ptr) list \<Rightarrow> gstate \<Rightarrow> bool" where
  "emits e g evs g' \<longleftrightarrow> stderr_text g' = stderr_text g \<and>
     (\<forall>k. parse_loop (getopt_long_step e) (length evs + k) g =
            map_option (\<lambda>(os, g''). (evs @ os, g'')) (parse_loop (getopt_long_step e) k g'))"

lemma emits_Nil: "emits e g [] g"
  by (simp add: emits_def option.map_id)

lemma emits_one:
  "getopt_long_step e g = Some (c, g') \<Longrightarrow> c \<noteq> -1 \<Longrightarrow> stderr_text g' = stderr_text g \<Longrightarrow>
   optarg g' = a \<Longrightarrow> emits e g [(c, a)] g'"
  by (simp add: emits_def)

lemma emits_append:
  assumes "emits e g evs g1" "emits e g1 evs' g2"
  shows "emits e g (evs @ evs') g2"
  using assms by (auto simp: emits_def add.assoc option.map_comp comp_def split_def)

text \<open>The next character to fetch is character \<open>j\<close> of the word \<open>arg\<close>.\<close>

definition cursor :: "genv \<Rightarrow> gstate \<Rightarrow> string \<Rightarrow> nat \<Rightarrow> bool" where
  "cursor e g arg j \<longleftrightarrow> optind g < ge_argc e \<and> ge_argv e ! optind g = Ptr arg \<and> j < length arg \<and> 0 < j
     \<and> (short_next g = j \<or> short_next g = 0 \<and> j = 1 \<and> take 1 arg = ''-'' \<and> arg ! 1 \<noteq> CHR ''-'')"

lemma getopt_long_fetch:
  assumes "wf_env e" "ge_optstring e = Ptr os" "cursor e g (p @ c # r) (length p)" "c \<noteq> NUL"
  shows "getopt_long_step e g =
    getopt_dispatch (ge_argc e) (ge_argv e) os (lookup_of os) c (g\<lparr>short_next := length p\<rparr>)"
proof -
  have rd: "rd (ge_argv e) (optind g) = Some (Ptr (p @ c # r))"
    using rd_argv [OF assms(1)] assms(3) by (simp add: cursor_def)
  have lk: "(if cat os 0 \<in> {Some CHR ''+'', Some CHR ''-''} then tl os else os) = lookup_of os"
    by (cases os) (auto simp: lookup_of_def cstr_simps)
  have c: "cat (p @ c # r) (length p) = Some c" by (simp add: cat_def)
  show ?thesis
  proof (cases "short_next g = 0")
    case False
    with assms(3) have sn: "short_next g = length p" "g\<lparr>short_next := length p\<rparr> = g" by (auto simp: cursor_def)
    show ?thesis
      unfolding sn(2) getopt_long_step_def getopt_long_def using sn(1) False assms rd c
      by (subst getopt.simps) (auto simp: cursor_def Let_def lk [symmetric])
  next
    case True
    then have p: "p = ''-''" "c \<noteq> CHR ''-''" using assms(3) by (cases p; auto simp: cursor_def)+
    with True assms rd show ?thesis
      unfolding getopt_long_step_def getopt_long_def
      by (subst getopt.simps) (auto simp: cursor_def Let_def lk [symmetric] cstr_simps is_dashdash_def)
  qed
qed

text \<open>One fetched option character, by the number of colons that follow it in \<open>optstring\<close>.\<close>

lemma short_kindE:
  assumes "short_kind os c = Some k"
  obtains s where "dropWhile (\<lambda>x. x \<noteq> c) (lookup_of os) = c # s" "c \<noteq> CHR '':''" "c \<noteq> NUL" "char_int c \<noteq> -1"
    "k = length (takeWhile (\<lambda>x. x = CHR '':'') (take 2 s))"
proof -
  from assms obtain d s where d: "dropWhile (\<lambda>x. x \<noteq> c) (lookup_of os) = d # s"
    and c: "c \<notin> {CHR '':'', NUL, CHR 0xFF}" "k = length (takeWhile (\<lambda>x. x = CHR '':'') (take 2 s))"
    by (auto simp: short_kind_def split: list.splits if_splits)
  have "d = c" using hd_dropWhile [of "\<lambda>x. x \<noteq> c" "lookup_of os"] d by auto
  moreover have "char_int c = -1 \<longleftrightarrow> c = CHR 0xFF"
  proof -
    have "(of_char c :: int) = of_char (CHR 0xFF) \<longleftrightarrow> c = CHR 0xFF" by (rule of_char_eq_iff)
    moreover have "(0 :: int) \<le> of_char c" by (metis of_nat_0_le_iff of_nat_of_char)
    ultimately show ?thesis by (auto simp: char_int_def Let_def)
  qed
  ultimately show ?thesis using that d c by auto
qed

lemma dispatch_flag:
  assumes "wf_env e" "optind g < ge_argc e" "ge_argv e ! optind g = Ptr (p @ c # r)" "wf_cstr (p @ c # r)"
    and "short_kind os c = Some 0" "short_next g = length p"
  shows "getopt_dispatch (ge_argc e) (ge_argv e) os (lookup_of os) c g =
    Some (char_int c, if r = [] then g\<lparr>optarg := NULL, short_next := 0, optind := optind g + 1\<rparr>
                      else g\<lparr>optarg := NULL, short_next := length p + 1\<rparr>)"
proof -
  obtain s where s: "dropWhile (\<lambda>x. x \<noteq> c) (lookup_of os) = c # s" "c \<noteq> CHR '':''"
      "takeWhile (\<lambda>x. x = CHR '':'') (take 2 s) = []"
    using assms(5) by (auto elim!: short_kindE)
  have "cat (c # s) 1 \<noteq> Some CHR '':'' \<and> (\<exists>d. cat (c # s) 1 = Some d)"
    using s(3) by (cases s) (auto simp: cstr_simps numeral_2_eq_2 split: if_splits)
  moreover have "cat (p @ c # r) (length p + 1) = Some NUL \<longleftrightarrow> r = []" "\<exists>d. cat (p @ c # r) (length p + 1) = Some d"
    using cat_NUL_iff [OF assms(4)] cat_Some [of "length p + 1" "p @ c # r"] by auto
  ultimately show ?thesis
    using assms rd_argv [OF assms(1), of "optind g"] s by (auto simp: getopt_dispatch_def str_at_def Let_def)
qed

lemma dispatch_inline:
  assumes "wf_env e" "optind g < ge_argc e" "ge_argv e ! optind g = Ptr (p @ c # v)" "wf_cstr (p @ c # v)"
    and "short_kind os c \<in> {Some 1, Some 2}" "short_next g = length p" "v \<noteq> []"
  shows "getopt_dispatch (ge_argc e) (ge_argv e) os (lookup_of os) c g =
    Some (char_int c, g\<lparr>optarg := Ptr v, short_next := 0, optind := optind g + 1\<rparr>)"
proof -
  obtain k where k: "short_kind os c = Some k" "k \<noteq> 0" using assms(5) by auto
  obtain s where s: "dropWhile (\<lambda>x. x \<noteq> c) (lookup_of os) = c # s" "c \<noteq> CHR '':''"
      "length (takeWhile (\<lambda>x. x = CHR '':'') (take 2 s)) \<noteq> 0"
    by (rule short_kindE [OF k(1)]) (use k(2) in blast)
  then have "cat (c # s) 1 = Some CHR '':''"
    by (cases s) (auto simp: cstr_simps numeral_2_eq_2 split: if_splits)
  moreover obtain d where "cat (p @ c # v) (length p + 1) = Some d" "d \<noteq> NUL"
    using cat_NUL_iff [OF assms(4), of "length p + 1"] cat_Some [of "length p + 1" "p @ c # v"] assms(7) by auto
  ultimately show ?thesis
    using assms rd_argv [OF assms(1), of "optind g"] s by (auto simp: getopt_dispatch_def str_at_def Let_def)
qed

lemma dispatch_separate:
  assumes "wf_env e" "optind g + 1 < ge_argc e" "ge_argv e ! optind g = Ptr (p @ [c])" "wf_cstr (p @ [c])"
    and "short_kind os c = Some 1" "short_next g = length p" "ge_argv e ! (optind g + 1) = Ptr v"
  shows "getopt_dispatch (ge_argc e) (ge_argv e) os (lookup_of os) c g =
    Some (char_int c, g\<lparr>optarg := Ptr v, short_next := 0, optind := optind g + 2\<rparr>)"
proof -
  obtain s where s: "dropWhile (\<lambda>x. x \<noteq> c) (lookup_of os) = c # s" "c \<noteq> CHR '':''"
      "length (takeWhile (\<lambda>x. x = CHR '':'') (take 2 s)) = 1"
    using assms(5) by (auto elim!: short_kindE)
  then obtain s' where s': "s = CHR '':'' # s'" "\<exists>d. d \<noteq> CHR '':'' \<and> cat s' 0 = Some d"
    by (cases s; cases "tl s") (auto simp: cstr_simps numeral_2_eq_2 split: if_splits)
  then have "cat (c # s) 1 = Some CHR '':''" "\<exists>d. d \<noteq> CHR '':'' \<and> cat (c # s) 2 = Some d"
    by (auto simp: cstr_simps)
  moreover have "cat (p @ [c]) (length p + 1) = Some NUL" using cat_NUL_iff [OF assms(4)] by simp
  ultimately show ?thesis
    using assms rd_argv [OF assms(1), of "optind g"] rd_argv [OF assms(1), of "optind g + 1"] s
    by (auto simp: getopt_dispatch_def str_at_def Let_def)
qed

lemma step_flag:
  assumes "wf_env e" "ge_optstring e = Ptr os" "cursor e g (p @ c # r) (length p)" "short_kind os c = Some 0"
  shows "\<exists>g'. emits e g [(char_int c, NULL)] g' \<and>
    (if r = [] then short_next g' = 0 \<and> optind g' = optind g + 1
     else cursor e g' (p @ c # r) (length p + 1) \<and> optind g' = optind g)"
proof -
  let ?g = "g\<lparr>short_next := length p\<rparr>"
  have c: "c \<noteq> NUL" "char_int c \<noteq> -1" using assms(4) by (auto elim: short_kindE)
  have at: "optind g < ge_argc e" "ge_argv e ! optind g = Ptr (p @ c # r)" using assms(3) by (auto simp: cursor_def)
  then have wf: "wf_cstr (p @ c # r)" using wf_argv_elem [OF assms(1)] by (meson less_imp_le)
  have "getopt_long_step e g = Some (char_int c,
      if r = [] then ?g\<lparr>optarg := NULL, short_next := 0, optind := optind g + 1\<rparr>
      else ?g\<lparr>optarg := NULL, short_next := length p + 1\<rparr>)"
    using getopt_long_fetch [OF assms(1-3) c(1)] dispatch_flag [OF assms(1) _ _ wf assms(4), of ?g] at by simp
  note em = emits_one [OF this c(2)]
  show ?thesis
  proof (cases "r = []")
    case True
    then show ?thesis using em by fastforce
  next
    case False
    then have "cursor e (?g\<lparr>optarg := NULL, short_next := length p + 1\<rparr>) (p @ c # r) (length p + 1)"
      using at by (auto simp: cursor_def)
    with False em show ?thesis by fastforce
  qed
qed

lemma flags_emit:
  "wf_env e \<Longrightarrow> ge_optstring e = Ptr os \<Longrightarrow> cursor e g (p @ cs @ r) (length p) \<Longrightarrow> r \<noteq> [] \<Longrightarrow>
   list_all (\<lambda>c. short_kind os c = Some 0) cs \<Longrightarrow>
   \<exists>g'. emits e g (flag_events cs) g' \<and> cursor e g' (p @ cs @ r) (length p + length cs) \<and> optind g' = optind g"
proof (induction cs arbitrary: g p)
  case Nil
  then show ?case by (auto simp: flag_events_def intro: emits_Nil)
next
  case (Cons c cs)
  then obtain g1 where g1: "emits e g [(char_int c, NULL)] g1" "cursor e g1 ((p @ [c]) @ cs @ r) (length (p @ [c]))"
      "optind g1 = optind g"
    using step_flag [of e os g p c "cs @ r"] by auto
  moreover from Cons.IH [OF Cons.prems(1,2) g1(2)] Cons.prems obtain g2 where
    "emits e g1 (flag_events cs) g2" "cursor e g2 ((p @ [c]) @ cs @ r) (length (p @ [c]) + length cs)" "optind g2 = optind g1"
    by auto
  ultimately show ?case
    using emits_append [of e g "[(char_int c, NULL)]" g1 "flag_events cs" g2]
    by (auto simp: flag_events_def)
qed

lemma cursor_start:
  assumes "short_next g = 0" "optind g < ge_argc e" "ge_argv e ! optind g = Ptr (''-'' @ w)" "w \<noteq> []" "hd w \<noteq> CHR ''-''"
  shows "cursor e g (''-'' @ w) (length ''-'')"
  using assms by (auto simp: cursor_def hd_conv_nth)

text \<open>The state is between words and the next words of \<open>argv\<close> are \<open>ws\<close>.\<close>

definition before :: "genv \<Rightarrow> gstate \<Rightarrow> string list \<Rightarrow> bool" where
  "before e g ws \<longleftrightarrow> short_next g = 0 \<and> optind g + length ws \<le> ge_argc e
     \<and> (\<forall>j < length ws. ge_argv e ! (optind g + j) = Ptr (ws ! j))"

lemma beforeD:
  "before e g (w # ws) \<Longrightarrow> short_next g = 0 \<and> optind g < ge_argc e \<and> ge_argv e ! optind g = Ptr w"
  "before e g (w # v # ws) \<Longrightarrow> optind g + 1 < ge_argc e \<and> ge_argv e ! (optind g + 1) = Ptr v"
  by (force simp: before_def)+

lemma flags_item:
  assumes "wf_env e" "ge_optstring e = Ptr os" "before e g [''-'' @ cs]"
    and "cs \<noteq> []" "hd cs \<noteq> CHR ''-''" "list_all (\<lambda>c. short_kind os c = Some 0) cs"
  shows "\<exists>g'. emits e g (flag_events cs) g' \<and> short_next g' = 0 \<and> optind g' = optind g + 1"
proof -
  obtain ds d where cs: "cs = ds @ [d]" using assms(4) by (cases cs rule: rev_cases) auto
  have "cursor e g (''-'' @ ds @ [d]) (length ''-'')"
    using cursor_start beforeD(1) [OF assms(3)] assms(4,5) cs by blast
  then obtain g1 where g1: "emits e g (flag_events ds) g1" "cursor e g1 ((''-'' @ ds) @ [d]) (length (''-'' @ ds))" "optind g1 = optind g"
    using flags_emit [of e os g "''-''" ds "[d]"] assms(1,2,6) cs by auto
  with step_flag [of e os g1 "''-'' @ ds" d "[]"] assms(1,2,6) cs
  obtain g2 where "emits e g1 [(char_int d, NULL)] g2" "short_next g2 = 0" "optind g2 = optind g1 + 1" by auto
  with g1 emits_append [of e g "flag_events ds" g1 "[(char_int d, NULL)]" g2] show ?thesis
    by (auto simp: cs flag_events_def)
qed

lemma arg_item:
  assumes "wf_env e" "ge_optstring e = Ptr os" "before e g (words_of it)" "wf_item os los it"
    and "it = Inline cs c v \<or> it = Separate cs c v"
  shows "\<exists>g'. emits e g (flag_events cs @ [(char_int c, Ptr v)]) g' \<and> short_next g' = 0 \<and> optind g' = optind g + length (words_of it)"
proof -
  define r where "r = (case it of Inline _ _ v \<Rightarrow> v | _ \<Rightarrow> [])"
  have b: "short_next g = 0" "optind g < ge_argc e" "ge_argv e ! optind g = Ptr (''-'' @ cs @ c # r)"
    using assms(3,5) beforeD(1) [of e g] by (auto simp: r_def)
  have hd: "hd (cs @ c # r) \<noteq> CHR ''-''" "list_all (\<lambda>c. short_kind os c = Some 0) cs"
    using assms(4,5) by (cases cs; auto)+
  obtain k where k: "short_kind os c = Some k" using assms(4,5) by auto
  then have c: "c \<noteq> NUL" "char_int c \<noteq> -1" by (auto elim: short_kindE)
  have "cursor e g (''-'' @ cs @ c # r) (length ''-'')" using cursor_start [OF b] hd by simp
  then obtain g1 where g1: "emits e g (flag_events cs) g1" "cursor e g1 ((''-'' @ cs) @ c # r) (length (''-'' @ cs))" "optind g1 = optind g"
    using flags_emit [of e os g "''-''" cs "c # r"] assms(1,2) hd(2) by auto
  let ?g = "g1\<lparr>short_next := length (''-'' @ cs)\<rparr>"
  have at: "optind ?g < ge_argc e" "ge_argv e ! optind ?g = Ptr ((''-'' @ cs) @ c # r)" using b g1(3) by auto
  then have wf: "wf_cstr ((''-'' @ cs) @ c # r)" using wf_argv_elem [OF assms(1)] by (meson less_imp_le)
  have "getopt_long_step e g1 = Some (char_int c, ?g\<lparr>optarg := Ptr v, short_next := 0, optind := optind g + length (words_of it)\<rparr>)"
    using assms(5)
  proof
    assume "it = Inline cs c v"
    then show ?thesis
      using getopt_long_fetch [OF assms(1,2) g1(2) c(1)] dispatch_inline [OF assms(1) at wf, of os] assms(4) g1(3)
      by (simp add: r_def)
  next
    assume it: "it = Separate cs c v"
    then show ?thesis
      using getopt_long_fetch [OF assms(1,2) g1(2) c(1)] dispatch_separate [OF assms(1), of ?g "''-'' @ cs" c os v]
        beforeD(2) [of e g "''-'' @ cs @ [c]" v "[]"] assms(3,4) g1(3) at wf by (simp add: r_def)
  qed
  from emits_append [OF g1(1) emits_one [OF this c(2)]] show ?thesis by fastforce
qed

lemma split_at_eq:
  "CHR ''='' \<notin> set key \<Longrightarrow> takeWhile (\<lambda>c. c \<noteq> CHR ''='') (key @ CHR ''='' # v) = key"
  "CHR ''='' \<notin> set key \<Longrightarrow> dropWhile (\<lambda>c. c \<noteq> CHR ''='') (key @ CHR ''='' # v) = CHR ''='' # v"
  "CHR ''='' \<notin> set key \<Longrightarrow> takeWhile (\<lambda>c. c \<noteq> CHR ''='') key = key"
  "CHR ''='' \<notin> set key \<Longrightarrow> dropWhile (\<lambda>c. c \<noteq> CHR ''='') key = []"
  by (induction key) auto

lemma name_parts:
  assumes "CHR ''='' \<notin> set key"
  shows "namelen key = length key" "namelen (key @ CHR ''='' # v) = length key"
    "eq_part key = NULL" "eq_part (key @ CHR ''='' # v) = Ptr v"
  unfolding namelen_def eq_part_def split_at_eq [OF assms] by simp_all

lemma long_match_resolves: "resolves los key i \<Longrightarrow> long_match (key @ r) (length key) los 0 None False = (Some i, False)"
  by (auto simp: resolves_def long_match_eq take_Suc split: list.splits)

lemma getopt_long_name:
  assumes "wf_env e" "ge_longopts e = Ptr los" "before e g (words_of it)"
    and "words_of it = (''--'' @ key @ suf) # ws" "suf = [] \<or> suf = ''='' @ v"
    and "wf_long los key i args"
  shows "getopt_long_step e g = long_argument (ge_argc e) (ge_argv e) (ge_optstring e) (los ! i)
    (if suf = [] then NULL else Ptr v) ((set_longindex i g)\<lparr>optind := optind g + 1\<rparr>)"
proof -
  have b: "short_next g = 0" "optind g < ge_argc e" "ge_argv e ! optind g = Ptr (''--'' @ key @ suf)"
    using assms(3,4) beforeD(1) by fastforce+
  have "is_dashdash (''--'' @ key @ suf) = Some False"
    using is_dashdash_Some wf_argv_elem [OF assms(1) _ b(3)] b(2) assms(6) by (auto simp: wf_long_def)
  moreover have "long_match (key @ suf) (namelen (key @ suf)) los 0 None False = (Some i, False)"
    "eq_part (key @ suf) = (if suf = [] then NULL else Ptr v)"
    using assms(5,6) name_parts(1,3) [of key] name_parts(2,4) [of key v] long_match_resolves [of los key i] long_match_resolves [of los key i "[]"]
    by (auto simp: wf_long_def)
  ultimately show ?thesis
    using b rd_argv [OF assms(1), of "optind g"] assms(2)
    by (simp add: getopt_long_step_def getopt_long_def cstr_simps)
qed

lemmas arg_kinds = no_argument_def required_argument_def optional_argument_def

lemma long_item:
  assumes "wf_env e" "ge_longopts e = Ptr los" "before e g (words_of it)" "wf_item os los it"
    and "it \<in> {LFlag key i, LEq key i v, LSep key i v}"
  shows "\<exists>g'. emits e g (events_of los it) g' \<and> short_next g' = 0 \<and> optind g' = optind g + length (words_of it)"
proof -
  let ?g = "(set_longindex i g)\<lparr>optind := optind g + 1\<rparr>"
  have sn: "short_next g = 0" using assms(3) by (simp add: before_def)
  have "\<exists>a. events_of los it = [(val (los ! i), a)] \<and> val (los ! i) \<noteq> -1 \<and>
      getopt_long_step e g = Some (val (los ! i), ?g\<lparr>optarg := a, optind := optind g + length (words_of it)\<rparr>)"
  proof -
    consider "it = LFlag key i" | "it = LEq key i v" | "it = LSep key i v" using assms(5) by auto
    then show ?thesis
    proof cases
      case 1
      with assms(4) have w: "wf_long los key i {no_argument, optional_argument}" by simp
      show ?thesis
        using getopt_long_name [OF assms(1-3) _ _ w, of "[]" "[]"] w 1
        by (auto simp: long_argument_def long_return_def wf_long_def arg_kinds)
    next
      case 2
      with assms(4) have w: "wf_long los key i {required_argument, optional_argument}" by simp
      show ?thesis
        using getopt_long_name [OF assms(1-3) _ _ w, of "''='' @ v" "[]"] w 2
        by (auto simp: long_argument_def long_return_def wf_long_def arg_kinds)
    next
      case 3
      with assms(4) have w: "wf_long los key i {required_argument}" by simp
      have "rd (ge_argv e) (optind g + 1) = Some (Ptr v)" "optind g + 1 < ge_argc e"
        using 3 assms(3) beforeD(2) rd_argv [OF assms(1), of "optind g + 1"] by fastforce+
      then show ?thesis
        using getopt_long_name [OF assms(1-3) _ _ w, of "[]" "[v]"] w 3
        by (auto simp: long_argument_def long_return_def wf_long_def arg_kinds)
    qed
  qed
  then obtain a where "events_of los it = [(val (los ! i), a)]"
      "emits e g [(val (los ! i), a)] (?g\<lparr>optarg := a, optind := optind g + length (words_of it)\<rparr>)"
    using emits_one by fastforce
  then show ?thesis using sn by fastforce
qed

lemma item_emits:
  assumes "wf_env e" "ge_optstring e = Ptr os" "ge_longopts e = Ptr los" "before e g (words_of it)" "wf_item os los it"
  shows "\<exists>g'. emits e g (events_of los it) g' \<and> short_next g' = 0 \<and> optind g' = optind g + length (words_of it)"
proof (cases it)
  case (Flags cs)
  then show ?thesis using flags_item [OF assms(1,2)] assms(4,5) by auto
next
  case (Inline cs c v)
  then show ?thesis using arg_item [OF assms(1,2,4,5)] by auto
next
  case (Separate cs c v)
  then show ?thesis using arg_item [OF assms(1,2,4,5)] by auto
qed (use long_item [OF assms(1,3,4,5)] in auto)

lemma before_append:
  assumes "before e g (ws @ ws')"
  shows "before e g ws"
    and "short_next g' = 0 \<Longrightarrow> optind g' = optind g + length ws \<Longrightarrow> before e g' ws'"
proof -
  have nth: "ge_argv e ! (optind g + j) = Ptr ((ws @ ws') ! j)" if "j < length ws + length ws'" for j
    using assms that by (simp add: before_def)
  show "before e g ws" using assms nth by (simp add: before_def nth_append)
  show "before e g' ws'" if "short_next g' = 0" "optind g' = optind g + length ws"
    using assms that nth [of "length ws + j" for j] by (simp add: before_def nth_append add.assoc)
qed

lemma items_emit:
  "wf_env e \<Longrightarrow> ge_optstring e = Ptr os \<Longrightarrow> ge_longopts e = Ptr los \<Longrightarrow>
   before e g (concat (map words_of its)) \<Longrightarrow> list_all (wf_item os los) its \<Longrightarrow>
   \<exists>g'. emits e g (concat (map (events_of los) its)) g' \<and> short_next g' = 0
      \<and> optind g' = optind g + length (concat (map words_of its))"
proof (induction its arbitrary: g)
  case Nil
  then show ?case by (auto simp: before_def intro: emits_Nil)
next
  case (Cons it its)
  then obtain g1 where g1: "emits e g (events_of los it) g1" "short_next g1 = 0" "optind g1 = optind g + length (words_of it)"
    using item_emits [of e os los g it] before_append(1) by fastforce
  moreover have "before e g1 (concat (map words_of its))"
    using before_append(2) [of e g "words_of it" "concat (map words_of its)"] Cons.prems(4) g1(2,3) by simp
  then obtain g2 where "emits e g1 (concat (map (events_of los) its)) g2" "short_next g2 = 0"
      "optind g2 = optind g1 + length (concat (map words_of its))"
    using Cons by auto
  ultimately show ?case
    using emits_append [of e g "events_of los it" g1 "concat (map (events_of los) its)" g2]
    by (intro exI [of _ g2]) simp
qed

text \<open>The command line of a list of items, an optional \<open>--\<close>, and operands.\<close>

definition cmdline :: "string \<Rightarrow> item list \<Rightarrow> bool \<Rightarrow> string list \<Rightarrow> string ptr list" where
  "cmdline prog its marker ops =
     Ptr prog # map Ptr (concat (map words_of its) @ (if marker then [''--''] else []) @ ops) @ [NULL]"

lemma getopt_long_stops:
  assumes "wf_env e" "ge_optstring e = Ptr os" "take 1 os \<noteq> ''-''" "short_next g = 0"
    and "drop (optind g) (ge_argv e) = map Ptr ((if marker then [''--''] else []) @ ops) @ [NULL]"
    and "marker \<or> ops = [] \<or> \<not> optionlike (hd ops)"
  shows "\<exists>g'. getopt_long_step e g = Some (-1, g') \<and> drop (optind g') (ge_argv e) = map Ptr ops @ [NULL]
    \<and> stderr_text g' = stderr_text g"
proof -
  let ?ws = "map Ptr ((if marker then [''--''] else []) @ ops) :: string ptr list"
  have len: "length (ge_argv e) = ge_argc e + 1" using assms(1) by (simp add: wf_env_def)
  have i: "optind g + length ?ws = ge_argc e"
    using arg_cong [OF assms(5), of length] len by (cases "optind g < length (ge_argv e)") auto
  show ?thesis
  proof (cases ?ws)
    case Nil
    with i assms(5) show ?thesis by (auto simp: getopt_long_step_def getopt_long_def split: if_splits)
  next
    case (Cons w ws)
    then have d: "ge_argv e ! optind g = w" "optind g < ge_argc e"
      using assms(5) i nth_via_drop [of "optind g" "ge_argv e" w "ws @ [NULL]"] by auto
    obtain arg where arg: "w = Ptr arg" using Cons by (cases marker; cases ops) auto
    have wf: "wf_cstr arg" using wf_argv_elem [OF assms(1)] d arg by (meson less_imp_le)
    have rd: "rd (ge_argv e) (optind g) = Some (Ptr arg)" using rd_argv [OF assms(1)] d arg by simp
    show ?thesis
    proof (cases marker)
      case True
      with Cons arg have "arg = ''--''" by simp
      moreover have "drop (Suc (optind g)) (ge_argv e) = map Ptr ops @ [NULL]"
        using assms(5) True by (simp add: drop_Suc tl_drop [symmetric])
      ultimately show ?thesis
        using rd d assms(4) wf by (simp add: getopt_long_step_def getopt_long_def is_dashdash_Some)
    next
      case False
      with Cons arg assms(6) have no: "\<not> optionlike arg" by (cases ops) auto
      then have "\<not> (\<exists>c r. arg = CHR ''-'' # c # r)" using wf optionlike_iff by blast
      then have dash: "\<not> (cat arg 0 = Some CHR ''-'' \<and> cat arg 1 = Some CHR ''-'')" "arg \<noteq> ''--''"
        by (cases arg rule: remdups_adj.cases; auto simp: cstr_simps cat_def)+
      have "cat os 0 \<noteq> Some CHR ''-''" using assms(3) by (cases os) (auto simp: cstr_simps)
      then have "getopt (ge_argc e) (ge_argv e) (ge_optstring e) g = Some (-1, g)"
        using rd d assms(2,4) no by (subst getopt.simps) (auto simp: optionlike_def Let_def)
      then show ?thesis
        using rd d assms(4,5) False dash wf
        by (auto simp: getopt_long_step_def getopt_long_def is_dashdash_Some)
    qed
  qed
qed

section \<open>Properties\<close>

text \<open>
  C1. Parsing recovers the command line. For every list of well-formed items (clusters of short
  options, arguments inline or in the next word, exact or unambiguously abbreviated long options
  with their arguments), followed by an optional \<open>--\<close> and by operands, the loop over
  \<open>getopt_long\<close> reports exactly the items' options with their arguments, in order and without
  diagnostics, and leaves \<open>optind\<close> at the first operand.
\<close>

theorem getopt_long_cmdline:
  assumes "wf_env e" "ge_optstring e = Ptr os" "take 1 os \<noteq> ''-''" "ge_longopts e = Ptr los"
    and "ge_argv e = cmdline prog its marker ops" "list_all (wf_item os los) its"
    and "marker \<or> ops = [] \<or> \<not> optionlike (hd ops)"
    and "length (concat (map (events_of los) its)) < fuel"
  shows "\<exists>g'. parse_loop (getopt_long_step e) fuel getopt_init = Some (concat (map (events_of los) its), g')
    \<and> drop (optind g') (ge_argv e) = map Ptr ops @ [NULL] \<and> stderr_text g' = []"
proof -
  let ?ws = "concat (map words_of its)" and ?evs = "concat (map (events_of los) its)"
  let ?tl = "(if marker then [''--''] else []) @ ops"
  have argc: "ge_argc e = length ?ws + length ?tl + 1"
    using assms(1,5) by (simp add: wf_env_def cmdline_def)
  have init: "optind getopt_init = 1" by (simp add: getopt_init_def)
  have "before e getopt_init ?ws"
    using argc assms(5) by (auto simp: before_def getopt_init_def cmdline_def nth_append)
  then obtain g1 where g1: "emits e getopt_init ?evs g1" "short_next g1 = 0" "optind g1 = 1 + length ?ws"
    using items_emit [OF assms(1,2,4) _ assms(6), of getopt_init] by (auto simp: init)
  have "drop (optind g1) (ge_argv e) = map Ptr ?tl @ [NULL]"
    using g1(3) assms(5) by (simp add: cmdline_def)
  then obtain g2 where g2: "getopt_long_step e g1 = Some (-1, g2)"
      "drop (optind g2) (ge_argv e) = map Ptr ops @ [NULL]" "stderr_text g2 = stderr_text g1"
    using getopt_long_stops [OF assms(1-3) g1(2) _ assms(7)] by blast
  obtain k where k: "fuel = length ?evs + Suc k" using assms(8) less_imp_Suc_add by auto
  have "parse_loop (getopt_long_step e) (Suc k) g1 = Some ([], g2)" using g2(1) by simp
  then have "parse_loop (getopt_long_step e) fuel getopt_init = Some (?evs, g2)"
    unfolding k using g1(1) unfolding emits_def by (simp del: parse_loop.simps add_Suc_right)
  then show ?thesis using g1(1) g2(2,3) by (auto simp: emits_def getopt_init_def)
qed

theorem getopt_long_cmdline_witness:
  "\<exists>g'. parse_loop (getopt_long_step
      \<lparr>ge_argc = 7, ge_argv = map Ptr [''ld'', ''-vxfoo'', ''-o'', ''-a.out'', ''--verb=3'', ''--'', ''-x''] @ [NULL],
       ge_optstring = Ptr ''vx:o:'', ge_longopts = Ptr [\<lparr>lo_name = ''verbose'', has_arg = 2, flag = NULL, val = 7\<rparr>,
         \<lparr>lo_name = ''version'', has_arg = 0, flag = NULL, val = 8\<rparr>]\<rparr>) 9 getopt_init =
     Some ([(118, NULL), (120, Ptr ''foo''), (111, Ptr ''-a.out''), (7, Ptr ''3'')], g')
     \<and> optind g' = 6"
  (is "\<exists>g'. parse_loop (getopt_long_step ?e) 9 _ = _ \<and> _")
proof -
  have "\<exists>g'. parse_loop (getopt_long_step ?e) 9 getopt_init =
      Some (concat (map (events_of [\<lparr>lo_name = ''verbose'', has_arg = 2, flag = NULL, val = 7\<rparr>,
         \<lparr>lo_name = ''version'', has_arg = 0, flag = NULL, val = 8\<rparr>])
        [Inline ''v'' CHR ''x'' ''foo'', Separate [] CHR ''o'' ''-a.out'', LEq ''verb'' 0 ''3'']), g')
      \<and> drop (optind g') (ge_argv ?e) = map Ptr [''-x''] @ [NULL] \<and> stderr_text g' = []"
    by (rule getopt_long_cmdline [of ?e "''vx:o:''" _ "''ld''" _ True])
      (simp_all add: wf_env_def cmdline_def flag_events_def wf_long_def resolves_def short_kind_def lookup_of_def arg_kinds)
  then obtain g' where "parse_loop (getopt_long_step ?e) 9 getopt_init =
      Some ([(118, NULL), (120, Ptr ''foo''), (111, Ptr ''-a.out''), (7, Ptr ''3'')], g')"
    and d: "drop (optind g') (ge_argv ?e) = [Ptr ''-x'', NULL]"
    by (auto simp: flag_events_def char_int_def)
  moreover have "optind g' = 6"
    using arg_cong [OF d, of length] by simp
  ultimately show ?thesis by blast
qed

text \<open>
  C26. Whatever the arguments and option tables are, as long as \<open>argv\<close> is a proper argument vector
  the loop over any of the three parsers, from any state whose cluster cursor is inside its word,
  never reads outside an object and ends after at most one call more than the command line has
  characters left, the last call being the one that answers -1.
\<close>

theorem getopt_loops_terminate:
  assumes "wf_env e" "ginv e g" "todo e g < fuel"
    and "step \<in> {getopt_step, getopt_long_step, getopt_long_only_step}"
  shows "\<exists>os g'. parse_loop (step e) fuel g = Some (os, g') \<and> ginv e g' \<and> length os \<le> todo e g"
  using assms go.loop_terminates gol.loop_terminates golo.loop_terminates by auto

theorem getopt_loops_terminate_witness:
  "\<exists>os g'. parse_loop (getopt_long_only_step
      \<lparr>ge_argc = 3, ge_argv = [Ptr ''cc'', Ptr ''-qz'', Ptr ''--=x'', NULL], ge_optstring = NULL, ge_longopts = Ptr []\<rparr>) 20 getopt_init = Some (os, g')"
  using getopt_loops_terminate [of "\<lparr>ge_argc = 3, ge_argv = [Ptr ''cc'', Ptr ''-qz'', Ptr ''--=x'', NULL], ge_optstring = NULL, ge_longopts = Ptr []\<rparr>"
      getopt_init 20 getopt_long_only_step]
  by (auto simp: wf_env_def getopt_init_def todo_def remaining_def upt_rec)

text \<open>
  C37. The table scan of \<open>getopt_long\<close> computes the documented resolution: the first entry whose name
  is exactly the given one wins, even after abbreviations were seen; otherwise the only entry the
  name abbreviates; several abbreviated entries are ambiguous, none is unrecognised.
\<close>

theorem long_match_resolution:
  "long_match (key @ r) (length key) los 0 None False =
     (case indices ((=) key) 0 los of
        i # _ \<Rightarrow> (Some i, False)
      | [] \<Rightarrow> (case indices (prefix key) 0 los of
          [] \<Rightarrow> (None, False) | [i] \<Rightarrow> (Some i, False) | i # _ # _ \<Rightarrow> (Some i, True)))"
  by (auto simp: long_match_eq split: list.splits)

end
