(* ===== verification/String_Ext.thy ===== *)
theory String_Ext
  imports Prelude "HOL-Library.Sublist"
begin

text \<open>
  The string routines of \<open>src/string.c\<close>. Routines that write work on objects (\<open>cbuf\<close>,
  offsets, undefined behaviour as \<open>None\<close>); routines that only read take the contents of
  their string arguments. A returned pointer is the offset it has in its argument.
\<close>

section \<open>Definitions\<close>

text \<open>The scan shared by \<open>strndup\<close> and \<open>strnlen\<close>: \<open>while (len < n && s[len] != 0) len++\<close>.\<close>

function bounded_scan :: "cbuf \<Rightarrow> nat \<Rightarrow> nat \<Rightarrow> nat option" where
  "bounded_scan s n len =
     (if len < n then
        (case rd s len of
           None \<Rightarrow> None
         | Some c \<Rightarrow> if c \<noteq> NUL then bounded_scan s n (len + 1) else Some len)
      else Some len)"
  by pat_completeness auto
termination
  by (relation "measure (\<lambda>(s, n, len). n - len)") auto

definition strndup :: "(nat \<Rightarrow> cbuf ptr) \<Rightarrow> cbuf \<Rightarrow> nat \<Rightarrow> cbuf ptr option" where
  "strndup malloc s n = do {
     len \<leftarrow> bounded_scan s n 0;
     (case malloc (sz (len + 1)) of
        NULL \<Rightarrow> Some NULL
      | Ptr dup \<Rightarrow> do {
          dup \<leftarrow> memcpy dup 0 s 0 len;
          dup \<leftarrow> wr dup len NUL;
          Some (Ptr dup)
        })
   }"

definition strnlen :: "cbuf \<Rightarrow> nat \<Rightarrow> nat option" where
  "strnlen s maxlen = bounded_scan s maxlen 0"

definition strlcpy :: "cbuf \<Rightarrow> cbuf \<Rightarrow> nat \<Rightarrow> (nat \<times> cbuf) option" where
  "strlcpy dst src siz = do {
     srclen \<leftarrow> strlen_at src 0;
     if siz > 0 then do {
       let copylen = (if srclen \<ge> siz then siz - 1 else srclen);
       dst \<leftarrow> memcpy dst 0 src 0 copylen;
       dst \<leftarrow> wr dst copylen NUL;
       Some (srclen, dst)
     } else Some (srclen, dst)
   }"

definition strlcat :: "cbuf \<Rightarrow> cbuf \<Rightarrow> nat \<Rightarrow> (nat \<times> cbuf) option" where
  "strlcat dst src siz = do {
     dstlen \<leftarrow> strnlen dst siz;
     srclen \<leftarrow> strlen_at src 0;
     if dstlen = siz then Some (sz (siz + srclen), dst)
     else if srclen < siz - dstlen then do {
       dst \<leftarrow> memcpy dst dstlen src 0 (srclen + 1);
       Some (sz (dstlen + srclen), dst)
     } else do {
       dst \<leftarrow> memcpy dst dstlen src 0 (siz - dstlen - 1);
       dst \<leftarrow> wr dst (siz - 1) NUL;
       Some (sz (dstlen + srclen), dst)
     }
   }"

text \<open>\<open>tolower\<close> in the C locale, and \<open>strncasecmp(h, n, k) == 0\<close> on string contents.\<close>

definition ascii_tolower :: "char \<Rightarrow> char" where
  "ascii_tolower c =
     (let k = of_char c :: nat in if 65 \<le> k \<and> k \<le> 90 then char_of (k + 32) else c)"

fun strncase_eq :: "string \<Rightarrow> string \<Rightarrow> nat \<Rightarrow> bool" where
  "strncase_eq h n 0 = True"
| "strncase_eq [] [] (Suc k) = True"
| "strncase_eq [] (y # n) (Suc k) = False"
| "strncase_eq (x # h) [] (Suc k) = False"
| "strncase_eq (x # h) (y # n) (Suc k) =
     (ascii_tolower x = ascii_tolower y \<and> strncase_eq h n k)"

fun strcasestr_loop :: "string \<Rightarrow> string \<Rightarrow> nat \<Rightarrow> nat \<Rightarrow> nat ptr" where
  "strcasestr_loop [] needle nlen pos = NULL"
| "strcasestr_loop (c # haystack) needle nlen pos =
     (if strncase_eq (c # haystack) needle nlen then Ptr pos
      else strcasestr_loop haystack needle nlen (pos + 1))"

definition strcasestr :: "string \<Rightarrow> string \<Rightarrow> nat ptr" where
  "strcasestr haystack needle =
     (if needle = [] then Ptr 0 else strcasestr_loop haystack needle (length needle) 0)"

function memmem_loop :: "u8 list \<Rightarrow> nat \<Rightarrow> u8 list \<Rightarrow> nat \<Rightarrow> nat \<Rightarrow> nat ptr option" where
  "memmem_loop h haystacklen n needlelen i =
     (if i \<le> haystacklen - needlelen then
        (case (rd h i, rd n 0) of
           (Some a, Some b) \<Rightarrow>
             if a = b then
               (case memcmp_eq h i n 0 needlelen of
                  None \<Rightarrow> None
                | Some True \<Rightarrow> Some (Ptr i)
                | Some False \<Rightarrow> memmem_loop h haystacklen n needlelen (i + 1))
             else memmem_loop h haystacklen n needlelen (i + 1)
         | _ \<Rightarrow> None)
      else Some NULL)"
  by pat_completeness auto
termination
  by (relation "measure (\<lambda>(h, hl, n, nl, i). Suc (hl - nl) - i)") auto

definition memmem :: "u8 list \<Rightarrow> nat \<Rightarrow> u8 list \<Rightarrow> nat \<Rightarrow> nat ptr option" where
  "memmem h haystacklen n needlelen =
     (if needlelen = 0 then Some (Ptr 0)
      else if needlelen > haystacklen then Some NULL
      else memmem_loop h haystacklen n needlelen 0)"

text \<open>\<open>strpbrk(b + off, delim)\<close> as an offset into \<open>b\<close>.\<close>

definition strpbrk_at :: "cbuf \<Rightarrow> nat \<Rightarrow> string \<Rightarrow> nat ptr option" where
  "strpbrk_at b off delim = do {
     len \<leftarrow> strlen_at b off;
     let k = length (takeWhile (\<lambda>c. c \<notin> set delim) (cstr b off));
     Some (if k < len then Ptr (off + k) else NULL)
   }"

text \<open>
  \<open>strsep\<close> updates both the object and the caller's cursor: the result is the returned token,
  the new cursor and the object.
\<close>

definition strsep :: "cbuf \<Rightarrow> nat ptr \<Rightarrow> string \<Rightarrow> (nat ptr \<times> nat ptr \<times> cbuf) option" where
  "strsep b stringp delim =
     (case stringp of
        NULL \<Rightarrow> Some (NULL, NULL, b)
      | Ptr start \<Rightarrow> do {
          p \<leftarrow> strpbrk_at b start delim;
          (case p of
             Ptr q \<Rightarrow> do { b \<leftarrow> wr b q NUL; Some (Ptr start, Ptr (q + 1), b) }
           | NULL \<Rightarrow> Some (Ptr start, NULL, b))
        })"

fun stpcpy_loop :: "cbuf \<Rightarrow> nat \<Rightarrow> cbuf \<Rightarrow> nat \<Rightarrow> (nat \<times> cbuf) option" where
  "stpcpy_loop dst d [] s = None"
| "stpcpy_loop dst d (c # src) s =
     (case wr dst d c of
        None \<Rightarrow> None
      | Some dst' \<Rightarrow> if c = NUL then Some (d, dst') else stpcpy_loop dst' (d + 1) src (s + 1))"

definition stpcpy :: "cbuf \<Rightarrow> cbuf \<Rightarrow> (nat \<times> cbuf) option" where
  "stpcpy dst src = stpcpy_loop dst 0 src 0"

text \<open>The two loops of \<open>stpncpy\<close> share the index; each returns it with the object.\<close>

function stpncpy_copy :: "cbuf \<Rightarrow> cbuf \<Rightarrow> nat \<Rightarrow> nat \<Rightarrow> (nat \<times> cbuf) option" where
  "stpncpy_copy dst src n i =
     (if i < n then
        (case rd src i of
           None \<Rightarrow> None
         | Some c \<Rightarrow>
             if c \<noteq> NUL then
               (case wr dst i c of
                  None \<Rightarrow> None
                | Some dst' \<Rightarrow> stpncpy_copy dst' src n (i + 1))
             else Some (i, dst))
      else Some (i, dst))"
  by pat_completeness auto
termination
  by (relation "measure (\<lambda>(dst, src, n, i). n - i)") auto

function stpncpy_pad :: "cbuf \<Rightarrow> nat \<Rightarrow> nat \<Rightarrow> (nat \<times> cbuf) option" where
  "stpncpy_pad dst n i =
     (if i < n then
        (case wr dst i NUL of
           None \<Rightarrow> None
         | Some dst' \<Rightarrow> stpncpy_pad dst' n (i + 1))
      else Some (i, dst))"
  by pat_completeness auto
termination
  by (relation "measure (\<lambda>(dst, n, i). n - i)") auto

definition stpncpy :: "cbuf \<Rightarrow> cbuf \<Rightarrow> nat \<Rightarrow> (nat \<times> cbuf) option" where
  "stpncpy dst src n = do {
     (i, dst) \<leftarrow> stpncpy_copy dst src n 0;
     (i, dst) \<leftarrow> stpncpy_pad dst n i;
     Some (if i < n then i else n, dst)
   }"

fun strchrnul :: "string \<Rightarrow> char \<Rightarrow> nat" where
  "strchrnul [] c = 0"
| "strchrnul (x # s) c = (if x \<noteq> c then Suc (strchrnul s c) else 0)"

text \<open>\<open>memrchr\<close> walks down from \<open>s + n\<close>; the byte sought is \<open>(unsigned char)c\<close>.\<close>

fun memrchr :: "u8 list \<Rightarrow> u8 \<Rightarrow> nat \<Rightarrow> nat ptr option" where
  "memrchr s c 0 = Some NULL"
| "memrchr s c (Suc p) =
     (case rd s p of
        None \<Rightarrow> None
      | Some x \<Rightarrow> if x = c then Some (Ptr p) else memrchr s c p)"

declare bounded_scan.simps [simp del] memmem_loop.simps [simp del]
declare stpncpy_copy.simps [simp del] stpncpy_pad.simps [simp del]

section \<open>Bounded scans and copies\<close>

text \<open>
  The scan stays inside the object as soon as the object is as long as the bound or holds a
  terminator, and then it returns the length of the string, capped at the bound.
\<close>

lemma bounded_scan_eq:
  assumes "len \<le> length (cstr s 0)" and "len \<le> n"
    and "n \<le> length s \<or> length (cstr s 0) < length s"
  shows "bounded_scan s n len = Some (min n (length (cstr s 0)))"
  using assms
proof (induction s n len rule: bounded_scan.induct)
  case (1 s n len)
  let ?k = "length (cstr s 0)"
  have k: "?k \<le> length s"
    by (simp add: cstr_def length_takeWhile_le)
  consider "len = n" | "len < n" "len = ?k" | "len < n" "len < ?k"
    using "1.prems"(1,2) by linarith
  then show ?case
  proof cases
    case 1
    then show ?thesis using "1.prems"(1) by (simp add: bounded_scan.simps)
  next
    case 2
    then have "len < length s" using "1.prems"(3) k by linarith
    moreover from this 2 have "s ! len = NUL"
      using nth_length_takeWhile [of "\<lambda>c. c \<noteq> NUL" s] by (simp add: cstr_def)
    ultimately show ?thesis using 2
      by (subst bounded_scan.simps) (simp add: mem_simps)
  next
    case 3
    then have "len < length s" and "s ! len \<noteq> NUL"
      using k nth_mem [of len "cstr s 0"] takeWhile_nth [of len "\<lambda>c. c \<noteq> NUL" s]
      by (auto simp: cstr_def dest: set_takeWhileD)
    with 3 "1.IH" [OF \<open>len < n\<close> rd_Some [OF \<open>len < length s\<close>]] "1.prems"(3) show ?thesis
      by (simp add: bounded_scan.simps [of s n len] mem_simps)
  qed
qed

lemma strnlen_cstr:
  "n \<le> length s \<or> length (cstr s 0) < length s \<Longrightarrow> strnlen s n = Some (min n (length (cstr s 0)))"
  by (simp add: strnlen_def bounded_scan_eq)

lemma wr_after_memcpy:
  assumes "n < length dst" and "n \<le> length src"
  shows "Option.bind (memcpy dst 0 src 0 n) (\<lambda>b. wr b n v) = Some (take n src @ v # drop (Suc n) dst)"
proof -
  have "(take n src @ drop n dst)[n := v] = take n src @ v # drop (Suc n) dst"
    using assms by (simp add: list_update_append) (metis Cons_nth_drop_Suc list_update_code(2))
  with assms show ?thesis by (simp add: mem_simps)
qed

text \<open>
  The contract of the library's bounded string writers: the length of the whole text is
  returned, at most \<open>siz\<close> bytes are written, and what is written is the longest prefix that
  leaves room for the terminator.
\<close>

definition bounded_result :: "cbuf \<Rightarrow> string \<Rightarrow> nat \<Rightarrow> cbuf" where
  "bounded_result dst s siz =
     take (siz - 1) s @ NUL # drop (Suc (min (length s) (siz - 1))) dst"

locale bounded_writer =
  fixes writer :: "cbuf \<Rightarrow> string \<Rightarrow> nat \<Rightarrow> (nat \<times> cbuf) option"
  assumes writes:
    "wf_cstr s \<Longrightarrow> length s < 8192 \<Longrightarrow> 0 < siz \<Longrightarrow> siz \<le> length dst \<Longrightarrow>
     writer dst s siz = Some (length s, bounded_result dst s siz)"
begin

lemma keeps_size:
  assumes "wf_cstr s" "length s < 8192" "0 < siz" "siz \<le> length dst" "writer dst s siz = Some (n, b)"
  shows "length b = length dst"
  using writes [OF assms(1-4)] assms by (auto simp: bounded_result_def)

lemma terminates:
  assumes "wf_cstr s" "length s < 8192" "0 < siz" "siz \<le> length dst" "writer dst s siz = Some (n, b)"
  shows "cstr b 0 = take (siz - 1) s"
  using writes [OF assms(1-4)] assms by (auto simp: bounded_result_def cstr_simps)

lemma beyond_untouched:
  assumes "wf_cstr s" "length s < 8192" "0 < siz" "siz \<le> length dst" "writer dst s siz = Some (n, b)"
  shows "drop siz b = drop siz dst"
proof -
  define m where "m = min (length s) (siz - 1)"
  have b: "b = take (siz - 1) s @ NUL # drop (Suc m) dst"
    using writes [OF assms(1-4)] assms(5) unfolding bounded_result_def m_def
    by (metis option.inject prod.inject)
  have m: "length (take (siz - 1) s) = m" "m < siz"
    using assms(3) by (auto simp: m_def)
  then obtain k where k: "siz = Suc (m + k)"
    using less_iff_Suc_add by auto
  have "drop siz b = drop (siz - m) (NUL # drop (Suc m) dst)"
    unfolding b using m by simp
  also have "\<dots> = drop siz dst"
    using k by (simp add: add.commute)
  finally show ?thesis .
qed

lemma fits_iff:
  assumes "wf_cstr s" "length s < 8192" "0 < siz" "siz \<le> length dst" "writer dst s siz = Some (n, b)"
  shows "n < siz \<longleftrightarrow> cstr b 0 = s"
proof -
  have "n = length s" using writes [OF assms(1-4)] assms(5) by simp
  moreover have "cstr b 0 = take (siz - 1) s" using terminates [OF assms] .
  ultimately show ?thesis using assms(3)
    by (metis Suc_diff_1 less_Suc_eq_le not_less_eq_eq take_all_iff)
qed

end

lemma strlcpy_bounded:
  assumes "wf_cstr s" and "0 < siz" and "siz \<le> length dst"
  shows "strlcpy dst (s @ NUL # r) siz = Some (length s, bounded_result dst s siz)"
proof -
  define n where "n = min (length s) (siz - 1)"
  have n: "(if length s \<ge> siz then siz - 1 else length s) = n" by (auto simp: n_def)
  have t: "take n (s @ NUL # r) = take (siz - 1) s"
    by (simp add: min_def n_def)
  have "n < length dst" "n \<le> length (s @ NUL # r)"
    using assms(2,3) by (auto simp: n_def)
  from wr_after_memcpy [OF this, of NUL] obtain b where
    "memcpy dst 0 (s @ NUL # r) 0 n = Some b" "wr b n NUL = Some (take (siz - 1) s @ NUL # drop (Suc n) dst)"
    unfolding t by (auto simp: bind_eq_Some_conv)
  with assms show ?thesis
    by (simp add: strlcpy_def cstr_simps bounded_result_def Let_def n) (simp add: n_def)
qed

interpretation lcpy: bounded_writer "\<lambda>dst s siz. strlcpy dst (s @ [NUL]) siz"
  by unfold_locales (simp add: strlcpy_bounded)

text \<open>With room after the string already in \<open>dst\<close>, \<open>strlcat\<close> leaves the capped concatenation.\<close>

lemma strlcat_append:
  assumes wf: "wf_cstr d" "wf_cstr s" and dst: "dst = d @ NUL # rest"
    and siz: "length d < siz" "siz \<le> length dst" and small: "length d + length s < 2 ^ 32"
  shows "strlcat dst (s @ NUL # r) siz =
    Some (length d + length s,
          take (siz - 1) (d @ s) @ NUL # drop (Suc (min (length d + length s) (siz - 1))) dst)"
proof -
  have cd: "cstr dst 0 = d" using wf dst by (simp add: cstr_simps)
  have dl: "strnlen dst siz = Some (length d)"
    using strnlen_cstr [of siz dst] siz cd by simp
  show ?thesis
  proof (cases "length s < siz - length d")
    case True
    then have "length d + (length s + 1) \<le> length dst" using siz by simp
    with True dl wf siz small dst show ?thesis
      by (simp add: strlcat_def cstr_simps memcpy_Some)
  next
    case False
    define n where "n = siz - length d - 1"
    have n: "siz - 1 = length d + n" "n \<le> length s" "siz - Suc (length d) = n" using False siz by (auto simp: n_def)
    have m: "memcpy dst (length d) (s @ NUL # r) 0 n = Some (d @ take n s @ drop (length d + n) dst)"
      using siz n dst by (simp add: memcpy_Some)
    have w: "wr (d @ take n s @ drop (length d + n) dst) (length d + n) NUL =
        Some (d @ take n s @ NUL # drop (Suc (length d + n)) dst)"
    proof -
      have "length d + n < length dst" using siz n by simp
      then have "drop (length d + n) dst = dst ! (length d + n) # drop (Suc (length d + n)) dst"
        by (simp add: Cons_nth_drop_Suc)
      then show ?thesis
        using wr_append [of "d @ take n s" "dst ! (length d + n)" "drop (Suc (length d + n)) dst" NUL] n
        by simp
    qed
    show ?thesis using False dl wf siz small n m w
      by (simp add: strlcat_def cstr_simps)
  qed
qed

lemma strlcat_full:
  assumes "siz \<le> length (cstr dst 0)" and "wf_cstr s" and "siz \<le> length dst"
  shows "strlcat dst (s @ NUL # r) siz = Some (sz (siz + length s), dst)"
  using assms strnlen_cstr [of siz dst] by (simp add: strlcat_def cstr_simps)

text \<open>\<open>stpncpy\<close>: the contents are right, the returned pointer is not (see below).\<close>

lemma stpncpy_pad_eq:
  assumes "i \<le> n" and "n \<le> length dst"
  shows "stpncpy_pad dst n i = Some (n, take i dst @ replicate (n - i) NUL @ drop n dst)"
  using assms
proof (induction dst n i rule: stpncpy_pad.induct)
  case (1 dst n i)
  show ?case
  proof (cases "i < n")
    case True
    then have i: "i < length dst" using "1.prems" by simp
    have "stpncpy_pad (dst[i := NUL]) n (i + 1) =
        Some (n, take (i + 1) (dst[i := NUL]) @ replicate (n - (i + 1)) NUL @ drop n (dst[i := NUL]))"
      using "1.IH" [OF True wr_Some [OF i]] "1.prems" True by simp
    moreover have "take (i + 1) (dst[i := NUL]) = take i dst @ [NUL]"
      using i by (simp add: take_Suc_conv_app_nth)
    moreover have "replicate (n - i) NUL = NUL # replicate (n - (i + 1)) NUL"
      using True by (metis Suc_diff_Suc Suc_eq_plus1 replicate_Suc)
    ultimately show ?thesis using True i
      by (simp add: stpncpy_pad.simps [of dst n i] mem_simps)
  next
    case False
    then show ?thesis using "1.prems" by (simp add: stpncpy_pad.simps)
  qed
qed

lemma stpncpy_copy_eq:
  assumes "wf_cstr s" and "src = s @ NUL # r" and "i \<le> min n (length s)" and "n \<le> length dst"
  shows "stpncpy_copy dst src n i =
    Some (min n (length s), take i dst @ drop i (take n s) @ drop (min n (length s)) dst)"
  using assms
proof (induction dst src n i rule: stpncpy_copy.induct)
  case (1 dst src n i)
  consider "i = n" | "i < n" "i = length s" | "i < n" "i < length s"
    using "1.prems"(3) by linarith
  then show ?case
  proof cases
    case 1
    then show ?thesis using "1.prems"(3) by (simp add: stpncpy_copy.simps)
  next
    case 2
    with "1.prems" show ?thesis
      by (subst stpncpy_copy.simps) (simp add: mem_simps)
  next
    case 3
    then have rd: "rd src i = Some (s ! i)" and c: "s ! i \<noteq> NUL" and i: "i < length dst"
      using "1.prems" by (auto simp: rd_def nth_append wf_cstr_def) (metis nth_mem)
    have IH: "stpncpy_copy (dst[i := s ! i]) src n (i + 1) =
        Some (min n (length s), take (i + 1) (dst[i := s ! i]) @ drop (i + 1) (take n s) @
              drop (min n (length s)) (dst[i := s ! i]))"
      using "1.IH" [OF 3(1) rd c wr_Some [OF i]] "1.prems" 3 by simp
    have "take (i + 1) (dst[i := s ! i]) @ drop (i + 1) (take n s) = take i dst @ drop i (take n s)"
    proof -
      have "drop i (take n s) = s ! i # drop (i + 1) (take n s)"
        using 3 by (metis Cons_nth_drop_Suc Suc_eq_plus1 length_take min_less_iff_conj nth_take)
      moreover have "take (i + 1) (dst[i := s ! i]) = take i dst @ [s ! i]"
        using i by (simp add: take_Suc_conv_app_nth)
      ultimately show ?thesis by simp
    qed
    with IH 3 rd c i show ?thesis
      by (simp add: stpncpy_copy.simps [of dst src n i] mem_simps)
  qed
qed

lemma stpncpy_eq:
  assumes "wf_cstr s" and "n \<le> length dst"
  shows "stpncpy dst (s @ NUL # r) n = Some (n, take n (s @ replicate n NUL) @ drop n dst)"
proof -
  let ?m = "min n (length s)"
  have "stpncpy_copy dst (s @ NUL # r) n 0 = Some (?m, take n s @ drop ?m dst)"
    using stpncpy_copy_eq [OF assms(1) refl, of 0 n dst] assms(2) by simp
  moreover have "stpncpy_pad (take n s @ drop ?m dst) n ?m =
      Some (n, take n s @ replicate (n - ?m) NUL @ drop n dst)"
    using stpncpy_pad_eq [of ?m n "take n s @ drop ?m dst"] assms(2)
    by (simp add: min_def)
  ultimately show ?thesis by (simp add: stpncpy_def min_def)
qed

section \<open>Searching\<close>

text \<open>\<open>memmem\<close> returns the first occurrence of the needle, and null exactly when there is none.\<close>

definition occurs_at :: "u8 list \<Rightarrow> nat \<Rightarrow> u8 list \<Rightarrow> nat \<Rightarrow> nat \<Rightarrow> bool" where
  "occurs_at h hl n nl i \<longleftrightarrow> i + nl \<le> hl \<and> take nl (drop i h) = take nl n"

lemma memmem_loop_eq:
  assumes "hl \<le> length h" "nl \<le> length n" "0 < nl" "nl \<le> hl" "\<forall>j < i. \<not> occurs_at h hl n nl j"
  shows "memmem_loop h hl n nl i =
    Some (if \<exists>k. occurs_at h hl n nl k then Ptr (LEAST k. occurs_at h hl n nl k) else NULL)"
  using assms
proof (induction h hl n nl i rule: memmem_loop.induct)
  case (1 h hl n nl i)
  let ?occ = "occurs_at h hl n nl"
  show ?case
  proof (cases "i \<le> hl - nl")
    case False
    then have "\<not> ?occ k" for k
      using "1.prems"(4,5) by (cases "k < i") (auto simp: occurs_at_def)
    with False show ?thesis by (simp add: memmem_loop.simps)
  next
    case True
    then have i: "i + nl \<le> hl" "i < length h" using "1.prems" by auto
    have rdi: "rd h i = Some (h ! i)" "rd n 0 = Some (n ! 0)"
      using i "1.prems" by (auto simp: rd_def)
    have cmp: "memcmp_eq h i n 0 nl = Some (take nl (drop i h) = take nl n)"
      using i "1.prems" by (simp add: memcmp_eq_def)
    have hdeq: "?occ i \<Longrightarrow> h ! i = n ! 0"
      using i "1.prems"(1,3) by (auto simp: occurs_at_def dest!: arg_cong [where f = "\<lambda>l. l ! 0"])
    show ?thesis
    proof (cases "?occ i")
      case occ: True
      then have "(LEAST k. ?occ k) = i"
        using "1.prems"(5) by (intro Least_equality) (auto simp: not_less [symmetric])
      moreover have "memmem_loop h hl n nl i = Some (Ptr i)"
        using True occ hdeq rdi cmp by (simp add: memmem_loop.simps [of h hl n nl i] occurs_at_def)
      ultimately show ?thesis using occ by auto
    next
      case False
      then have "\<forall>j < i + 1. \<not> ?occ j"
        using "1.prems"(5) less_Suc_eq by auto
      note prems = "1.prems"(1-4) this
      have "memmem_loop h hl n nl (i + 1) = Some (if \<exists>k. ?occ k then Ptr (LEAST k. ?occ k) else NULL)"
      proof (cases "h ! i = n ! 0")
        case eq: True
        have "memcmp_eq h i n 0 nl = Some False" using cmp False i by (simp add: occurs_at_def)
        with "1.IH"(1) [OF True refl rdi eq] prems show ?thesis by blast
      next
        case neq: False
        show ?thesis using "1.IH"(2) [OF True refl rdi neq] prems by blast
      qed
      moreover have "memmem_loop h hl n nl i = memmem_loop h hl n nl (i + 1)"
        using True False rdi cmp i by (simp add: memmem_loop.simps [of h hl n nl i] occurs_at_def)
      ultimately show ?thesis by simp
    qed
  qed
qed

lemma strchrnul_eq: "strchrnul s c = length (takeWhile (\<lambda>x. x \<noteq> c) s)"
  by (induction s) auto

lemma memrchr_Ptr:
  "memrchr s c n = Some (Ptr p) \<Longrightarrow> p < n \<and> s ! p = c \<and> (\<forall>j. p < j \<and> j < n \<longrightarrow> s ! j \<noteq> c)"
  by (induction n) (auto simp: rd_def less_Suc_eq split: if_splits)

lemma memrchr_NULL: "n \<le> length s \<Longrightarrow> memrchr s c n = Some NULL \<longleftrightarrow> c \<notin> set (take n s)"
  by (induction n) (auto simp: rd_def take_Suc_conv_app_nth)

lemma strncase_eq_prefix:
  "strncase_eq h n (length n) \<longleftrightarrow> prefix (map ascii_tolower n) (map ascii_tolower h)"
proof (induction n arbitrary: h)
  case (Cons y n)
  then show ?case by (cases h) auto
qed simp

lemma strcasestr_loop_shift:
  "strcasestr_loop h n k (Suc p) = (case strcasestr_loop h n k p of NULL \<Rightarrow> NULL | Ptr q \<Rightarrow> Ptr (Suc q))"
  by (induction h arbitrary: p) auto

section \<open>Tokenising with strsep\<close>

text \<open>The fields of a string between delimiters, empty fields included.\<close>

fun fields :: "string \<Rightarrow> string \<Rightarrow> string list" where
  "fields delim [] = [[]]"
| "fields delim (c # s) =
     (if c \<in> set delim then [] # fields delim s
      else (case fields delim s of f # fs \<Rightarrow> (c # f) # fs | [] \<Rightarrow> [[c]]))"

text \<open>The caller's loop \<open>while ((t = strsep(&p, delim)) != NULL)\<close>, collecting the tokens.\<close>

fun strsep_tokens :: "nat \<Rightarrow> cbuf \<Rightarrow> nat ptr \<Rightarrow> string \<Rightarrow> string list option" where
  "strsep_tokens 0 b p delim = None"
| "strsep_tokens (Suc fuel) b p delim =
     (case strsep b p delim of
        None \<Rightarrow> None
      | Some (NULL, p', b') \<Rightarrow> Some []
      | Some (Ptr t, p', b') \<Rightarrow> map_option ((#) (cstr b' t)) (strsep_tokens fuel b' p' delim))"

lemma fields_split:
  "fields delim s =
     (case dropWhile (\<lambda>c. c \<notin> set delim) s of
        [] \<Rightarrow> [s]
      | c # s' \<Rightarrow> takeWhile (\<lambda>c. c \<notin> set delim) s # fields delim s')"
  by (induction s) (auto split: list.splits simp del: dropWhile_eq_Nil_conv)

lemma strsep_token:
  assumes "wf_cstr s" and "b = p @ s @ NUL # r"
  shows "strsep b (Ptr (length p)) delim =
    (case dropWhile (\<lambda>c. c \<notin> set delim) s of
       [] \<Rightarrow> Some (Ptr (length p), NULL, b)
     | c # s' \<Rightarrow>
         let f = takeWhile (\<lambda>c. c \<notin> set delim) s
         in Some (Ptr (length p), Ptr (length p + length f + 1), p @ f @ NUL # s' @ NUL # r))"
proof -
  let ?f = "takeWhile (\<lambda>c. c \<notin> set delim) s" and ?d = "dropWhile (\<lambda>c. c \<notin> set delim) s"
  have c: "cstr b (length p) = s" using assms by (simp add: cstr_simps)
  have s: "s = ?f @ ?d" by simp
  have l: "length ?f < length s \<longleftrightarrow> ?d \<noteq> []"
    by (metis append_Nil2 length_append length_greater_0_conv less_add_same_cancel1 s)
  have len: "strlen_at b (length p) = Some (length s)"
    using c assms by (simp add: strlen_at_def)
  show ?thesis
  proof (cases ?d)
    case Nil
    then show ?thesis using len c l
      by (simp add: strsep_def strpbrk_at_def del: dropWhile_eq_Nil_conv)
  next
    case (Cons x s')
    with s have b: "b = (p @ ?f) @ x # s' @ NUL # r" using assms by (metis append.assoc append_Cons)
    have "wr b (length p + length ?f) NUL = Some (p @ ?f @ NUL # s' @ NUL # r)"
      using wr_append [of "p @ ?f" x "s' @ NUL # r" NUL] b by simp
    then show ?thesis using Cons len c l
      by (simp add: strsep_def strpbrk_at_def Let_def add.assoc)
  qed
qed

lemma strsep_tokens_from:
  assumes "wf_cstr s" and "b = p @ s @ NUL # r" and "Suc (length s) < fuel"
  shows "strsep_tokens fuel b (Ptr (length p)) delim = Some (fields delim s)"
  using assms
proof (induction "length s" arbitrary: s b p fuel rule: less_induct)
  case less
  let ?f = "takeWhile (\<lambda>c. c \<notin> set delim) s" and ?d = "dropWhile (\<lambda>c. c \<notin> set delim) s"
  obtain k where k: "fuel = Suc (Suc k)" "length s < Suc k" using less.prems(3)
    by (metis Suc_less_eq less_imp_Suc_add add_Suc_right)
  show ?case
  proof (cases ?d)
    case Nil
    then have "fields delim s = [s]"
      by (simp add: fields_split [of delim s] del: dropWhile_eq_Nil_conv)
    moreover have "cstr b (length p) = s" using less.prems by (simp add: cstr_simps)
    ultimately show ?thesis using Nil strsep_token [OF less.prems(1,2), of delim] k
      by (simp add: strsep_def del: dropWhile_eq_Nil_conv)
  next
    case (Cons x s')
    let ?b = "(p @ ?f @ [NUL]) @ s' @ NUL # r"
    have s: "s = ?f @ x # s'" using Cons by (metis takeWhile_dropWhile_id)
    then have "wf_cstr (?f @ x # s')" using less.prems(1) by metis
    then have wf: "wf_cstr ?f" "wf_cstr s'" by simp_all
    have "length s = length (?f @ x # s')" using s by metis
    then have sh: "length s' < length s" by simp
    have step: "strsep b (Ptr (length p)) delim = Some (Ptr (length p), Ptr (length (p @ ?f @ [NUL])), ?b)"
      using strsep_token [OF less.prems(1,2), of delim] Cons by (simp add: Let_def)
    have "strsep_tokens (Suc k) ?b (Ptr (length (p @ ?f @ [NUL]))) delim = Some (fields delim s')"
      by (rule less.hyps [OF sh wf(2) refl]) (use sh k in simp)
    moreover have "cstr ?b (length p) = ?f"
      using cstr_append_NUL [OF wf(1), of "s' @ NUL # r"] by (simp add: cstr_def)
    moreover have "fields delim s = ?f # fields delim s'"
      using Cons by (simp add: fields_split [of delim s])
    ultimately show ?thesis using step k by simp
  qed
qed

section \<open>Properties\<close>

text \<open>
  \<open>strlcpy\<close> never leaves the \<open>siz\<close> bytes it was given: it returns the length of the source,
  stores the longest prefix that leaves room for a terminator, terminates it, keeps every later
  byte of the destination, and with size 0 writes nothing.
\<close>

lemma strlcpy_spec:
  assumes "wf_cstr s" and "siz \<le> length dst"
  shows "\<exists>b. strlcpy dst (s @ NUL # r) siz = Some (length s, b) \<and> length b = length dst \<and>
    drop siz b = drop siz dst \<and>
    (if siz = 0 then b = dst else cstr b 0 = take (siz - 1) s)"
proof (cases "siz = 0")
  case True
  with assms show ?thesis by (simp add: strlcpy_def cstr_simps)
next
  case False
  let ?b = "bounded_result dst s siz"
  have "strlcpy dst (s @ NUL # r) siz = Some (length s, ?b)"
    using strlcpy_bounded assms False by simp
  moreover have "length ?b = length dst"
    using False assms(2) by (auto simp: bounded_result_def)
  moreover have "cstr ?b 0 = take (siz - 1) s"
    using assms(1) by (simp add: bounded_result_def cstr_simps)
  moreover have "drop siz ?b = drop siz dst"
  proof -
    have "siz = Suc (min (length s) (siz - 1) + (siz - Suc (min (length s) (siz - 1))))"
      using False by auto
    then show ?thesis using False
      by (simp add: bounded_result_def drop_Cons' min_def)
  qed
  ultimately show ?thesis using False by simp
qed

theorem strlcpy_spec_witness:
  "\<exists>b. strlcpy ''......'' (''hello'' @ NUL # []) 4 = Some (5, b) \<and> length b = 6 \<and>
    drop 4 b = ''..'' \<and> cstr b 0 = ''hel''"
  using strlcpy_spec [of "''hello''" 4 "''......''" "[]"] by (simp add: numeral_eq_Suc)

text \<open>
  \<open>strlcat\<close> on a destination whose string ends before \<open>siz\<close> leaves the concatenation cut to
  \<open>siz - 1\<close> characters, terminated, inside the same object, and returns the length the
  untruncated concatenation has, so that \<open>result \<ge> siz\<close> is exactly the truncation test.
\<close>

lemma strlcat_spec:
  assumes "wf_cstr d" and "wf_cstr s" and "length d < siz" and "siz \<le> length (d @ NUL # rest)"
    and "length d + length s < 2 ^ 32"
  shows "\<exists>b. strlcat (d @ NUL # rest) (s @ NUL # r) siz = Some (length d + length s, b) \<and>
    length b = length (d @ NUL # rest) \<and> cstr b 0 = take (siz - 1) (d @ s) \<and>
    (length d + length s < siz \<longleftrightarrow> cstr b 0 = d @ s)"
proof -
  let ?dst = "d @ NUL # rest"
  let ?b = "take (siz - 1) (d @ s) @ NUL # drop (Suc (min (length d + length s) (siz - 1))) ?dst"
  have "strlcat ?dst (s @ NUL # r) siz = Some (length d + length s, ?b)"
    by (rule strlcat_append [OF assms(1,2) refl assms(3,4,5)])
  moreover have "cstr ?b 0 = take (siz - 1) (d @ s)"
    by (rule cstr_append_NUL) (simp add: assms(1,2))
  moreover have "length ?b = length ?dst"
    using assms(3,4) by auto
  moreover have "length d + length s < siz \<longleftrightarrow> take (siz - 1) (d @ s) = d @ s"
  proof -
    have "take (siz - 1) (d @ s) = d @ s \<longleftrightarrow> length (d @ s) \<le> siz - 1" by (rule take_all_iff)
    then show ?thesis using assms(3) by auto
  qed
  ultimately show ?thesis by metis
qed

theorem strlcat_spec_witness:
  "\<exists>b. strlcat (''ab'' @ NUL # ''....'') (''cdefg'' @ NUL # []) 6 = Some (length ''abcdefg'', b) \<and>
    length b = length ''ab.....'' \<and> cstr b 0 = ''abcde''"
  using strlcat_spec [of "''ab''" "''cdefg''" 6 "''....''" "[]"] by auto

text \<open>
  \<open>memmem\<close> never reads outside the two regions, returns the offset of the first occurrence
  of the needle, and returns null exactly when the needle does not occur.
\<close>

lemma memmem_first:
  assumes "hl \<le> length h" and "nl \<le> length n"
  shows "memmem h hl n nl =
    Some (if \<exists>k. occurs_at h hl n nl k then Ptr (LEAST k. occurs_at h hl n nl k) else NULL)"
proof -
  consider "nl = 0" | "nl > hl" | "0 < nl" "nl \<le> hl" by linarith
  then show ?thesis
  proof cases
    case 1
    then have "occurs_at h hl n nl 0" by (simp add: occurs_at_def)
    moreover from this have "(LEAST k. occurs_at h hl n nl k) = 0"
      by (intro Least_equality) auto
    ultimately show ?thesis using 1 by (auto simp: memmem_def)
  next
    case 2
    then have "\<not> occurs_at h hl n nl k" for k by (simp add: occurs_at_def)
    with 2 show ?thesis by (simp add: memmem_def)
  next
    case 3
    then show ?thesis using memmem_loop_eq [OF assms 3, of 0] by (simp add: memmem_def)
  qed
qed

theorem memmem_first_witness:
  "memmem [1, 2, 3, 2, 3] 5 [2, 3] 2 = Some (Ptr 1) \<and>
   (if \<exists>k. occurs_at [1, 2, 3, 2, 3] 5 [2, 3] 2 k
    then Ptr (LEAST k. occurs_at [1, 2, 3, 2, 3] 5 [2, 3] 2 k) else NULL) = Ptr 1"
proof -
  have "memmem [1, 2, 3, 2, 3] 5 [2, 3] 2 = Some (Ptr 1)" by code_simp
  with memmem_first [of 5 "[1, 2, 3, 2, 3]" 2 "[2, 3]"] show ?thesis by simp
qed

text \<open>
  Repeated \<open>strsep\<close> splits a string into exactly its fields, in order, empty fields
  included, and stops after the last one; the number of calls is at most one more than the
  number of characters plus one.
\<close>

lemma strsep_fields:
  assumes "wf_cstr s"
  shows "strsep_tokens (length s + 2) (s @ NUL # r) (Ptr 0) delim = Some (fields delim s)"
  using strsep_tokens_from [of s "s @ NUL # r" "[]" r "length s + 2" delim] assms by simp

theorem strsep_fields_witness:
  "strsep_tokens 8 (''a,b;;c'' @ NUL # []) (Ptr 0) '',;'' = Some [''a'', ''b'', [], ''c'']"
  using strsep_fields [of "''a,b;;c''" "[]" "'',;''"]
  by (simp add: numeral_eq_Suc del: strsep_tokens.simps)

text \<open>
  \<open>stpncpy\<close> fills the field as \<open>strncpy\<close> does, but it always returns \<open>dst + n\<close>: the padding
  loop leaves its index at \<open>n\<close>, so the pointer to the terminator that the comment in the source
  promises is never returned, not even when a terminator was written.
\<close>

lemma stpncpy_returns_end:
  assumes "wf_cstr s" and "n \<le> length dst"
  shows "\<exists>b. stpncpy dst (s @ NUL # r) n = Some (n, b) \<and> take n b = take n (s @ replicate n NUL) \<and>
    drop n b = drop n dst"
  using stpncpy_eq [OF assms, of r] assms(2) by simp

theorem stpncpy_returns_end_witness:
  "\<exists>b. stpncpy ''........'' (''abc'' @ NUL # []) 6 = Some (6, b) \<and>
    take 6 b = ''abc'' @ [NUL, NUL, NUL] \<and> drop 6 b = ''..''"
  using stpncpy_returns_end [of "''abc''" 6 "''........''" "[]"] by (simp add: numeral_eq_Suc)

end
