(* ===== verification/Snprintf.thy ===== *)
theory Snprintf
  imports String_Ext
begin

text \<open>
  \<open>src/snprintf.c\<close>: the rewriting of C99 length modifiers into the ones the Solaris 7 formatter
  knows, and the \<open>snprintf\<close> family built on the system's \<open>vsprintf\<close>.
\<close>

section \<open>preprocess\_fmt\<close>

text \<open>
  The loop state is what is left of the format, the output object, the write index and the
  \<open>changed\<close> flag. \<open>end\<close> is \<open>outsize - 1\<close>. \<open>put\<close> is \<open>*d++ = c\<close>: it does not compare \<open>d\<close> with
  \<open>end\<close>, so a step of the source that forgets to is undefined once \<open>d\<close> leaves the object.
\<close>

record pstate =
  ps_s :: string
  ps_out :: cbuf
  ps_d :: nat
  ps_changed :: bool

definition put :: "char \<Rightarrow> pstate \<Rightarrow> pstate option" where
  "put c p =
     map_option (\<lambda>b. p\<lparr>ps_out := b, ps_d := ps_d p + 1\<rparr>) (wr (ps_out p) (ps_d p) c)"

text \<open>\<open>*s\<close>, with the terminator at the end.\<close>

definition cur :: "pstate \<Rightarrow> char" where
  "cur p = (case ps_s p of [] \<Rightarrow> NUL | c # _ \<Rightarrow> c)"

definition advance :: "nat \<Rightarrow> pstate \<Rightarrow> pstate" where
  "advance k p = p\<lparr>ps_s := drop k (ps_s p)\<rparr>"

text \<open>\<open>*d++ = *s++\<close>.\<close>

definition copy1 :: "pstate \<Rightarrow> pstate option" where
  "copy1 p = map_option (advance 1) (put (cur p) p)"

definition is_flag :: "char \<Rightarrow> bool" where
  "is_flag c \<longleftrightarrow> c \<in> set ''-+ 0#''"

definition is_digit :: "char \<Rightarrow> bool" where
  "is_digit c \<longleftrightarrow> 48 \<le> (of_char c :: nat) \<and> (of_char c :: nat) \<le> 57"

definition is_lenmod :: "char \<Rightarrow> bool" where
  "is_lenmod c \<longleftrightarrow> c \<in> set ''hlLq''"

text \<open>\<open>while (*s \<and> d < end \<and> P(*s)) *d++ = *s++;\<close> on the rest of the format.\<close>

fun copy_while :: "nat \<Rightarrow> (char \<Rightarrow> bool) \<Rightarrow> string \<Rightarrow> pstate \<Rightarrow> pstate option" where
  "copy_while end P [] p = Some (p\<lparr>ps_s := []\<rparr>)"
| "copy_while end P (c # s) p =
     (if ps_d p < end \<and> P c
      then (case put c p of None \<Rightarrow> None | Some p' \<Rightarrow> copy_while end P s p')
      else Some (p\<lparr>ps_s := c # s\<rparr>))"

definition copy_run :: "nat \<Rightarrow> (char \<Rightarrow> bool) \<Rightarrow> pstate \<Rightarrow> pstate option" where
  "copy_run end P p = copy_while end P (ps_s p) p"

definition copy_width :: "nat \<Rightarrow> pstate \<Rightarrow> pstate option" where
  "copy_width end p = (if cur p = CHR ''*'' then copy1 p else copy_run end is_digit p)"

definition copy_precision :: "nat \<Rightarrow> pstate \<Rightarrow> pstate option" where
  "copy_precision end p =
     (if cur p = CHR ''.'' \<and> ps_d p < end then do {
        p \<leftarrow> copy1 p;
        if cur p = CHR ''*'' \<and> ps_d p < end then copy1 p else copy_run end is_digit p
      } else Some p)"

definition convert_length :: "nat \<Rightarrow> pstate \<Rightarrow> pstate option" where
  "convert_length end p =
     (if cur p = CHR ''z'' then Some ((advance 1 p)\<lparr>ps_changed := True\<rparr>)
      else if cur p = CHR ''t'' then Some ((advance 1 p)\<lparr>ps_changed := True\<rparr>)
      else if cur p = CHR ''j'' then do {
        p \<leftarrow> (if ps_d p + 1 < end then do { p \<leftarrow> put CHR ''l'' p; put CHR ''l'' p } else Some p);
        Some ((advance 1 p)\<lparr>ps_changed := True\<rparr>)
      }
      else if cur p = CHR ''h'' \<and> cur (advance 1 p) = CHR ''h'' then do {
        p \<leftarrow> put CHR ''h'' p;
        Some ((advance 2 p)\<lparr>ps_changed := True\<rparr>)
      }
      else copy_run end is_lenmod p)"

definition copy_conversion :: "nat \<Rightarrow> pstate \<Rightarrow> pstate option" where
  "copy_conversion end p = (if ps_s p \<noteq> [] \<and> ps_d p < end then copy1 p else Some p)"

text \<open>
  One pass of the outer loop, entered with \<open>*s \<and> d < end\<close>. The flag of the result says whether
  the \<open>break\<close> after copying the percent sign was taken.
\<close>

definition fmt_step :: "nat \<Rightarrow> pstate \<Rightarrow> (bool \<times> pstate) option" where
  "fmt_step end p =
     (if cur p \<noteq> CHR ''%'' then map_option (Pair False) (copy1 p)
      else do {
        p \<leftarrow> copy1 p;
        if ps_s p = [] \<or> ps_d p \<ge> end then Some (True, p)
        else if cur p = CHR ''%'' then map_option (Pair False) (copy1 p)
        else do {
          p \<leftarrow> copy_run end is_flag p;
          p \<leftarrow> copy_width end p;
          p \<leftarrow> copy_precision end p;
          p \<leftarrow> convert_length end p;
          p \<leftarrow> copy_conversion end p;
          Some (False, p)
        }
      })"

text \<open>Every step consumes input, so the outer loop ends.\<close>

lemma put_s: "put c p = Some p' \<Longrightarrow> ps_s p' = ps_s p"
  by (auto simp: put_def)

lemma copy1_s: "copy1 p = Some p' \<Longrightarrow> ps_s p' = drop 1 (ps_s p)"
  by (auto simp: copy1_def advance_def put_def)

lemma copy_while_s: "copy_while e P s p = Some p' \<Longrightarrow> length (ps_s p') \<le> length s"
  by (induction e P s p rule: copy_while.induct) (auto split: if_splits option.splits simp: put_def)

lemma copy_run_s: "copy_run e P p = Some p' \<Longrightarrow> length (ps_s p') \<le> length (ps_s p)"
  by (auto simp: copy_run_def dest: copy_while_s)

lemma copy_width_s: "copy_width e p = Some p' \<Longrightarrow> length (ps_s p') \<le> length (ps_s p)"
  by (auto simp: copy_width_def split: if_splits dest: copy1_s copy_run_s)

lemma copy_precision_s: "copy_precision e p = Some p' \<Longrightarrow> length (ps_s p') \<le> length (ps_s p)"
  by (fastforce simp: copy_precision_def bind_eq_Some_conv split: if_splits dest: copy1_s copy_run_s)

lemma convert_length_s: "convert_length e p = Some p' \<Longrightarrow> length (ps_s p') \<le> length (ps_s p)"
  by (auto simp: convert_length_def advance_def bind_eq_Some_conv split: if_splits
      dest!: put_s copy_run_s)

lemma copy_conversion_s: "copy_conversion e p = Some p' \<Longrightarrow> length (ps_s p') \<le> length (ps_s p)"
  by (auto simp: copy_conversion_def split: if_splits dest: copy1_s)

lemmas step_consumes = copy_run_s copy_width_s copy_precision_s convert_length_s copy_conversion_s

lemma fmt_step_s:
  assumes "fmt_step e p = Some (b, p')" and "ps_s p \<noteq> []"
  shows "length (ps_s p') < length (ps_s p)"
proof -
  have less: "length (ps_s q) < length (ps_s p)" if "copy1 p = Some q" for q
    using copy1_s [OF that] assms(2) by simp
  have shrink: "length (ps_s r) < length (ps_s p)" if "copy1 p = Some q" "copy1 q = Some r" for q r
    using less [OF that(1)] copy1_s [OF that(2)] by simp
  show ?thesis
  proof (cases "cur p = CHR ''%''")
    case False
    then show ?thesis using assms less by (auto simp: fmt_step_def)
  next
    case True
    then obtain q where q: "copy1 p = Some q"
      using assms by (auto simp: fmt_step_def bind_eq_Some_conv)
    show ?thesis
    proof (cases "ps_s q = [] \<or> ps_d q \<ge> e \<or> cur q = CHR ''%''")
      case True
      then show ?thesis using assms \<open>cur p = _\<close> q less shrink
        by (auto simp: fmt_step_def split: if_splits)
    next
      case False
      then obtain a b c d where "copy_run e is_flag q = Some a" "copy_width e a = Some b"
        "copy_precision e b = Some c" "convert_length e c = Some d" "copy_conversion e d = Some p'"
        using assms \<open>cur p = _\<close> q by (auto simp: fmt_step_def bind_eq_Some_conv)
      then show ?thesis using less [OF q]
        by (meson step_consumes le_less_trans)
    qed
  qed
qed

function fmt_loop :: "nat \<Rightarrow> pstate \<Rightarrow> pstate option" where
  "fmt_loop end p =
     (if ps_s p \<noteq> [] \<and> ps_d p < end then
        (case fmt_step end p of
           None \<Rightarrow> None
         | Some (brk, p') \<Rightarrow> if brk then Some p' else fmt_loop end p')
      else Some p)"
  by pat_completeness auto
termination
  by (relation "measure (\<lambda>(e, p). length (ps_s p))") (auto dest: fmt_step_s)

declare fmt_loop.simps [simp del]

text \<open>
  \<open>out\<close> is the caller's object of \<open>outsize\<close> bytes. The result is the format string that the
  caller goes on with.
\<close>

definition preprocess_fmt :: "string \<Rightarrow> cbuf \<Rightarrow> nat \<Rightarrow> string option" where
  "preprocess_fmt fmt out outsize = do {
     p \<leftarrow> fmt_loop (outsize - 1) \<lparr>ps_s = fmt, ps_out = out, ps_d = 0, ps_changed = False\<rparr>;
     b \<leftarrow> wr (ps_out p) (ps_d p) NUL;
     Some (if ps_changed p then cstr b 0 else fmt)
   }"

section \<open>The snprintf family\<close>

text \<open>
  Parameters: \<open>usable n\<close> is the number of bytes the object returned by \<open>malloc(n)\<close> really has
  (null when the allocation fails); \<open>vsprintf fmt ap\<close> is the text the system formatter produces,
  \<open>None\<close> when it reports an encoding error. \<open>vsprintf\<close> has no bound: it stores the text and its terminator
  into the heap object with the checked \<open>memcpy\<close>. The contents of a new object are never read; they are
  written as zeros. Freeing the work buffers is not recorded.
\<close>

definition STACK_BUF_SIZE :: nat where
  "STACK_BUF_SIZE = 8192"

definition vsprintf_into :: "cbuf \<Rightarrow> string \<Rightarrow> cbuf option" where
  "vsprintf_into buf text = memcpy buf 0 (text @ [NUL]) 0 (length text + 1)"

text \<open>The result has the length \<open>vsprintf\<close> returned and the work buffer.\<close>

function grow_loop :: "(nat \<Rightarrow> nat ptr) \<Rightarrow> string option \<Rightarrow> nat \<Rightarrow> (errno option + nat \<times> cbuf) option" where
  "grow_loop usable outp work_size =
     (case usable work_size of
        NULL \<Rightarrow> Some (Inl (Some ENOMEM))
      | Ptr cap \<Rightarrow>
          (case outp of
             None \<Rightarrow> Some (Inl None)
           | Some text \<Rightarrow>
               (case vsprintf_into (replicate cap NUL) text of
                  None \<Rightarrow> None
                | Some heap_buf \<Rightarrow>
                    let len = length text in
                    if len < work_size then Some (Inr (len, heap_buf))
                    else if work_size > 8 * 1024 * 1024 then Some (Inl (Some ENOMEM))
                    else if work_size = 0 then None
                    else grow_loop usable outp (work_size * 2))))"
  by pat_completeness auto
termination
  by (relation "measure (\<lambda>(u, t, w). 8 * 1024 * 1024 + 1 - w)") auto

declare grow_loop.simps [simp del]

record vresult =
  vr_ret :: int
  vr_errno :: "errno option"
  vr_str :: "cbuf ptr"

definition solcompat_vsnprintf ::
  "(nat \<Rightarrow> nat ptr) \<Rightarrow> (string \<Rightarrow> 'a \<Rightarrow> string option) \<Rightarrow> cbuf \<Rightarrow> cbuf ptr \<Rightarrow> nat \<Rightarrow> string \<Rightarrow> 'a \<Rightarrow>
   vresult option" where
  "solcompat_vsnprintf usable vsprintf fmt_buf str siz fmt ap = do {
     fmt \<leftarrow> preprocess_fmt fmt fmt_buf 2048;
     r \<leftarrow> grow_loop usable (vsprintf fmt ap) STACK_BUF_SIZE;
     (case r of
        Inl e \<Rightarrow> Some \<lparr>vr_ret = -1, vr_errno = e, vr_str = str\<rparr>
      | Inr (len, work_buf) \<Rightarrow> do {
          str \<leftarrow> (case str of
                    NULL \<Rightarrow> Some NULL
                  | Ptr b \<Rightarrow>
                      if siz > 0 then
                        if len < siz then map_option Ptr (memcpy b 0 work_buf 0 (len + 1))
                        else map_option Ptr (do { b \<leftarrow> memcpy b 0 work_buf 0 (siz - 1); wr b (siz - 1) NUL })
                      else Some (Ptr b));
          Some \<lparr>vr_ret = int len, vr_errno = None, vr_str = str\<rparr>
        })
   }"

definition solcompat_snprintf where
  "solcompat_snprintf usable vsprintf fmt_buf str siz fmt ap =
     solcompat_vsnprintf usable vsprintf fmt_buf str siz fmt ap"

definition vsnprintf where
  "vsnprintf usable vsprintf fmt_buf str siz fmt ap =
     solcompat_vsnprintf usable vsprintf fmt_buf str siz fmt ap"

definition snprintf where
  "snprintf usable vsprintf fmt_buf str siz fmt ap =
     solcompat_vsnprintf usable vsprintf fmt_buf str siz fmt ap"

section \<open>Rewriting well-formed formats\<close>

datatype flen = L_none | L_h | L_l | L_ll | L_L | L_q | L_hh | L_z | L_t | L_j

datatype fwidth = W_none | W_star | W_digits string

datatype fprec = P_none | P_star | P_digits string

datatype piece = Lit char | Percent | Directive string fwidth fprec flen char

fun render_len :: "flen \<Rightarrow> string" where
  "render_len L_none = []" | "render_len L_h = ''h''" | "render_len L_l = ''l''"
| "render_len L_ll = ''ll''" | "render_len L_L = ''L''" | "render_len L_q = ''q''"
| "render_len L_hh = ''hh''" | "render_len L_z = ''z''" | "render_len L_t = ''t''"
| "render_len L_j = ''j''"

fun render_width :: "fwidth \<Rightarrow> string" where
  "render_width W_none = []" | "render_width W_star = ''*''" | "render_width (W_digits ds) = ds"

fun render_prec :: "fprec \<Rightarrow> string" where
  "render_prec P_none = []" | "render_prec P_star = ''.*''" | "render_prec (P_digits ds) = CHR ''.'' # ds"

fun render :: "piece \<Rightarrow> string" where
  "render (Lit c) = [c]"
| "render Percent = ''%%''"
| "render (Directive fl w pr l c) = CHR ''%'' # fl @ render_width w @ render_prec pr @ render_len l @ [c]"

text \<open>What each modifier becomes on an ILP32 system whose formatter predates C99.\<close>

fun solaris_len :: "flen \<Rightarrow> flen" where
  "solaris_len L_z = L_none" | "solaris_len L_t = L_none" | "solaris_len L_j = L_ll"
| "solaris_len L_hh = L_h" | "solaris_len l = l"

fun solaris_piece :: "piece \<Rightarrow> piece" where
  "solaris_piece (Directive fl w pr l c) = Directive fl w pr (solaris_len l) c"
| "solaris_piece pc = pc"

definition conv_char :: "char \<Rightarrow> bool" where
  "conv_char c \<longleftrightarrow> c \<in> set ''diouxXeEfgGaAcspn''"

fun wf_width :: "fwidth \<Rightarrow> bool" where
  "wf_width (W_digits ds) \<longleftrightarrow> list_all is_digit ds \<and> ds \<noteq> [] \<and> hd ds \<noteq> CHR ''0''"
| "wf_width w \<longleftrightarrow> True"

fun wf_prec :: "fprec \<Rightarrow> bool" where
  "wf_prec (P_digits ds) \<longleftrightarrow> list_all is_digit ds"
| "wf_prec pr \<longleftrightarrow> True"

fun wf_piece :: "piece \<Rightarrow> bool" where
  "wf_piece (Lit c) \<longleftrightarrow> c \<noteq> NUL \<and> c \<noteq> CHR ''%''"
| "wf_piece Percent \<longleftrightarrow> True"
| "wf_piece (Directive fl w pr l c) \<longleftrightarrow> list_all is_flag fl \<and> wf_width w \<and> wf_prec pr \<and> conv_char c"

text \<open>The loop states in which the first \<open>length w\<close> bytes of the output hold \<open>w\<close>.\<close>

definition pst :: "string \<Rightarrow> cbuf \<Rightarrow> cbuf \<Rightarrow> bool \<Rightarrow> pstate" where
  "pst s w u ch = \<lparr>ps_s = s, ps_out = w @ u, ps_d = length w, ps_changed = ch\<rparr>"

lemma pst_sel [simp]:
  "ps_s (pst s w u ch) = s" "ps_d (pst s w u ch) = length w" "ps_changed (pst s w u ch) = ch"
  "cur (pst (c # s) w u ch) = c" "cur (pst [] w u ch) = NUL"
  "advance k (pst s w u ch) = pst (drop k s) w u ch"
  "(pst s w u ch)\<lparr>ps_changed := ch'\<rparr> = pst s w u ch'"
  "(pst s w u ch)\<lparr>ps_s := s'\<rparr> = pst s' w u ch"
  by (simp_all add: pst_def cur_def advance_def)

lemma put_pst [simp]: "put c (pst s w (x # u) ch) = Some (pst s (w @ [c]) u ch)"
  by (simp add: put_def pst_def wr_append)

lemma copy1_pst [simp]: "copy1 (pst (c # s) w (x # u) ch) = Some (pst s (w @ [c]) u ch)"
  by (simp add: copy1_def)

lemma copy_while_pst:
  "list_all P xs \<Longrightarrow> (rest \<noteq> [] \<Longrightarrow> \<not> P (hd rest)) \<Longrightarrow> length w + length xs \<le> e \<Longrightarrow> length xs \<le> length u \<Longrightarrow>
   copy_while e P (xs @ rest) (pst s w u ch) = Some (pst rest (w @ xs) (drop (length xs) u) ch)"
proof (induction xs arbitrary: w u s)
  case Nil
  then show ?case by (cases rest) auto
next
  case (Cons x xs)
  then obtain y u' where u: "u = y # u'" by (cases u) auto
  with Cons show ?case by simp
qed

lemma copy_run_pst:
  "list_all P xs \<Longrightarrow> (rest \<noteq> [] \<Longrightarrow> \<not> P (hd rest)) \<Longrightarrow> length w + length xs \<le> e \<Longrightarrow> length xs \<le> length u \<Longrightarrow>
   copy_run e P (pst (xs @ rest) w u ch) = Some (pst rest (w @ xs) (drop (length xs) u) ch)"
  by (simp add: copy_run_def copy_while_pst)

lemmas char_classes = is_flag_def is_digit_def is_lenmod_def conv_char_def

lemma char_class_simps [simp]:
  "\<not> is_flag (CHR ''*'')" "\<not> is_flag (CHR ''.'')" "\<not> is_digit (CHR ''.'')" "\<not> is_digit (CHR ''*'')"
  "is_lenmod (CHR ''h'')" "is_lenmod (CHR ''l'')" "is_lenmod (CHR ''L'')" "is_lenmod (CHR ''q'')"
  "is_digit c \<Longrightarrow> c \<noteq> CHR ''0'' \<Longrightarrow> \<not> is_flag c"
  "conv_char c \<Longrightarrow> \<not> is_flag c" "conv_char c \<Longrightarrow> \<not> is_digit c" "conv_char c \<Longrightarrow> \<not> is_lenmod c"
  by (auto simp: char_classes)

lemma conv_char_neq [simp]:
  "conv_char c \<Longrightarrow> c \<noteq> CHR ''*''" "conv_char c \<Longrightarrow> c \<noteq> CHR ''.''" "conv_char c \<Longrightarrow> c \<noteq> CHR ''z''"
  "conv_char c \<Longrightarrow> c \<noteq> CHR ''t''" "conv_char c \<Longrightarrow> c \<noteq> CHR ''j''" "conv_char c \<Longrightarrow> c \<noteq> CHR ''h''"
  "conv_char c \<Longrightarrow> c \<noteq> CHR ''%''" "conv_char c \<Longrightarrow> c \<noteq> NUL"
  by (auto simp: conv_char_def)

lemma hd_after_prec [simp]:
  assumes "conv_char c"
  shows "\<not> is_digit (hd (render_len l @ c # r))" "\<not> is_flag (hd (render_len l @ c # r))"
    "cur (pst (render_len l @ c # r) w u ch) \<noteq> CHR ''*''"
    "cur (pst (render_len l @ c # r) w u ch) \<noteq> CHR ''.''"
  using assms by (cases l; simp; simp add: char_classes)+

lemma hd_after_width [simp]:
  assumes "conv_char c"
  shows "\<not> is_digit (hd (render_prec pr @ render_len l @ c # r))"
    "\<not> is_flag (hd (render_prec pr @ render_len l @ c # r))"
    "cur (pst (render_prec pr @ render_len l @ c # r) w u ch) \<noteq> CHR ''*''"
  using assms by (cases pr; simp)+

lemma hd_after_flags [simp]:
  assumes "conv_char c" and "wf_width wd"
  shows "\<not> is_flag (hd (render_width wd @ render_prec pr @ render_len l @ c # r))"
proof (cases wd)
  case (W_digits ds)
  with assms obtain d ds' where "ds = d # ds'" "is_digit d" "d \<noteq> CHR ''0''"
    by (cases ds) auto
  with W_digits show ?thesis by simp
qed (use assms in auto)

lemma hd_directive:
  assumes "conv_char c" and "wf_width wd" and "list_all is_flag fl"
  shows "hd (fl @ render_width wd @ render_prec pr @ render_len l @ c # r) \<noteq> CHR ''%''"
proof (cases fl)
  case Nil
  show ?thesis
  proof (cases wd)
    case (W_digits ds)
    with assms obtain d ds' where "ds = d # ds'" "is_digit d" by (cases ds) auto
    with Nil W_digits show ?thesis by (auto simp: is_digit_def)
  qed (use Nil assms in \<open>cases pr; cases l; simp\<close>)+
next
  case (Cons x fl')
  with assms(3) show ?thesis by (auto simp: is_flag_def)
qed

lemma width_stage:
  assumes "conv_char c" "wf_width wd" "length w + length (render_width wd) \<le> e" "length (render_width wd) \<le> length u"
  shows "copy_width e (pst (render_width wd @ render_prec pr @ render_len l @ c # r) w u ch) =
    Some (pst (render_prec pr @ render_len l @ c # r) (w @ render_width wd) (drop (length (render_width wd)) u) ch)"
proof (cases wd)
  case W_none
  then show ?thesis
    using assms copy_run_pst [of is_digit "[]" "render_prec pr @ render_len l @ c # r" w e u ch]
    by (simp add: copy_width_def)
next
  case W_star
  then show ?thesis using assms by (cases u) (auto simp: copy_width_def)
next
  case (W_digits ds)
  then have "cur (pst (ds @ render_prec pr @ render_len l @ c # r) w u ch) \<noteq> CHR ''*''"
    using assms(2) by (cases ds) (auto simp: is_digit_def)
  with W_digits show ?thesis
    using assms copy_run_pst [of is_digit ds "render_prec pr @ render_len l @ c # r" w e u ch]
    by (simp add: copy_width_def)
qed

lemma prec_stage:
  assumes "conv_char c" "wf_prec pr" "length w + length (render_prec pr) \<le> e" "length (render_prec pr) \<le> length u"
  shows "copy_precision e (pst (render_prec pr @ render_len l @ c # r) w u ch) =
    Some (pst (render_len l @ c # r) (w @ render_prec pr) (drop (length (render_prec pr)) u) ch)"
proof (cases pr)
  case P_none
  then show ?thesis using assms by (simp add: copy_precision_def)
next
  case P_star
  then obtain x y u' where "u = x # y # u'" using assms(4)
    by (cases u; cases "tl u") auto
  with P_star show ?thesis using assms by (simp add: copy_precision_def)
next
  case (P_digits ds)
  then obtain x u' where u: "u = x # u'" "length ds \<le> length u'" using assms(4)
    by (cases u) auto
  have "cur (pst (ds @ render_len l @ c # r) w' u'' ch) \<noteq> CHR ''*''" for w' u''
    using assms(1,2) P_digits by (cases ds) (auto simp: is_digit_def)
  with P_digits u show ?thesis
    using assms copy_run_pst [of is_digit ds "render_len l @ c # r" "w @ [CHR ''.'']" e u' ch]
    by (simp add: copy_precision_def)
qed

lemma length_stage:
  assumes "conv_char c" "length w + length (render_len (solaris_len l)) < e"
    "length (render_len (solaris_len l)) < length u"
  shows "convert_length e (pst (render_len l @ c # r) w u ch) =
    Some (pst (c # r) (w @ render_len (solaris_len l)) (drop (length (render_len (solaris_len l))) u)
      (ch \<or> solaris_len l \<noteq> l))"
proof -
  have run: "copy_run e is_lenmod (pst (render_len l @ c # r) w u ch) =
      Some (pst (c # r) (w @ render_len l) (drop (length (render_len l)) u) ch)"
    if "list_all is_lenmod (render_len l)" "solaris_len l = l"
    using that assms copy_run_pst [of is_lenmod "render_len l" "c # r" w e u ch] by simp
  obtain x u' where u: "u = x # u'" using assms(3) by (cases u) auto
  show ?thesis
  proof (cases l)
    case L_j
    then obtain y v where "u' = y # v" using assms(3) u by (cases u') auto
    with L_j u show ?thesis using assms by (simp add: convert_length_def)
  qed (use assms u run in \<open>simp_all add: convert_length_def\<close>)
qed

text \<open>One pass of the loop rewrites exactly one piece.\<close>

lemma fmt_step_piece:
  assumes "wf_piece pc" and "length w + length (render (solaris_piece pc)) \<le> e" and "e < length w + length u"
  shows "fmt_step e (pst (render pc @ r) w u ch) =
    Some (False, pst r (w @ render (solaris_piece pc)) (drop (length (render (solaris_piece pc))) u)
      (ch \<or> solaris_piece pc \<noteq> pc))"
proof (cases pc)
  case (Lit c)
  then show ?thesis using assms by (cases u) (auto simp: fmt_step_def)
next
  case Percent
  then obtain x y u' where "u = x # y # u'" using assms by (cases u; cases "tl u") auto
  with Percent show ?thesis using assms by (simp add: fmt_step_def)
next
  case (Directive fl wd pr l c)
  then have wf: "list_all is_flag fl" "wf_width wd" "wf_prec pr" "conv_char c" using assms(1) by auto
  let ?l = "render_len (solaris_len l)"
  have room: "Suc (length w) + length fl + length (render_width wd) + length (render_prec pr) + length ?l < e"
    using assms(2) Directive by simp
  obtain x u' where u: "u = x # u'" using assms(2,3) Directive by (cases u) auto
  let ?s = "fl @ render_width wd @ render_prec pr @ render_len l @ c # r"
  let ?w1 = "w @ [CHR ''%''] @ fl" and ?u1 = "drop (length fl) u'"
  let ?w2 = "?w1 @ render_width wd" and ?u2 = "drop (length (render_width wd)) ?u1"
  let ?w3 = "?w2 @ render_prec pr" and ?u3 = "drop (length (render_prec pr)) ?u2"
  have ul: "length u' + length w \<ge> e" using u assms(3) by simp
  have s1: "copy_run e is_flag (pst ?s (w @ [CHR ''%'']) u' ch) =
      Some (pst (render_width wd @ render_prec pr @ render_len l @ c # r) ?w1 ?u1 ch)"
    using copy_run_pst [of is_flag fl _ "w @ [CHR ''%'']" e u' ch] wf room ul by simp
  have s2: "copy_width e (pst (render_width wd @ render_prec pr @ render_len l @ c # r) ?w1 ?u1 ch) =
      Some (pst (render_prec pr @ render_len l @ c # r) ?w2 ?u2 ch)"
    by (rule width_stage) (use wf room ul in auto)
  have s3: "copy_precision e (pst (render_prec pr @ render_len l @ c # r) ?w2 ?u2 ch) =
      Some (pst (render_len l @ c # r) ?w3 ?u3 ch)"
    by (rule prec_stage) (use wf room ul in auto)
  have s4: "convert_length e (pst (render_len l @ c # r) ?w3 ?u3 ch) =
      Some (pst (c # r) (?w3 @ ?l) (drop (length ?l) ?u3) (ch \<or> solaris_len l \<noteq> l))"
    by (rule length_stage) (use wf room ul in auto)
  obtain y v where v: "drop (length ?l) ?u3 = y # v"
    using room ul by (cases "drop (length ?l) ?u3") auto
  then have vd: "v = drop (Suc (length fl + length (render_width wd) + length (render_prec pr) + length ?l)) u'"
    by (metis drop_Suc drop_drop list.sel(3) tl_drop add.commute)
  have first: "?s \<noteq> []" "cur (pst ?s (w @ [CHR ''%'']) u' ch) \<noteq> CHR ''%''"
    using hd_directive [OF wf(4,2,1), of pr l r] by (cases ?s; simp)+
  show ?thesis
    using Directive u first room s1 s2 s3 s4 v vd
    by (simp add: fmt_step_def copy_conversion_def ac_simps)
qed

lemma fmt_loop_pieces:
  assumes "list_all wf_piece pcs"
    and "length w + length (concat (map (render \<circ> solaris_piece) pcs)) \<le> e" and "e < length w + length u"
  shows "fmt_loop e (pst (concat (map render pcs)) w u ch) =
    Some (pst [] (w @ concat (map (render \<circ> solaris_piece) pcs))
      (drop (length (concat (map (render \<circ> solaris_piece) pcs))) u)
      (ch \<or> map solaris_piece pcs \<noteq> pcs))"
  using assms
proof (induction pcs arbitrary: w u ch)
  case Nil
  then show ?case by (simp add: fmt_loop.simps)
next
  case (Cons pc pcs)
  let ?o = "render (solaris_piece pc)"
  have ne: "render pc \<noteq> []" "?o \<noteq> []" by (cases pc; simp)+
  then have go: "length w < e" using Cons.prems(2) by (cases ?o) auto
  have "fmt_step e (pst (render pc @ concat (map render pcs)) w u ch) =
      Some (False, pst (concat (map render pcs)) (w @ ?o) (drop (length ?o) u) (ch \<or> solaris_piece pc \<noteq> pc))"
    by (rule fmt_step_piece) (use Cons.prems in auto)
  moreover have "fmt_loop e (pst (concat (map render pcs)) (w @ ?o) (drop (length ?o) u) (ch \<or> solaris_piece pc \<noteq> pc)) =
    Some (pst [] ((w @ ?o) @ concat (map (render \<circ> solaris_piece) pcs))
      (drop (length (concat (map (render \<circ> solaris_piece) pcs))) (drop (length ?o) u))
      ((ch \<or> solaris_piece pc \<noteq> pc) \<or> map solaris_piece pcs \<noteq> pcs))"
    by (rule Cons.IH) (use Cons.prems in auto)
  ultimately show ?case using go ne
    by (subst fmt_loop.simps) (auto simp: add.commute)
qed

lemma wf_cstr_render: "wf_piece pc \<Longrightarrow> wf_cstr (render pc)"
proof (cases pc)
  case (Directive fl wd pr l c)
  assume "wf_piece pc"
  moreover have "wf_cstr (render_len l)" by (cases l) auto
  moreover have "wf_cstr ds" if "list_all is_digit ds" for ds
    using that by (induction ds) (auto simp: is_digit_def)
  moreover have "wf_cstr fl" if "list_all is_flag fl"
    using that by (induction fl) (auto simp: is_flag_def)
  ultimately show ?thesis using Directive by (cases wd; cases pr) auto
qed auto

lemma wf_solaris_piece: "wf_piece pc \<Longrightarrow> wf_piece (solaris_piece pc)"
  by (cases pc) auto

text \<open>No byte is written outside the output object when it has twice the room of the format.\<close>

definition pinv :: "nat \<Rightarrow> pstate \<Rightarrow> bool" where
  "pinv n p \<longleftrightarrow> length (ps_out p) = n \<and> ps_d p + 2 * length (ps_s p) < n"

lemma put_pinv:
  assumes "length (ps_out p) = n" and "ps_d p + 1 + 2 * length s < n"
  obtains p' where "put c p = Some p'" "pinv n (p'\<lparr>ps_s := s\<rparr>)" "ps_s p' = ps_s p" "ps_d p' = ps_d p + 1"
    "length (ps_out p') = n"
  using assms by (auto simp: put_def wr_def pinv_def)

lemma pinv_copy1:
  assumes "pinv n p" and "ps_s p \<noteq> []"
  shows "\<exists>p'. copy1 p = Some p' \<and> pinv n p'"
  using assms by (cases "ps_s p") (auto simp: copy1_def put_def wr_def pinv_def advance_def cur_def)

lemma pinv_copy_while:
  "length (ps_out p) = n \<Longrightarrow> ps_d p + 2 * length s < n \<Longrightarrow> \<exists>p'. copy_while e P s p = Some p' \<and> pinv n p'"
proof (induction e P s p rule: copy_while.induct)
  case (2 e P c s p)
  show ?case
  proof (cases "ps_d p < e \<and> P c")
    case True
    obtain p' where "put c p = Some p'" "ps_d p' = ps_d p + 1" "length (ps_out p') = n"
      using "2.prems" by (auto simp: put_def wr_def)
    with "2.IH" [OF True this(1)] "2.prems" True show ?thesis by simp
  qed (use "2.prems" in \<open>auto simp: pinv_def\<close>)
qed (auto simp: pinv_def)

lemma pinv_copy_run: "pinv n p \<Longrightarrow> \<exists>p'. copy_run e P p = Some p' \<and> pinv n p'"
  using pinv_copy_while [of p n "ps_s p"] by (simp add: copy_run_def pinv_def)

lemma cur_nonempty: "cur p \<noteq> NUL \<Longrightarrow> ps_s p \<noteq> []"
  by (auto simp: cur_def)

lemma pinv_copy_width: "pinv n p \<Longrightarrow> \<exists>p'. copy_width e p = Some p' \<and> pinv n p'"
  using pinv_copy1 [of n p] pinv_copy_run [of n p] cur_nonempty [of p] by (auto simp: copy_width_def)

lemma pinv_copy_precision: "pinv n p \<Longrightarrow> \<exists>p'. copy_precision e p = Some p' \<and> pinv n p'"
proof -
  assume p: "pinv n p"
  show ?thesis
  proof (cases "cur p = CHR ''.'' \<and> ps_d p < e")
    case True
    then obtain q where q: "copy1 p = Some q" "pinv n q"
      using pinv_copy1 [OF p] cur_nonempty [of p] by auto
    then show ?thesis using True pinv_copy1 [OF q(2)] pinv_copy_run [OF q(2)] cur_nonempty [of q]
      by (auto simp: copy_precision_def)
  qed (use p in \<open>auto simp: copy_precision_def\<close>)
qed

lemma pinv_convert_length: "pinv n p \<Longrightarrow> \<exists>p'. convert_length e p = Some p' \<and> pinv n p'"
proof -
  assume p: "pinv n p"
  have adv: "pinv n ((advance 1 p)\<lparr>ps_changed := True\<rparr>)" using p by (auto simp: pinv_def advance_def)
  show ?thesis
  proof (cases "ps_s p")
    case Nil
    then show ?thesis using pinv_copy_run [OF p] by (simp add: convert_length_def cur_def)
  next
    case (Cons c s)
    then show ?thesis using p adv pinv_copy_run [OF p, of e is_lenmod]
      by (cases s) (auto simp: convert_length_def cur_def put_def wr_def pinv_def advance_def)
  qed
qed

lemma pinv_copy_conversion: "pinv n p \<Longrightarrow> \<exists>p'. copy_conversion e p = Some p' \<and> pinv n p'"
  using pinv_copy1 [of n p] by (auto simp: copy_conversion_def)

lemma pinv_fmt_step:
  assumes "pinv n p" and "ps_s p \<noteq> []"
  shows "\<exists>b p'. fmt_step e p = Some (b, p') \<and> pinv n p'"
proof -
  obtain q where q: "copy1 p = Some q" "pinv n q" using pinv_copy1 [OF assms] by blast
  obtain p1 where p1: "copy_run e is_flag q = Some p1" "pinv n p1" using pinv_copy_run [OF q(2)] by blast
  obtain p2 where p2: "copy_width e p1 = Some p2" "pinv n p2" using pinv_copy_width [OF p1(2)] by blast
  obtain p3 where p3: "copy_precision e p2 = Some p3" "pinv n p3" using pinv_copy_precision [OF p2(2)] by blast
  obtain p4 where p4: "convert_length e p3 = Some p4" "pinv n p4" using pinv_convert_length [OF p3(2)] by blast
  obtain p5 where p5: "copy_conversion e p4 = Some p5" "pinv n p5" using pinv_copy_conversion [OF p4(2)] by blast
  show ?thesis using q p1 p2 p3 p4 p5 pinv_copy1 [OF q(2)]
    by (cases "ps_s q = []") (auto simp: fmt_step_def)
qed

lemma pinv_fmt_loop: "pinv n p \<Longrightarrow> \<exists>p'. fmt_loop e p = Some p' \<and> pinv n p'"
proof (induction e p rule: fmt_loop.induct)
  case (1 e p)
  show ?case
  proof (cases "ps_s p \<noteq> [] \<and> ps_d p < e")
    case True
    then obtain b q where q: "fmt_step e p = Some (b, q)" "pinv n q"
      using pinv_fmt_step [OF "1.prems"] by blast
    then show ?thesis using True "1.IH" [OF True q(1) refl]
      by (cases b) (auto simp: fmt_loop.simps [of e p])
  qed (use "1.prems" in \<open>auto simp: fmt_loop.simps [of e p]\<close>)
qed

section \<open>Bounded output\<close>

text \<open>The request is always honoured with at least the size asked for.\<close>

definition wf_usable :: "(nat \<Rightarrow> nat ptr) \<Rightarrow> bool" where
  "wf_usable usable \<longleftrightarrow> (\<forall>n c. usable n = Ptr c \<longrightarrow> n \<le> c)"

lemma vsprintf_into_eq:
  "vsprintf_into (replicate cap NUL) text =
     (if length text < cap then Some (text @ NUL # replicate (cap - Suc (length text)) NUL) else None)"
  by (auto simp: vsprintf_into_def memcpy_def)

lemma grow_loop_fits:
  assumes "wf_usable usable" "usable n = Ptr cap" "length text < n"
  shows "grow_loop usable (Some text) n = Some (Inr (length text, text @ NUL # replicate (cap - Suc (length text)) NUL))"
proof -
  have "length text < cap" using assms by (auto simp: wf_usable_def dest: less_le_trans)
  with assms show ?thesis by (simp add: grow_loop.simps [of usable] vsprintf_into_eq Let_def)
qed

lemma bounded_store:
  assumes "0 < siz" and "siz \<le> length b"
  shows "(if length text < siz then map_option Ptr (memcpy b 0 (text @ NUL # rest) 0 (length text + 1))
          else map_option Ptr (do { b \<leftarrow> memcpy b 0 (text @ NUL # rest) 0 (siz - 1); wr b (siz - 1) NUL })) =
    Some (Ptr (bounded_result b text siz))"
proof (cases "length text < siz")
  case True
  then have "min (length text) (siz - 1) = length text" "take (siz - 1) text = text" by auto
  with True assms show ?thesis by (simp add: memcpy_Some bounded_result_def)
next
  case False
  then have "min (length text) (siz - 1) = siz - 1" "siz - 1 \<le> length (text @ NUL # rest)" "siz - 1 < length b"
    using assms by auto
  moreover have "take (siz - 1) (text @ NUL # rest) = take (siz - 1) text" using False by simp
  ultimately show ?thesis
    using False assms wr_after_memcpy [of "siz - 1" b "text @ NUL # rest" NUL] by (simp add: bounded_result_def)
qed

text \<open>What the caller's object holds afterwards: nothing is stored for a null destination or size 0.\<close>

definition stored :: "cbuf ptr \<Rightarrow> string \<Rightarrow> nat \<Rightarrow> cbuf ptr" where
  "stored str text siz = (case str of NULL \<Rightarrow> NULL | Ptr b \<Rightarrow> Ptr (if siz = 0 then b else bounded_result b text siz))"

definition fits_in :: "nat \<Rightarrow> cbuf ptr \<Rightarrow> bool" where
  "fits_in siz str \<longleftrightarrow> (case str of NULL \<Rightarrow> True | Ptr b \<Rightarrow> siz \<le> length b)"

lemma vsnprintf_stores:
  assumes "preprocess_fmt fmt fmt_buf 2048 = Some f" and "vsprintf f ap = Some text"
    and "grow_loop usable (Some text) STACK_BUF_SIZE = Some (Inr (length text, text @ NUL # rest))" and "fits_in siz str"
  shows "solcompat_vsnprintf usable vsprintf fmt_buf str siz fmt ap =
    Some \<lparr>vr_ret = int (length text), vr_errno = None, vr_str = stored str text siz\<rparr>"
  using assms bounded_store [of siz _ "text" rest]
  by (cases str) (auto simp: solcompat_vsnprintf_def stored_def fits_in_def)

lemma vsnprintf_fits:
  assumes "preprocess_fmt fmt fmt_buf 2048 = Some f" and "vsprintf f ap = Some text"
    and "wf_usable usable" "usable STACK_BUF_SIZE = Ptr cap" "length text < STACK_BUF_SIZE" and "fits_in siz str"
  shows "solcompat_vsnprintf usable vsprintf fmt_buf str siz fmt ap =
    Some \<lparr>vr_ret = int (length text), vr_errno = None, vr_str = stored str text siz\<rparr>"
  using assms(1,2) grow_loop_fits [OF assms(3,4,5)] assms(6) by (rule vsnprintf_stores)

lemma vsnprintf_bounded:
  assumes "preprocess_fmt fmt fmt_buf 2048 = Some f" and "vsprintf f ap = Some text"
    and "wf_usable usable" "usable STACK_BUF_SIZE = Ptr cap" "length text < STACK_BUF_SIZE"
    and "0 < siz" "siz \<le> length b"
  shows "solcompat_vsnprintf usable vsprintf fmt_buf (Ptr b) siz fmt ap =
    Some \<lparr>vr_ret = int (length text), vr_errno = None, vr_str = Ptr (bounded_result b text siz)\<rparr>"
proof -
  have "fits_in siz (Ptr b)" using assms(7) by (simp add: fits_in_def)
  with assms(1-5) have "solcompat_vsnprintf usable vsprintf fmt_buf (Ptr b) siz fmt ap =
      Some \<lparr>vr_ret = int (length text), vr_errno = None, vr_str = stored (Ptr b) text siz\<rparr>" by (rule vsnprintf_fits)
  then show ?thesis using assms(6) by (simp add: stored_def)
qed

text \<open>Formatting \<open>"%s"\<close>: the argument is the text, so \<open>snprintf\<close> is a bounded writer too.\<close>

definition text_vsprintf :: "string \<Rightarrow> string \<Rightarrow> string option" where
  "text_vsprintf fmt text = Some text"

definition snprintf_s :: "cbuf \<Rightarrow> string \<Rightarrow> nat \<Rightarrow> (nat \<times> cbuf) option" where
  "snprintf_s dst s siz =
     (case solcompat_snprintf Ptr text_vsprintf (replicate 2048 NUL) (Ptr dst) siz ''%s'' s of
        Some r \<Rightarrow> (case vr_str r of Ptr b \<Rightarrow> Some (nat (vr_ret r), b) | NULL \<Rightarrow> None)
      | None \<Rightarrow> None)"

lemma preprocess_fmt_pieces:
  assumes "list_all wf_piece pcs" and "length out = outsize"
    and "length (concat (map (render \<circ> solaris_piece) pcs)) < outsize"
  shows "preprocess_fmt (concat (map render pcs)) out outsize =
    Some (concat (map (render \<circ> solaris_piece) pcs))"
proof -
  let ?r = "concat (map (render \<circ> solaris_piece) pcs)"
  have "wf_cstr ?r"
    using assms(1) by (induction pcs) (auto simp: wf_cstr_render wf_solaris_piece)
  moreover have "fmt_loop (outsize - 1) (pst (concat (map render pcs)) [] out False) =
    Some (pst [] ?r (drop (length ?r) out) (map solaris_piece pcs \<noteq> pcs))"
    using fmt_loop_pieces [OF assms(1), of "[]" "outsize - 1" out False] assms(2,3) by simp
  moreover obtain x u where "drop (length ?r) out = x # u"
    using assms(2,3) by (cases "drop (length ?r) out") auto
  moreover have "?r = concat (map render pcs)" if "map solaris_piece pcs = pcs"
    by (metis that map_map)
  ultimately show ?thesis
    by (auto simp: preprocess_fmt_def pst_def wr_append cstr_append_NUL)
qed

lemma fmt_loop_literals:
  "length w + k \<le> e \<Longrightarrow> k \<le> length u \<Longrightarrow>
   fmt_loop e (pst (replicate k CHR ''a'' @ s) w u False) =
   fmt_loop e (pst s (w @ replicate k CHR ''a'') (drop k u) False)"
proof (induction k arbitrary: w u)
  case (Suc k)
  then obtain x u' where u: "u = x # u'" by (cases u) auto
  have "fmt_loop e (pst (CHR ''a'' # replicate k CHR ''a'' @ s) w (x # u') False) =
      fmt_loop e (pst (replicate k CHR ''a'' @ s) (w @ ''a'') u' False)"
    using Suc.prems by (subst fmt_loop.simps) (simp add: fmt_step_def)
  with Suc.IH [of "w @ ''a''" u'] Suc.prems show ?case by (simp add: u)
qed simp

interpretation snp: bounded_writer snprintf_s
proof unfold_locales
  fix s dst :: string and siz :: nat
  assume "length s < 8192" "0 < siz" "siz \<le> length dst"
  moreover have "preprocess_fmt ''%s'' (replicate 2048 NUL) 2048 = Some ''%s''"
    using preprocess_fmt_pieces [of "[Directive [] W_none P_none L_none CHR ''s'']" "replicate 2048 NUL" 2048]
    by (simp add: conv_char_def)
  ultimately have "solcompat_vsnprintf Ptr text_vsprintf (replicate 2048 NUL) (Ptr dst) siz ''%s'' s =
      Some \<lparr>vr_ret = int (length s), vr_errno = None, vr_str = Ptr (bounded_result dst s siz)\<rparr>"
    by (intro vsnprintf_bounded) (auto simp: text_vsprintf_def wf_usable_def STACK_BUF_SIZE_def)
  then show "snprintf_s dst s siz = Some (length s, bounded_result dst s siz)"
    by (simp add: snprintf_s_def solcompat_snprintf_def)
qed

section \<open>Properties\<close>

text \<open>
  C22. On every well-formed format whose rewriting fits the output object, \<open>preprocess_fmt\<close> yields
  exactly the format in which each C99 length modifier is replaced (\<open>z\<close>, \<open>t\<close> dropped, \<open>j\<close> by
  \<open>ll\<close>, \<open>hh\<close> by \<open>h\<close>) and everything else, literals, flags, widths, precisions and conversions, is
  kept.
\<close>

theorem preprocess_fmt_rewrites:
  assumes "list_all wf_piece pcs" and "length out = outsize"
    and "length (concat (map (render \<circ> solaris_piece) pcs)) < outsize"
  shows "preprocess_fmt (concat (map render pcs)) out outsize =
    Some (concat (map (render \<circ> solaris_piece) pcs))"
  using preprocess_fmt_pieces [OF assms] .

theorem preprocess_fmt_rewrites_witness:
  "preprocess_fmt ''n=%-5zu %% %.3jd %hhx'' (replicate 32 NUL) 32 = Some ''n=%-5u %% %.3lld %hx''"
  using preprocess_fmt_rewrites [of "[Lit CHR ''n'', Lit CHR ''='', Directive ''-'' (W_digits ''5'') P_none L_z CHR ''u'',
      Lit CHR '' '', Percent, Lit CHR '' '', Directive [] W_none (P_digits ''3'') L_j CHR ''d'', Lit CHR '' '',
      Directive [] W_none P_none L_hh CHR ''x'']" "replicate 32 NUL" 32]
  by (simp add: char_classes)

text \<open>
  For every format string, well formed or not, of fewer than half as many characters as the
  output object has bytes, \<open>preprocess_fmt\<close> stays inside the object and returns.
\<close>

lemma preprocess_fmt_safe:
  assumes "length out = outsize" and "2 * length fmt < outsize"
  shows "\<exists>f. preprocess_fmt fmt out outsize = Some f"
proof -
  let ?p = "\<lparr>ps_s = fmt, ps_out = out, ps_d = 0, ps_changed = False\<rparr>"
  have "pinv outsize ?p" using assms by (simp add: pinv_def)
  then obtain q where "fmt_loop (outsize - 1) ?p = Some q" "pinv outsize q"
    using pinv_fmt_loop by blast
  then show ?thesis by (simp add: preprocess_fmt_def wr_def pinv_def)
qed

theorem preprocess_fmt_safe_witness:
  "\<exists>f. preprocess_fmt ''100%j'' (replicate 12 NUL) 12 = Some f"
  using preprocess_fmt_safe [of "replicate 12 NUL" 12 "''100%j''"] by simp

text \<open>
  \<open>preprocess_fmt\<close> writes outside its output object for some longer formats: a starred width is
  copied without comparing the write pointer with the end, so a format in which the flags of
  a directive end exactly at the last byte makes the final terminator land one byte past the
  object, whatever the object's size.
\<close>

lemma preprocess_fmt_overflow:
  assumes "length out = n + 3"
  shows "preprocess_fmt (replicate n CHR ''a'' @ ''%-*d'') out (n + 3) = None"
proof -
  obtain a b c where d: "drop n out = [a, b, c]"
  proof -
    have "length (drop n out) = Suc (Suc (Suc 0))" using assms by simp
    then show ?thesis using that unfolding length_Suc_conv length_0_conv by blast
  qed
  have stop: "fmt_loop (n + 2) (pst ''d'' (replicate n CHR ''a'' @ ''%-*'') [] False) =
      Some (pst ''d'' (replicate n CHR ''a'' @ ''%-*'') [] False)"
    by (subst fmt_loop.simps) (simp add: pst_def)
  have "fmt_loop (n + 2) (pst ''%-*d'' (replicate n CHR ''a'') (drop n out) False) =
      Some (pst ''d'' (replicate n CHR ''a'' @ ''%-*'') [] False)"
    unfolding d
    by (subst fmt_loop.simps)
      (simp add: fmt_step_def copy_run_def is_flag_def copy_width_def copy_precision_def convert_length_def
        copy_conversion_def is_lenmod_def stop [simplified])
  then have "fmt_loop (n + 2) (pst (replicate n CHR ''a'' @ ''%-*d'') [] out False) =
      Some (pst ''d'' (replicate n CHR ''a'' @ ''%-*'') [] False)"
    using fmt_loop_literals [of "[]" n "n + 2" out "''%-*d''"] assms by simp
  then show ?thesis
    by (simp add: preprocess_fmt_def pst_def wr_def)
qed

theorem preprocess_fmt_overflow_witness:
  "preprocess_fmt (replicate 2045 CHR ''a'' @ ''%-*d'') (replicate 2048 NUL) (2045 + 3) = None"
  using preprocess_fmt_overflow [of "replicate 2048 NUL" 2045] by simp

text \<open>
  C25. The C99 contract of \<open>vsnprintf\<close>, for outputs shorter than the 8192-byte work buffer: it returns
  the full length of the formatted text, stores at most \<open>siz\<close> bytes, always terminated; with a null
  destination or size 0 it writes nothing and returns the same length, so measuring first and
  formatting second agree.
\<close>

theorem vsnprintf_c99:
  assumes "preprocess_fmt fmt fmt_buf 2048 = Some f" and "vsprintf f ap = Some text"
    and "wf_usable usable" and "usable STACK_BUF_SIZE = Ptr cap" and "length text < STACK_BUF_SIZE"
    and "siz \<le> length b"
  shows "solcompat_vsnprintf usable vsprintf fmt_buf (Ptr b) siz fmt ap =
      Some \<lparr>vr_ret = int (length text), vr_errno = None,
            vr_str = Ptr (if siz = 0 then b else bounded_result b text siz)\<rparr>
    \<and> (\<forall>n. solcompat_vsnprintf usable vsprintf fmt_buf NULL n fmt ap =
      Some \<lparr>vr_ret = int (length text), vr_errno = None, vr_str = NULL\<rparr>)"
proof -
  have "solcompat_vsnprintf usable vsprintf fmt_buf str n fmt ap =
      Some \<lparr>vr_ret = int (length text), vr_errno = None, vr_str = stored str text n\<rparr>" if "fits_in n str" for str n
    using assms(1-5) that by (rule vsnprintf_fits)
  from this [of siz "Ptr b"] this [of _ NULL] show ?thesis using assms(6) by (simp add: fits_in_def stored_def)
qed

theorem vsnprintf_c99_witness:
  "solcompat_vsnprintf Ptr text_vsprintf (replicate 2048 NUL) (Ptr ''....'') 3 ''hi'' ''hello'' =
     Some \<lparr>vr_ret = 5, vr_errno = None, vr_str = Ptr (''he'' @ NUL # ''.'')\<rparr>"
proof -
  have "preprocess_fmt ''hi'' (replicate 2048 NUL) 2048 = Some ''hi''"
    using preprocess_fmt_pieces [of "[Lit CHR ''h'', Lit CHR ''i'']" "replicate 2048 NUL" 2048] by simp
  from vsnprintf_c99 [OF this, of text_vsprintf "''hello''" "''hello''" Ptr 8192 3 "''....''"]
  show ?thesis
    by (simp add: text_vsprintf_def wf_usable_def STACK_BUF_SIZE_def bounded_result_def numeral_eq_Suc)
qed

text \<open>
  C39. \<open>vsprintf\<close> is unbounded, and the growing loop cannot make up for it. When the object behind the first
  8192-byte request has \<open>cap\<close> bytes, fewer than twice the request, formatting a text of \<open>cap\<close> or more characters
  leaves the object and nothing else does; a second attempt is made only for a text that does not fit the request but
  fits what \<open>malloc\<close> gave beyond it, and there is never a third. With an allocator that gives what is asked
  for the loop is dead code.
\<close>

theorem vsnprintf_heap_overflow:
  assumes "preprocess_fmt fmt fmt_buf 2048 = Some f" and "vsprintf f ap = Some text"
    and "wf_usable usable" and "usable STACK_BUF_SIZE = Ptr cap" and "cap \<le> 2 * STACK_BUF_SIZE" and "fits_in siz str"
  shows "(solcompat_vsnprintf usable vsprintf fmt_buf str siz fmt ap = None \<longleftrightarrow> cap \<le> length text)
    \<and> (STACK_BUF_SIZE \<le> length text \<and> length text < cap \<longrightarrow>
        solcompat_vsnprintf usable vsprintf fmt_buf str siz fmt ap = Some (case usable (2 * STACK_BUF_SIZE) of
          NULL \<Rightarrow> \<lparr>vr_ret = -1, vr_errno = Some ENOMEM, vr_str = str\<rparr>
        | Ptr _ \<Rightarrow> \<lparr>vr_ret = int (length text), vr_errno = None, vr_str = stored str text siz\<rparr>))"
proof -
  let ?r = "solcompat_vsnprintf usable vsprintf fmt_buf str siz fmt ap"
  consider "length text < STACK_BUF_SIZE" | "STACK_BUF_SIZE \<le> length text" "length text < cap" | "cap \<le> length text"
    by linarith
  then show ?thesis
  proof cases
    case 1
    have "STACK_BUF_SIZE \<le> cap" using assms(3,4) by (simp add: wf_usable_def)
    moreover have "?r \<noteq> None" using vsnprintf_fits [of fmt fmt_buf f vsprintf ap "text" usable cap siz str] 1 assms by simp
    ultimately show ?thesis using 1 by simp
  next
    case 2
    then have again: "grow_loop usable (Some text) STACK_BUF_SIZE = grow_loop usable (Some text) (2 * STACK_BUF_SIZE)"
      using assms(4) by (subst grow_loop.simps) (simp add: vsprintf_into_eq STACK_BUF_SIZE_def Let_def)
    have "?r = Some (case usable (2 * STACK_BUF_SIZE) of
        NULL \<Rightarrow> \<lparr>vr_ret = -1, vr_errno = Some ENOMEM, vr_str = str\<rparr>
      | Ptr _ \<Rightarrow> \<lparr>vr_ret = int (length text), vr_errno = None, vr_str = stored str text siz\<rparr>)"
    proof (cases "usable (2 * STACK_BUF_SIZE)")
      case NULL
      then have "grow_loop usable (Some text) STACK_BUF_SIZE = Some (Inl (Some ENOMEM))"
        unfolding again by (subst grow_loop.simps) simp
      then show ?thesis using assms(1,2) NULL by (simp add: solcompat_vsnprintf_def)
    next
      case (Ptr c)
      have "length text < 2 * STACK_BUF_SIZE" using 2(2) assms(5) by linarith
      from grow_loop_fits [OF assms(3) Ptr this] show ?thesis
        using vsnprintf_stores [of fmt fmt_buf f vsprintf ap "text" usable _ siz str] Ptr assms(1,2,6) by (simp add: again)
    qed
    with 2 show ?thesis by simp
  next
    case 3
    then have "grow_loop usable (Some text) STACK_BUF_SIZE = None"
      using assms(4) by (subst grow_loop.simps) (simp add: vsprintf_into_eq)
    then show ?thesis using 3 assms(1,2) by (simp add: solcompat_vsnprintf_def)
  qed
qed

theorem vsnprintf_heap_overflow_witness:
  "solcompat_vsnprintf Ptr text_vsprintf (replicate 2048 NUL) NULL 0 ''hi'' (replicate 8192 CHR ''x'') = None
   \<and> solcompat_vsnprintf Ptr text_vsprintf (replicate 2048 NUL) NULL 0 ''hi'' (replicate 8191 CHR ''x'') \<noteq> None"
proof -
  have p: "preprocess_fmt ''hi'' (replicate 2048 NUL) 2048 = Some ''hi''"
    using preprocess_fmt_pieces [of "[Lit CHR ''h'', Lit CHR ''i'']" "replicate 2048 NUL" 2048] by simp
  have "solcompat_vsnprintf Ptr text_vsprintf (replicate 2048 NUL) NULL 0 ''hi'' t = None \<longleftrightarrow> 8192 \<le> length t" for t
    using vsnprintf_heap_overflow [OF p, of text_vsprintf t t Ptr 8192 0 NULL]
    by (simp add: text_vsprintf_def STACK_BUF_SIZE_def wf_usable_def fits_in_def)
  then show ?thesis by simp
qed

end
