(* ===== verification/Inet.thy ===== *)
theory Inet
  imports Snprintf
begin

text \<open>
  Textual addresses, \<open>inet_ntop\<close> and \<open>inet_pton\<close> of \<open>src/src/network.c\<close>.

  An address is the list of its bytes in network order. \<open>inet_ntop\<close> prints through the library's
  own \<open>solcompat_snprintf\<close> (theory \<open>Snprintf\<close>); of the C library's \<open>vsprintf\<close> the formats that
  these functions use are modelled. The 46-byte scratch array \<open>tmp\<close> is an object with checked
  accesses and \<open>tp\<close> an integer offset, because the code adds the result of \<open>snprintf\<close> to it
  unchecked. \<open>inet_aton\<close> belongs to the operating system and is a parameter.
\<close>

unbundle bit_operations_syntax

section \<open>Numbers as text\<close>

definition hex_digit :: "nat \<Rightarrow> char" where
  "hex_digit n = ''0123456789abcdef'' ! n"

fun hex_of :: "nat \<Rightarrow> string" where
  "hex_of n = (if n < 16 then [hex_digit n] else hex_of (n div 16) @ [hex_digit (n mod 16)])"

fun dec_of :: "nat \<Rightarrow> string" where
  "dec_of n = (if n < 10 then [hex_digit n] else dec_of (n div 10) @ [hex_digit (n mod 10)])"

declare hex_of.simps [simp del] dec_of.simps [simp del]

text \<open>\<open>isxdigit\<close> and the value of a hexadecimal digit.\<close>

definition isxdigit :: "char \<Rightarrow> bool" where
  "isxdigit c \<longleftrightarrow> c \<in> set ''0123456789abcdefABCDEF''"

definition xdigit_val :: "char \<Rightarrow> nat" where
  "xdigit_val c =
     (let n = of_char c in if n \<le> 57 then n - 48 else if n \<le> 70 then n - 55 else n - 87)"

definition hexval :: "string \<Rightarrow> nat" where
  "hexval = foldl (\<lambda>a c. 16 * a + xdigit_val c) 0"

text \<open>
  \<open>strtoul(p, &endptr, 16)\<close> on a string that starts with a hexadecimal digit: an optional
  \<open>0x\<close> before further digits is skipped, the value saturates at \<open>ULONG_MAX\<close>.
\<close>

definition strtoul16 :: "string \<Rightarrow> nat \<times> string" where
  "strtoul16 p =
     (let q = (case p of
                 a # b # c # r \<Rightarrow> if a = CHR ''0'' \<and> b \<in> {CHR ''x'', CHR ''X''} \<and> isxdigit c then c # r else p
               | _ \<Rightarrow> p)
      in (min (hexval (takeWhile isxdigit q)) (2 ^ 32 - 1), dropWhile isxdigit q))"

definition num_vsprintf :: "string \<Rightarrow> nat list \<Rightarrow> string option" where
  "num_vsprintf fmt args =
     (if fmt = ''%x'' then map_option hex_of (rd args 0)
      else if fmt = ''%d'' then map_option dec_of (rd args 0)
      else if fmt = ''%u.%u.%u.%u'' \<and> length args = 4 then
        Some (dec_of (args ! 0) @ ''.'' @ dec_of (args ! 1) @ ''.'' @ dec_of (args ! 2) @ ''.'' @ dec_of (args ! 3))
      else None)"

definition print_num :: "(nat \<Rightarrow> nat ptr) \<Rightarrow> cbuf \<Rightarrow> cbuf \<Rightarrow> nat \<Rightarrow> string \<Rightarrow> nat list \<Rightarrow> (int \<times> cbuf) option" where
  "print_num usable fmt_buf dst siz fmt args = do {
     r \<leftarrow> solcompat_snprintf usable num_vsprintf fmt_buf (Ptr dst) siz fmt args;
     (case vr_str r of Ptr b \<Rightarrow> Some (vr_ret r, b) | NULL \<Rightarrow> None) }"

section \<open>\<open>inet_ntop\<close>\<close>

definition AF_INET :: int where "AF_INET = 2"
definition AF_INET6 :: int where "AF_INET6 = 26"
definition INET6_ADDRSTRLEN :: nat where "INET6_ADDRSTRLEN = 46"

text \<open>The eight words of a full address; \<open>p\<close> has the sixteen bytes that \<open>AF_INET6\<close> promises.\<close>

definition words_of_bytes :: "u8 list \<Rightarrow> u32 list" where
  "words_of_bytes p = map (\<lambda>i. push_bit 8 (ucast (p ! (i * 2))) OR ucast (p ! (i * 2 + 1))) [0..<8]"

text \<open>The search for the longest run of zero words.\<close>

record zrun =
  best_start :: int
  best_len :: nat
  cur_start :: int
  cur_len :: nat

definition take_best :: "zrun \<Rightarrow> zrun" where
  "take_best z = (if cur_len z > best_len z \<and> cur_len z \<ge> 2
     then z\<lparr>best_start := cur_start z, best_len := cur_len z\<rparr> else z)"

definition zrun_step :: "bool \<Rightarrow> nat \<Rightarrow> zrun \<Rightarrow> zrun" where
  "zrun_step zero i z =
     (if zero then z\<lparr>cur_start := (if cur_start z < 0 then int i else cur_start z), cur_len := cur_len z + 1\<rparr>
      else (take_best z)\<lparr>cur_start := -1, cur_len := 0\<rparr>)"

fun zrun_loop :: "bool list \<Rightarrow> nat \<Rightarrow> zrun \<Rightarrow> zrun" where
  "zrun_loop [] i z = take_best z"
| "zrun_loop (zero # zs) i z = zrun_loop zs (i + 1) (zrun_step zero i z)"

definition best_run :: "u32 list \<Rightarrow> int \<times> nat" where
  "best_run words =
     (let z = zrun_loop (map (\<lambda>w. w = 0) words) 0 \<lparr>best_start = -1, best_len = 0, cur_start = -1, cur_len = 0\<rparr>
      in (best_start z, best_len z))"

text \<open>\<open>*tp++ = c\<close> and \<open>tp += snprintf(tp, sizeof(tmp) - (tp - tmp), "%x", w)\<close>.\<close>

definition put6 :: "char \<Rightarrow> cbuf \<times> int \<Rightarrow> (cbuf \<times> int) option" where
  "put6 c st = (case st of (tmp, tp) \<Rightarrow>
     if 0 \<le> tp then map_option (\<lambda>t. (t, tp + 1)) (wr tmp (nat tp) c) else None)"

definition print6 :: "(nat \<Rightarrow> nat ptr) \<Rightarrow> cbuf \<Rightarrow> u32 \<Rightarrow> cbuf \<times> int \<Rightarrow> (cbuf \<times> int) option" where
  "print6 usable fmt_buf w st = (case st of (tmp, tp) \<Rightarrow>
     if 0 \<le> tp \<and> nat tp \<le> length tmp then do {
       (n, b) \<leftarrow> print_num usable fmt_buf (drop (nat tp) tmp) (INET6_ADDRSTRLEN - nat tp) ''%x'' [unat w];
       Some (take (nat tp) tmp @ b, tp + n) }
     else None)"

function fmt6_loop ::
    "(nat \<Rightarrow> nat ptr) \<Rightarrow> cbuf \<Rightarrow> u32 list \<Rightarrow> int \<Rightarrow> nat \<Rightarrow> nat \<Rightarrow> cbuf \<times> int \<Rightarrow> (cbuf \<times> int) option" where
  "fmt6_loop usable fmt_buf words bs bl i st =
     (if i < 8 then
        if int i = bs then do {
          st \<leftarrow> put6 CHR '':'' st;
          st \<leftarrow> put6 CHR '':'' st;
          fmt6_loop usable fmt_buf words bs bl (i + (bl - 1) + 1) st }
        else do {
          st \<leftarrow> (if i > 0 \<and> \<not> (int i = bs + int bl \<and> bs \<ge> 0) then put6 CHR '':'' st else Some st);
          st \<leftarrow> print6 usable fmt_buf (words ! i) st;
          fmt6_loop usable fmt_buf words bs bl (i + 1) st }
      else Some st)"
  by pat_completeness auto
termination
  by (relation "measure (\<lambda>(_, _, _, _, _, i, _). 8 - i)") auto

declare fmt6_loop.simps [simp del]

text \<open>The result: \<open>Inl\<close> is a null return with \<open>errno\<close>, and the destination afterwards.\<close>

definition inet_ntop ::
    "(nat \<Rightarrow> nat ptr) \<Rightarrow> cbuf \<Rightarrow> cbuf \<Rightarrow> int \<Rightarrow> u8 list \<Rightarrow> cbuf \<Rightarrow> nat \<Rightarrow> ((errno + unit) \<times> cbuf) option" where
  "inet_ntop usable fmt_buf tmp af p dst siz =
     (if af = AF_INET then do {
        (n, b) \<leftarrow> print_num usable fmt_buf dst siz ''%u.%u.%u.%u'' (map unat (take 4 p));
        Some (if n < 0 \<or> n \<ge> int siz then (Inl ENOSPC, b) else (Inr (), b)) }
      else if af = AF_INET6 then do {
        let words = words_of_bytes p;
        let (bs, bl) = best_run words;
        (tmp, tp) \<leftarrow> fmt6_loop usable fmt_buf words bs bl 0 (tmp, 0);
        tmp \<leftarrow> (if 0 \<le> tp then wr tmp (nat tp) NUL else None);
        n \<leftarrow> strlen_at tmp 0;
        if n + 1 > siz then Some (Inl ENOSPC, dst)
        else do {
          b \<leftarrow> memcpy dst 0 tmp 0 (n + 1);
          Some (Inr (), b) } }
      else Some (Inl EAFNOSUPPORT, dst))"

section \<open>\<open>inet_pton\<close>\<close>

text \<open>
  The group loop; \<open>None\<close> is \<open>return 0\<close>. The groups read so far are a list whose length is
  \<open>ngroups\<close>.
\<close>

lemma strtoul16_shorter:
  assumes "p \<noteq> []" "isxdigit (hd p)" "(v, q) = strtoul16 p"
  shows "length q < length p"
proof -
  obtain c r where p: "p = c # r" using assms(1) by (cases p) auto
  have "length (dropWhile isxdigit xs) \<le> length xs" for xs by (rule length_dropWhile_le)
  note this [of r] this [of "tl r"] this [of "tl (tl r)"]
  with assms p show ?thesis
    by (auto simp: strtoul16_def Let_def le_imp_less_Suc split: list.splits if_splits)
qed

function pton_loop :: "string \<Rightarrow> u32 list \<Rightarrow> nat option \<Rightarrow> (string \<times> u32 list \<times> nat option) option" where
  "pton_loop p groups dcolon =
     (if p \<noteq> [] \<and> length groups < 8 then
        if \<not> isxdigit (hd p) then None
        else let (v, q) = strtoul16 p in
          if v > 0xFFFF then None
          else let groups = groups @ [of_nat v] in
            (case q of
               [] \<Rightarrow> pton_loop q groups dcolon
             | c # q' \<Rightarrow>
                 if c = CHR '':'' then
                   (case q' of
                      [] \<Rightarrow> pton_loop q' groups dcolon
                    | c' # q'' \<Rightarrow>
                        if c' = CHR '':'' then
                          (if dcolon \<noteq> None then None
                           else if q'' = [] then Some (q'', groups, Some (length groups))
                           else pton_loop q'' groups (Some (length groups)))
                        else pton_loop q' groups dcolon)
                 else None)
      else Some (p, groups, dcolon))"
  by pat_completeness auto
termination
  by (relation "measure (\<lambda>(p, _, _). length p)") (auto, (drule strtoul16_shorter, assumption, assumption, simp)+)

declare pton_loop.simps [simp del]

text \<open>\<open>for (i = tail - 1; i >= 0; i--) groups[dcolon + fill + i] = groups[dcolon + i];\<close>\<close>

fun shift_loop :: "nat \<Rightarrow> nat \<Rightarrow> nat \<Rightarrow> u32 list \<Rightarrow> u32 list option" where
  "shift_loop 0 dcolon fill groups = Some groups"
| "shift_loop (Suc i) dcolon fill groups = do {
     v \<leftarrow> rd groups (dcolon + i);
     groups \<leftarrow> wr groups (dcolon + fill + i) v;
     shift_loop i dcolon fill groups }"

text \<open>\<open>for (i = 0; i < fill; i++) groups[dcolon + i] = 0;\<close>, counted by the iterations left.\<close>

fun zero_loop :: "nat \<Rightarrow> nat \<Rightarrow> u32 list \<Rightarrow> u32 list option" where
  "zero_loop 0 k groups = Some groups"
| "zero_loop (Suc n) k groups = do { groups \<leftarrow> wr groups k 0; zero_loop n (k + 1) groups }"

definition bytes_of_words :: "u32 list \<Rightarrow> u8 list" where
  "bytes_of_words groups = concat (map (\<lambda>g. [ucast (drop_bit 8 g), ucast (g AND 0xFF)]) groups)"

text \<open>After the loop: expand the double colon, check the count, store the bytes.\<close>

definition pton_finish :: "string \<Rightarrow> u32 list \<Rightarrow> nat option \<Rightarrow> u8 list \<Rightarrow> (int \<times> u8 list) option" where
  "pton_finish p gs dcolon dst =
     (if p \<noteq> [] then Some (0, dst)
      else do {
        let ngroups = length gs;
        let groups = gs @ replicate (8 - ngroups) 0;
        (groups, ngroups) \<leftarrow> (case dcolon of
            None \<Rightarrow> Some (groups, ngroups)
          | Some d \<Rightarrow> do {
              groups \<leftarrow> shift_loop (ngroups - d) d (8 - ngroups) groups;
              groups \<leftarrow> zero_loop (8 - ngroups) d groups;
              Some (groups, 8) });
        if ngroups \<noteq> 8 then Some (0, dst)
        else map_option (Pair 1) (memcpy dst 0 (bytes_of_words groups) 0 16) })"

definition inet_pton ::
    "(string \<Rightarrow> u8 list option) \<Rightarrow> int \<Rightarrow> string \<Rightarrow> u8 list \<Rightarrow> (int \<times> errno option \<times> u8 list) option" where
  "inet_pton inet_aton af src dst =
     (if af = AF_INET then
        (case inet_aton src of
           None \<Rightarrow> Some (0, None, dst)
         | Some addr \<Rightarrow> map_option (\<lambda>d. (1, None, d)) (memcpy dst 0 addr 0 4))
      else if af = AF_INET6 then
        map_option (\<lambda>(r, d). (r, None, d))
          (if take 2 src = ''::'' then
             (if drop 2 src = [] then map_option (Pair 1) (memcpy dst 0 (replicate 16 0) 0 16)
              else case pton_loop (drop 2 src) [] (Some 0) of
                None \<Rightarrow> Some (0, dst)
              | Some (p, gs, d) \<Rightarrow> pton_finish p gs d dst)
           else case pton_loop src [] None of
                None \<Rightarrow> Some (0, dst)
              | Some (p, gs, d) \<Rightarrow> pton_finish p gs d dst)
      else Some (-1, Some EAFNOSUPPORT, dst))"

section \<open>Numbers\<close>

lemma hex_digit_props:
  assumes "n < 16"
  shows "isxdigit (hex_digit n)" "xdigit_val (hex_digit n) = n" "hex_digit n \<noteq> NUL" "hex_digit n \<noteq> CHR '':''"
    "hex_digit n \<notin> {CHR ''x'', CHR ''X''}"
proof -
  have "n \<in> set [0..<16]" using assms by simp
  then have "isxdigit (hex_digit n) \<and> xdigit_val (hex_digit n) = n \<and> hex_digit n \<noteq> NUL \<and> hex_digit n \<noteq> CHR '':''
    \<and> hex_digit n \<notin> {CHR ''x'', CHR ''X''}"
    by (simp add: hex_digit_def isxdigit_def xdigit_val_def Let_def upt_rec) (elim disjE; simp)
  then show "isxdigit (hex_digit n)" "xdigit_val (hex_digit n) = n" "hex_digit n \<noteq> NUL" "hex_digit n \<noteq> CHR '':''"
    "hex_digit n \<notin> {CHR ''x'', CHR ''X''}" by auto
qed

lemma hex_of_digits: "c \<in> set (hex_of n) \<Longrightarrow> \<exists>d < 16. c = hex_digit d"
proof (induction n rule: hex_of.induct)
  case (1 n)
  then show ?case
    by (subst (asm) hex_of.simps) (auto split: if_splits intro: exI [of _ "n mod 16"])
qed

lemma hex_of_nonempty [simp]: "hex_of n \<noteq> []"
  by (subst hex_of.simps) simp

lemma hexval_append: "hexval (a @ [c]) = 16 * hexval a + xdigit_val c"
  by (simp add: hexval_def)

lemma hexval_hex_of: "hexval (hex_of n) = n"
proof (induction n rule: hex_of.induct)
  case (1 n)
  then show ?case
    by (subst hex_of.simps) (auto simp: hexval_append hex_digit_props hexval_def)
qed

lemma length_hex_of: "n < 16 ^ Suc k \<Longrightarrow> length (hex_of n) \<le> Suc k"
proof (induction k arbitrary: n)
  case 0
  then show ?case by (subst hex_of.simps) simp
next
  case (Suc k)
  then have "n div 16 < 16 ^ Suc k" by (simp add: div_less_iff_less_mult mult.commute)
  with Suc.IH show ?case by (subst hex_of.simps) simp
qed

lemma wf_cstr_hex_of [simp]: "wf_cstr (hex_of n)"
  by (metis wf_cstr_def hex_of_digits hex_digit_props(3))

text \<open>Reading back a printed group.\<close>

lemma strtoul16_hex_of:
  assumes "n \<le> 0xFFFF" "r = [] \<or> hd r = CHR '':''"
  shows "strtoul16 (hex_of n @ r) = (n, r)"
proof -
  have xs: "\<And>c. c \<in> set (hex_of n) \<Longrightarrow> isxdigit c \<and> c \<notin> {CHR ''x'', CHR ''X''}"
    using hex_of_digits hex_digit_props by metis
  have r: "takeWhile isxdigit r = []" "dropWhile isxdigit r = r"
    using assms(2) by (cases r; auto simp: isxdigit_def)+
  have "(case hex_of n @ r of
      a # b # c # q \<Rightarrow> if a = CHR ''0'' \<and> b \<in> {CHR ''x'', CHR ''X''} \<and> isxdigit c then c # q else hex_of n @ r
    | _ \<Rightarrow> hex_of n @ r) = hex_of n @ r"
    using xs assms(2) by (cases "hex_of n"; cases "tl (hex_of n)") (auto split: list.splits)
  moreover have "takeWhile isxdigit (hex_of n @ r) = hex_of n" "dropWhile isxdigit (hex_of n @ r) = r"
    using xs r by (simp_all add: takeWhile_append2 dropWhile_append2)
  ultimately show ?thesis using assms(1) by (simp add: strtoul16_def hexval_hex_of)
qed

section \<open>Printing\<close>

text \<open>What is assumed of the heap: the work buffer of \<open>snprintf\<close> can be had.\<close>

definition heap_ok :: "(nat \<Rightarrow> nat ptr) \<Rightarrow> bool" where
  "heap_ok usable \<longleftrightarrow> wf_usable usable \<and> usable STACK_BUF_SIZE \<noteq> NULL"

lemma preprocess_num:
  assumes "length fmt_buf = 2048" "fmt \<in> {''%x'', ''%d'', ''%u.%u.%u.%u''}"
  shows "preprocess_fmt fmt fmt_buf 2048 = Some fmt"
proof -
  let ?d = "Directive [] W_none P_none L_none"
  have "fmt = concat (map render [?d CHR ''x'']) \<or> fmt = concat (map render [?d CHR ''d'']) \<or>
    fmt = concat (map render [?d CHR ''u'', Lit CHR ''.'', ?d CHR ''u'', Lit CHR ''.'', ?d CHR ''u'', Lit CHR ''.'', ?d CHR ''u''])"
    using assms(2) by auto
  then show ?thesis
    using preprocess_fmt_pieces [of "[?d CHR ''x'']" fmt_buf 2048] preprocess_fmt_pieces [of "[?d CHR ''d'']" fmt_buf 2048]
      preprocess_fmt_pieces [of "[?d CHR ''u'', Lit CHR ''.'', ?d CHR ''u'', Lit CHR ''.'', ?d CHR ''u'', Lit CHR ''.'', ?d CHR ''u'']" fmt_buf 2048]
      assms(1)
    by (auto simp: conv_char_def)
qed

lemma print_num_ok:
  assumes "heap_ok usable" "length fmt_buf = 2048" "fmt \<in> {''%x'', ''%d'', ''%u.%u.%u.%u''}"
    and "num_vsprintf fmt args = Some t" "length t < 8192" "0 < siz" "siz \<le> length dst"
  shows "print_num usable fmt_buf dst siz fmt args = Some (int (length t), bounded_result dst t siz)"
proof -
  obtain cap where "usable STACK_BUF_SIZE = Ptr cap" using assms(1) by (cases "usable STACK_BUF_SIZE") (auto simp: heap_ok_def)
  then have "solcompat_vsnprintf usable num_vsprintf fmt_buf (Ptr dst) siz fmt args =
      Some \<lparr>vr_ret = int (length t), vr_errno = None, vr_str = Ptr (bounded_result dst t siz)\<rparr>"
    using assms preprocess_num [OF assms(2,3)] by (intro vsnprintf_bounded) (auto simp: heap_ok_def STACK_BUF_SIZE_def)
  then show ?thesis by (simp add: print_num_def solcompat_snprintf_def)
qed

text \<open>The scratch array holds the text \<open>out\<close> up to \<open>tp\<close>.\<close>

definition holds :: "cbuf \<times> int \<Rightarrow> string \<Rightarrow> bool" where
  "holds st out \<longleftrightarrow> (\<exists>r. fst st = out @ r \<and> length (fst st) = 46) \<and> snd st = int (length out)"

lemma put6_ok:
  assumes "holds st out" "length out < 46"
  shows "\<exists>st'. put6 c st = Some st' \<and> holds st' (out @ [c])"
proof -
  obtain r where r: "st = (out @ r, int (length out))" "length out + length r = 46"
    using assms by (cases st) (auto simp: holds_def)
  then obtain x r' where "r = x # r'" using assms(2) by (cases r) auto
  with r show ?thesis by (auto simp: put6_def holds_def wr_append)
qed

lemma print6_ok:
  assumes "heap_ok usable" "length fmt_buf = 2048" "holds st out" "length out + length (hex_of (unat w)) < 46"
  shows "\<exists>st'. print6 usable fmt_buf w st = Some st' \<and> holds st' (out @ hex_of (unat w))"
proof -
  let ?h = "hex_of (unat w)"
  obtain r where r: "st = (out @ r, int (length out))" "length out + length r = 46"
    using assms(3) by (cases st) (auto simp: holds_def)
  have "print_num usable fmt_buf r (46 - length out) ''%x'' [unat w] =
      Some (int (length ?h), bounded_result r ?h (46 - length out))"
    using assms r by (intro print_num_ok) (auto simp: num_vsprintf_def rd_def)
  moreover have "bounded_result r ?h (46 - length out) = ?h @ NUL # drop (Suc (length ?h)) r"
    using assms(4) by (simp add: bounded_result_def)
  ultimately show ?thesis
    using r assms(4) by (auto simp: print6_def holds_def INET6_ADDRSTRLEN_def)
qed

text \<open>The text iteration \<open>j\<close> contributes outside the compressed run.\<close>

definition group_text :: "u32 list \<Rightarrow> int \<Rightarrow> nat \<Rightarrow> nat \<Rightarrow> string" where
  "group_text words bs bl j =
     (if j > 0 \<and> \<not> (int j = bs + int bl \<and> bs \<ge> 0) then '':'' else []) @ hex_of (unat (words ! j))"

lemma fmt6_group:
  assumes "heap_ok usable" "length fmt_buf = 2048" "i < 8" "int i \<noteq> bs" "unat (words ! i) \<le> 0xFFFF"
    and "holds st out" "length out + 5 < 46"
  shows "\<exists>st'. holds st' (out @ group_text words bs bl i) \<and>
    fmt6_loop usable fmt_buf words bs bl i st = fmt6_loop usable fmt_buf words bs bl (i + 1) st'"
proof -
  have len: "length (hex_of (unat (words ! i))) \<le> 4" using length_hex_of [of "unat (words ! i)" 3] assms(5) by simp
  let ?c = "i > 0 \<and> \<not> (int i = bs + int bl \<and> bs \<ge> 0)"
  obtain st1 where st1: "(if ?c then put6 CHR '':'' st else Some st) = Some st1"
      "holds st1 (out @ (if ?c then '':'' else []))"
    using put6_ok [OF assms(6), of "CHR '':''"] assms(6,7) that [of st] that
    by (cases ?c) (simp_all only: if_True if_False append_Nil2, auto)
  obtain st2 where st2: "print6 usable fmt_buf (words ! i) st1 = Some st2"
      "holds st2 ((out @ (if ?c then '':'' else [])) @ hex_of (unat (words ! i)))"
    using print6_ok [OF assms(1,2) st1(2), of "words ! i"] assms(7) len that by (cases ?c) auto
  have "fmt6_loop usable fmt_buf words bs bl i st = fmt6_loop usable fmt_buf words bs bl (i + 1) st2"
    by (subst fmt6_loop.simps) (simp only: assms(3,4) if_True if_False st1 st2 Option.bind.bind_lunit)
  with st2 show ?thesis by (intro exI [of _ st2]) (simp add: group_text_def)
qed

lemma group_text_bound: "unat (words ! j) \<le> 0xFFFF \<Longrightarrow> length (group_text words bs bl j) \<le> 5"
  using length_hex_of [of "unat (words ! j)" 3] by (simp add: group_text_def)

lemma fmt6_groups:
  assumes "heap_ok usable" "length fmt_buf = 2048" "\<And>j. j < 8 \<Longrightarrow> unat (words ! j) \<le> 0xFFFF"
  shows "i + n \<le> 8 \<Longrightarrow> (\<And>j. i \<le> j \<Longrightarrow> j < i + n \<Longrightarrow> int j \<noteq> bs) \<Longrightarrow> holds st out \<Longrightarrow> length out + 5 * n < 46 \<Longrightarrow>
    \<exists>st'. holds st' (out @ concat (map (group_text words bs bl) [i..<i + n])) \<and>
      length (concat (map (group_text words bs bl) [i..<i + n])) \<le> 5 * n \<and>
      fmt6_loop usable fmt_buf words bs bl i st = fmt6_loop usable fmt_buf words bs bl (i + n) st'"
proof (induction n arbitrary: i st out)
  case (Suc n)
  have b: "unat (words ! i) \<le> 0xFFFF" "int i \<noteq> bs" "i < 8" using assms(3) Suc.prems by auto
  then obtain st1 where st1: "holds st1 (out @ group_text words bs bl i)"
      "fmt6_loop usable fmt_buf words bs bl i st = fmt6_loop usable fmt_buf words bs bl (i + 1) st1"
    using fmt6_group [OF assms(1,2) b(3,2,1) Suc.prems(3), of bl] Suc.prems(4) by auto
  have g: "length (group_text words bs bl i) \<le> 5" using group_text_bound b(1) .
  have pre: "i + 1 + n \<le> 8" "length (out @ group_text words bs bl i) + 5 * n < 46"
    "\<And>j. i + 1 \<le> j \<Longrightarrow> j < i + 1 + n \<Longrightarrow> int j \<noteq> bs" using Suc.prems g by auto
  obtain st' where st': "holds st' ((out @ group_text words bs bl i) @ concat (map (group_text words bs bl) [i + 1..<i + 1 + n]))"
      "length (concat (map (group_text words bs bl) [i + 1..<i + 1 + n])) \<le> 5 * n"
      "fmt6_loop usable fmt_buf words bs bl (i + 1) st1 = fmt6_loop usable fmt_buf words bs bl (i + 1 + n) st'"
    using Suc.IH [OF pre(1,3) st1(1) pre(2)] by blast
  have u: "[i..<i + Suc n] = i # [i + 1..<i + 1 + n]" by (simp add: upt_conv_Cons)
  show ?case unfolding u using st' st1(2) g by (intro exI [of _ st']) simp
qed auto

text \<open>
  A run of zero words, and the run RFC 5952 compresses: at least two words, none longer, and the
  first of the longest.
\<close>

definition zero_run :: "bool list \<Rightarrow> nat \<Rightarrow> nat \<Rightarrow> bool" where
  "zero_run zs s l \<longleftrightarrow> s + l \<le> length zs \<and> list_all (\<lambda>z. z) (take l (drop s zs))"

definition rfc5952_run :: "bool list \<Rightarrow> int \<Rightarrow> nat \<Rightarrow> bool" where
  "rfc5952_run zs bs bl \<longleftrightarrow>
     (bs = -1 \<and> list_all (\<lambda>s. \<not> zero_run zs s 2) [0..<length zs]) \<or>
     (0 \<le> bs \<and> 2 \<le> bl \<and> zero_run zs (nat bs) bl
       \<and> list_all (\<lambda>s. \<not> zero_run zs s (bl + 1)) [0..<length zs]
       \<and> list_all (\<lambda>s. \<not> zero_run zs s bl) [0..<nat bs])"

definition zrun_result :: "bool list \<Rightarrow> int \<times> nat" where
  "zrun_result zs =
     (let z = zrun_loop zs 0 \<lparr>best_start = -1, best_len = 0, cur_start = -1, cur_len = 0\<rparr>
      in (best_start z, best_len z))"

lemma zrun_all: "list_all (\<lambda>zs. case zrun_result zs of (bs, bl) \<Rightarrow> rfc5952_run zs bs bl) (List.n_lists 8 [True, False])"
  by code_simp

lemma best_run_rfc5952:
  assumes "length words = 8" "best_run words = (bs, bl)"
  shows "rfc5952_run (map (\<lambda>w. w = 0) words) bs bl"
proof -
  let ?zs = "map (\<lambda>w. w = 0) words"
  have "?zs \<in> set (List.n_lists 8 [True, False])" using assms(1) by (auto simp: set_n_lists)
  moreover have "zrun_result ?zs = (bs, bl)" using assms(2) by (simp add: zrun_result_def best_run_def)
  ultimately show ?thesis using zrun_all by (auto simp: list_all_iff)
qed

lemma best_run_zero:
  assumes "length words = 8" "best_run words = (bs, bl)" "bs \<noteq> -1"
  obtains s where "bs = int s" "2 \<le> bl" "s + bl \<le> 8" "take bl (drop s words) = replicate bl 0"
proof -
  have r: "0 \<le> bs" "2 \<le> bl" "zero_run (map (\<lambda>w. w = 0) words) (nat bs) bl"
    using best_run_rfc5952 [OF assms(1,2)] assms(3) by (auto simp: rfc5952_run_def)
  then have "take bl (drop (nat bs) words) = replicate bl 0"
    using assms(1) by (auto simp: zero_run_def list_all_iff drop_map take_map intro!: replicate_eqI)
  with r assms(1) show ?thesis using that [of "nat bs"] by (auto simp: zero_run_def)
qed

text \<open>Groups joined by colons, and the text RFC 5952 prescribes for a compressed run.\<close>

fun join :: "u32 list \<Rightarrow> string" where
  "join [] = []"
| "join [w] = hex_of (unat w)"
| "join (w # v # ws) = hex_of (unat w) @ CHR '':'' # join (v # ws)"

definition ip6_text :: "u32 list \<Rightarrow> string" where
  "ip6_text words = (case best_run words of (bs, bl) \<Rightarrow>
     if bs = -1 then join words
     else join (take (nat bs) words) @ ''::'' @ join (drop (nat bs + bl) words))"

lemma join_groups:
  assumes "\<And>j. i < j \<Longrightarrow> j < i + n \<Longrightarrow> \<not> (int j = bs + int bl \<and> bs \<ge> 0)"
    and "i = 0 \<or> int i = bs + int bl \<and> bs \<ge> 0" and "i + n \<le> length words"
  shows "concat (map (group_text words bs bl) [i..<i + n]) = join (take n (drop i words))"
proof -
  have rest: "concat (map (group_text words bs bl) [k..<k + m]) = concat (map (\<lambda>w. CHR '':'' # hex_of (unat w)) (take m (drop k words)))"
    if "i < k" "k + m \<le> i + n" for k m
    using that
  proof (induction m arbitrary: k)
    case (Suc m)
    then have "k < length words" "\<not> (int k = bs + int bl \<and> bs \<ge> 0)" using assms by auto
    then have "take (Suc m) (drop k words) = words ! k # take m (drop (k + 1) words)"
      by (simp add: Cons_nth_drop_Suc [symmetric])
    moreover have "[k..<k + Suc m] = k # [k + 1..<k + 1 + m]" by (simp add: upt_conv_Cons)
    ultimately show ?case
      using Suc.IH [of "k + 1"] Suc.prems \<open>\<not> _\<close> by (simp add: group_text_def del: upt_Suc)
  qed simp
  have join: "join (w # ws) = hex_of (unat w) @ concat (map (\<lambda>w. CHR '':'' # hex_of (unat w)) ws)" for w ws
    by (induction ws arbitrary: w) auto
  show ?thesis
  proof (cases n)
    case (Suc m)
    then have "take n (drop i words) = words ! i # take m (drop (i + 1) words)"
      using assms(3) by (simp add: Cons_nth_drop_Suc [symmetric])
    moreover have "[i..<i + n] = i # [i + 1..<i + 1 + m]" using Suc by (simp add: upt_conv_Cons)
    ultimately show ?thesis
      using rest [of "i + 1" m] assms(2) Suc join by (auto simp: group_text_def simp del: upt_Suc)
  qed simp
qed

lemma fmt6_loop_text:
  assumes "heap_ok usable" "length fmt_buf = 2048" "length words = 8" "\<And>j. j < 8 \<Longrightarrow> unat (words ! j) \<le> 0xFFFF"
    and "best_run words = (bs, bl)" "length tmp = 46"
  shows "\<exists>st. fmt6_loop usable fmt_buf words bs bl 0 (tmp, 0) = Some st \<and> holds st (ip6_text words) \<and> length (ip6_text words) < 46"
proof -
  have h0: "holds (tmp, 0) []" using assms(6) by (simp add: holds_def)
  have stop: "fmt6_loop usable fmt_buf words bs bl i st = Some st" if "\<not> i < 8" for i st
    using that by (subst fmt6_loop.simps) simp
  show ?thesis
  proof (cases "bs = -1")
    case True
    obtain st where "holds st (concat (map (group_text words bs bl) [0..<0 + 8]))"
        "length (concat (map (group_text words bs bl) [0..<0 + 8])) \<le> 40"
        "fmt6_loop usable fmt_buf words bs bl 0 (tmp, 0) = fmt6_loop usable fmt_buf words bs bl 8 st"
      using fmt6_groups [OF assms(1,2,4), of 0 8 bs "(tmp, 0)" "[]" bl] h0 True by auto
    moreover have "concat (map (group_text words bs bl) [0..<0 + 8]) = ip6_text words"
      using join_groups [of 0 8 bs bl words] True assms(3,5) by (simp add: ip6_text_def)
    ultimately show ?thesis using stop [of 8] by auto
  next
    case False
    then obtain s where s: "bs = int s" "2 \<le> bl" "s + bl \<le> 8" using best_run_zero [OF assms(3,5)] by metis
    obtain st1 where st1: "holds st1 (concat (map (group_text words bs bl) [0..<0 + s]))"
        "length (concat (map (group_text words bs bl) [0..<0 + s])) \<le> 5 * s"
        "fmt6_loop usable fmt_buf words bs bl 0 (tmp, 0) = fmt6_loop usable fmt_buf words bs bl s st1"
      using fmt6_groups [OF assms(1,2,4), of 0 s bs "(tmp, 0)" "[]" bl] h0 s by auto
    let ?a = "concat (map (group_text words bs bl) [0..<0 + s])"
    obtain st2 where st2: "put6 CHR '':'' st1 = Some st2" "holds st2 (?a @ '':'')"
      using put6_ok [OF st1(1)] st1(2) s by fastforce
    obtain st3 where st3: "put6 CHR '':'' st2 = Some st3" "holds st3 (?a @ ''::'')"
      using put6_ok [OF st2(2), of "CHR '':''"] st1(2) s by auto
    obtain n where n: "s + bl + n = 8" using s(3) le_Suc_ex by metis
    obtain st4 where st4: "holds st4 ((?a @ ''::'') @ concat (map (group_text words bs bl) [s + bl..<s + bl + n]))"
        "length (concat (map (group_text words bs bl) [s + bl..<s + bl + n])) \<le> 5 * n"
        "fmt6_loop usable fmt_buf words bs bl (s + bl) st3 = fmt6_loop usable fmt_buf words bs bl (s + bl + n) st4"
      using fmt6_groups [OF assms(1,2,4), of "s + bl" n bs st3 "?a @ ''::''" bl] st3(2) st1(2) s n by auto
    have step: "fmt6_loop usable fmt_buf words bs bl s st1 = fmt6_loop usable fmt_buf words bs bl (s + bl) st3"
      using s st2 st3 by (subst fmt6_loop.simps) (simp del: One_nat_def)
    have "?a = join (take s words)"
      using join_groups [of 0 s bs bl words] s assms(3) by simp
    moreover have "concat (map (group_text words bs bl) [s + bl..<s + bl + n]) = join (drop (s + bl) words)"
      using join_groups [of "s + bl" n bs bl words] s n assms(3) by simp
    moreover have "ip6_text words = join (take s words) @ ''::'' @ join (drop (s + bl) words)"
      using s assms(5) by (simp add: ip6_text_def)
    ultimately show ?thesis
      using st1 step st4 stop [of "s + bl + n"] n s by (intro exI [of _ st4]) simp
  qed
qed

section \<open>Parsing\<close>

lemma hex_of_hd: "isxdigit (hd (hex_of n @ r))"
  using hex_of_digits [of "hd (hex_of n)" n] hex_digit_props(1) by (cases "hex_of n") auto

text \<open>One printed group, followed by the end, a single colon, or a double colon.\<close>

lemma pton_group:
  assumes "unat w \<le> 0xFFFF" "length gs < 8"
  shows "pton_loop (hex_of (unat w)) gs d = Some ([], gs @ [w], d)"
    and "isxdigit (hd q) \<Longrightarrow> pton_loop (hex_of (unat w) @ CHR '':'' # q) gs d = pton_loop q (gs @ [w]) d"
    and "pton_loop (hex_of (unat w) @ ''::'') gs None = Some ([], gs @ [w], Some (length gs + 1))"
    and "q \<noteq> [] \<Longrightarrow> pton_loop (hex_of (unat w) @ ''::'' @ q) gs None = pton_loop q (gs @ [w]) (Some (length gs + 1))"
proof -
  note st = strtoul16_hex_of [OF assms(1)]
  show "pton_loop (hex_of (unat w)) gs d = Some ([], gs @ [w], d)"
    using st [of "[]"] hex_of_hd [of "unat w" "[]"] assms
    by (subst pton_loop.simps) (auto simp: pton_loop.simps [of "[]"])
  show "pton_loop (hex_of (unat w) @ CHR '':'' # q) gs d = pton_loop q (gs @ [w]) d" if "isxdigit (hd q)"
  proof -
    have "q \<noteq> [] \<Longrightarrow> hd q \<noteq> CHR '':''" using that by (auto simp: isxdigit_def)
    then show ?thesis
      using st [of "CHR '':'' # q"] hex_of_hd [of "unat w" "CHR '':'' # q"] assms
      by (subst pton_loop.simps) (auto simp: Let_def split: list.split)
  qed
  show "pton_loop (hex_of (unat w) @ ''::'') gs None = Some ([], gs @ [w], Some (length gs + 1))"
    using st [of "''::''"] hex_of_hd [of "unat w" "''::''"] assms by (subst pton_loop.simps) auto
  show "pton_loop (hex_of (unat w) @ ''::'' @ q) gs None = pton_loop q (gs @ [w]) (Some (length gs + 1))" if "q \<noteq> []"
    using st [of "''::'' @ q"] hex_of_hd [of "unat w" "''::'' @ q"] assms that by (subst pton_loop.simps) auto
qed

lemma isxdigit_join: "ws \<noteq> [] \<Longrightarrow> isxdigit (hd (join ws @ r))"
  using hex_of_hd by (cases ws rule: join.cases) auto

lemma pton_join:
  "ws \<noteq> [] \<Longrightarrow> list_all (\<lambda>w. unat w \<le> 0xFFFF) ws \<Longrightarrow> length gs + length ws \<le> 8 \<Longrightarrow>
   pton_loop (join ws) gs d = Some ([], gs @ ws, d)"
proof (induction ws arbitrary: gs rule: join.induct)
  case (3 w v ws)
  then show ?case
    using pton_group(2) [of w gs "join (v # ws)" d] isxdigit_join [of "v # ws" "[]"] by simp
qed (auto simp: pton_group)

lemma pton_join_double:
  "ws \<noteq> [] \<Longrightarrow> list_all (\<lambda>w. unat w \<le> 0xFFFF) ws \<Longrightarrow> length gs + length ws \<le> 8 \<Longrightarrow>
   pton_loop (join ws @ ''::'' @ q) gs None =
     (if q = [] then Some ([], gs @ ws, Some (length gs + length ws))
      else pton_loop q (gs @ ws) (Some (length gs + length ws)))"
proof (induction ws arbitrary: gs rule: join.induct)
  case (2 w)
  then show ?case using pton_group(3,4) [of w gs] by auto
next
  case (3 w v ws)
  then show ?case
    using pton_group(2) [of w gs "join (v # ws) @ ''::'' @ q" None] isxdigit_join [of "v # ws" "''::'' @ q"] by simp
qed simp

lemma shift_loop_ok:
  "d + f + t \<le> length g \<Longrightarrow>
   \<exists>g'. shift_loop t d f g = Some g' \<and> length g' = length g \<and>
     (\<forall>j < length g. g' ! j = (if d + f \<le> j \<and> j < d + f + t then g ! (j - f) else g ! j))"
proof (induction t arbitrary: g)
  case (Suc i)
  let ?g = "g[d + f + i := g ! (d + i)]"
  have "d + f + i \<le> length ?g" using Suc.prems by simp
  from Suc.IH [OF this] obtain g' where g': "shift_loop i d f ?g = Some g'" "length g' = length g"
    "\<forall>j < length g. g' ! j = (if d + f \<le> j \<and> j < d + f + i then ?g ! (j - f) else ?g ! j)" by auto
  have "g' ! j = (if d + f \<le> j \<and> j < d + f + Suc i then g ! (j - f) else g ! j)" if "j < length g" for j
    using g'(3) that by (cases "j = d + f + i") (auto simp: nth_list_update less_Suc_eq)
  with g' Suc.prems show ?case by (auto simp: rd_def wr_def)
qed auto

lemma zero_loop_ok:
  "k + n \<le> length g \<Longrightarrow> zero_loop n k g = Some (take k g @ replicate n 0 @ drop (k + n) g)"
proof (induction n arbitrary: k g)
  case (Suc n)
  then have "take (k + 1) (g[k := 0]) = take k g @ [0]" "drop (k + 1 + n) (g[k := 0]) = drop (k + Suc n) g"
    by (simp_all add: take_Suc_conv_app_nth)
  with Suc show ?case by (simp add: wr_def)
qed simp

lemma expand_ok:
  assumes "d \<le> length gs" "length gs \<le> 8"
  shows "(do { g \<leftarrow> shift_loop (length gs - d) d (8 - length gs) (gs @ replicate (8 - length gs) 0);
               zero_loop (8 - length gs) d g }) =
         Some (take d gs @ replicate (8 - length gs) 0 @ drop d gs)"
proof -
  let ?f = "8 - length gs" and ?g = "gs @ replicate (8 - length gs) 0"
  have "d + ?f + (length gs - d) \<le> length ?g" using assms by simp
  from shift_loop_ok [OF this] obtain g' where g': "shift_loop (length gs - d) d ?f ?g = Some g'" "length g' = 8"
    "\<forall>j < 8. g' ! j = (if d + ?f \<le> j \<and> j < d + ?f + (length gs - d) then ?g ! (j - ?f) else ?g ! j)"
    using assms by auto
  have "take d g' = take d gs"
    using g' assms by (intro nth_equalityI) (auto simp: nth_append)
  moreover have "drop (d + ?f) g' = drop d gs"
  proof (rule nth_equalityI)
    fix i assume "i < length (drop (d + ?f) g')"
    then have i: "d + ?f + i < 8" "d + i < length gs" using g'(2) assms by auto
    then have "g' ! (d + ?f + i) = ?g ! (d + i)" using g'(3) assms by auto
    then show "drop (d + ?f) g' ! i = drop d gs ! i" using i g'(2) assms by (simp add: nth_append)
  qed (use g'(2) assms in simp)
  ultimately show ?thesis using g' zero_loop_ok [of d ?f g'] assms by simp
qed

section \<open>Bytes and words\<close>

lemma word_bytes:
  fixes a b :: u8
  defines "w \<equiv> push_bit 8 (ucast a) OR ucast b :: u32"
  shows "ucast (drop_bit 8 w) = a" "ucast (w AND 0xFF) = b" "unat w \<le> 0xFFFF"
proof -
  have ff: "(0xFF :: u32) = mask 8" by (simp add: mask_eq_exp_minus_1)
  show "ucast (drop_bit 8 w) = a"
    unfolding w_def by (rule bit_word_eqI) (auto simp: bit_simps dest: bit_imp_le_length)
  show "ucast (w AND 0xFF) = b"
    unfolding w_def ff by (rule bit_word_eqI) (auto simp: bit_simps)
  have "take_bit 16 w = w"
    unfolding w_def by (rule bit_word_eqI) (auto simp: bit_simps dest: bit_imp_le_length)
  then have "unat w = take_bit 16 (unat w)" by (metis unsigned_take_bit_eq)
  also have "\<dots> < 2 ^ 16" by (rule take_bit_nat_less_exp)
  finally show "unat w \<le> 0xFFFF" by simp
qed

lemma words_of_bytes_bound: "j < 8 \<Longrightarrow> unat (words_of_bytes p ! j) \<le> 0xFFFF"
  by (simp add: words_of_bytes_def word_bytes)

lemma length_words_of_bytes [simp]: "length (words_of_bytes p) = 8"
  by (simp add: words_of_bytes_def)

lemma bytes_of_words_of_bytes:
  assumes "length p = 16"
  shows "bytes_of_words (words_of_bytes p) = p"
proof -
  have "bytes_of_words (words_of_bytes p) = concat (map (\<lambda>i. [p ! (i * 2), p ! (i * 2 + 1)]) [0..<8])"
    unfolding bytes_of_words_def words_of_bytes_def map_map comp_def word_bytes ..
  also have "\<dots> = map ((!) p) [0..<16]" by (simp add: upt_rec numeral_eq_Suc)
  also have "\<dots> = p" using assms map_nth [of p] by simp
  finally show ?thesis .
qed

lemma pton_finish_ok:
  assumes "d = None \<and> length gs = 8 \<and> words = gs \<or>
      (\<exists>s. d = Some s \<and> s \<le> length gs \<and> length gs \<le> 8 \<and> words = take s gs @ replicate (8 - length gs) 0 @ drop s gs)"
    and "length words = 8" "16 \<le> length dst"
  shows "pton_finish [] gs d dst = Some (1, bytes_of_words words @ drop 16 dst)"
proof -
  have len: "length (bytes_of_words words) = 16"
    using assms(2) by (simp add: bytes_of_words_def length_concat comp_def sum_list_triv)
  have mc: "memcpy dst 0 (bytes_of_words words) 0 16 = Some (bytes_of_words words @ drop 16 dst)"
    using assms(3) len by (simp add: memcpy_def)
  from assms(1) show ?thesis
  proof
    assume "\<exists>s. d = Some s \<and> s \<le> length gs \<and> length gs \<le> 8 \<and> words = take s gs @ replicate (8 - length gs) 0 @ drop s gs"
    then obtain s where s: "d = Some s" "s \<le> length gs" "length gs \<le> 8" "words = take s gs @ replicate (8 - length gs) 0 @ drop s gs" by blast
    from expand_ok [OF s(2,3)] obtain g where g: "shift_loop (length gs - s) s (8 - length gs) (gs @ replicate (8 - length gs) 0) = Some g"
      "zero_loop (8 - length gs) s g = Some words" unfolding s(4) [symmetric] by (auto simp: bind_eq_Some_conv)
    with s(1) mc show ?thesis by (simp add: pton_finish_def)
  qed (use mc in \<open>simp add: pton_finish_def\<close>)
qed

lemma pton_ip6_text:
  assumes "length words = 8" "\<And>j. j < 8 \<Longrightarrow> unat (words ! j) \<le> 0xFFFF" "16 \<le> length dst"
  shows "inet_pton aton AF_INET6 (ip6_text words) dst = Some (1, None, bytes_of_words words @ drop 16 dst)"
proof -
  obtain bs bl where r: "best_run words = (bs, bl)" by fastforce
  have all: "list_all (\<lambda>w. unat w \<le> 0xFFFF) words" using assms(1,2) by (simp add: list_all_length)
  note fin = pton_finish_ok [OF _ assms(1,3)]
  have notcolon: "take 2 (join ws @ q) \<noteq> ''::''" if "ws \<noteq> []" for ws q
    using isxdigit_join [OF that, of q] by (cases "join ws @ q") (auto simp: isxdigit_def numeral_2_eq_2)
  show ?thesis
  proof (cases "bs = -1")
    case True
    then have t: "ip6_text words = join words" using r by (simp add: ip6_text_def)
    have "words \<noteq> []" using assms(1) by auto
    then show ?thesis
      using pton_join [of words "[]" None] all assms(1) notcolon [of words "[]"] fin [of None words]
      by (simp add: inet_pton_def t AF_INET_def AF_INET6_def)
  next
    case False
    then obtain s where s: "bs = int s" "2 \<le> bl" "s + bl \<le> 8" "take bl (drop s words) = replicate bl 0"
      using best_run_zero [OF assms(1) r] by metis
    define pre post gs where "pre = take s words" and "post = drop (s + bl) words" and "gs = pre @ post"
    have t: "ip6_text words = join pre @ ''::'' @ join post"
      using r s by (simp add: ip6_text_def pre_def post_def)
    have len: "length pre = s" "length post = 8 - (s + bl)" "length gs = 8 - bl"
      using assms(1) s by (auto simp: pre_def post_def gs_def)
    have words: "words = pre @ replicate bl 0 @ post"
      unfolding pre_def post_def s(4) [symmetric] by (metis append_take_drop_id drop_drop add.commute)
    have fin': "pton_finish [] gs (Some s) dst = Some (1, bytes_of_words words @ drop 16 dst)"
      using s len words by (intro fin) (auto simp: gs_def)
    have ap: "list_all (\<lambda>w. unat w \<le> 0xFFFF) pre" "list_all (\<lambda>w. unat w \<le> 0xFFFF) post"
      using all words by (metis list_all_append)+
    have jn: "post \<noteq> [] \<Longrightarrow> join post \<noteq> []" using isxdigit_join [of post "[]"] by (cases post rule: join.cases) auto
    show ?thesis
    proof (cases "pre = []")
      case True
      then have s0: "s = 0" using len by simp
      show ?thesis
      proof (cases "post = []")
        case True
        then have "bl = 8" using s(3) s0 len by simp
        then have "bytes_of_words words = replicate 16 0"
          using \<open>pre = []\<close> True words by (simp add: bytes_of_words_def numeral_eq_Suc)
        then show ?thesis
          using True \<open>pre = []\<close> assms(3) by (simp add: inet_pton_def t AF_INET_def AF_INET6_def memcpy_def)
      next
        case post: False
        then show ?thesis
          using True pton_join [OF post ap(2), of "[]" "Some 0"] len s0 fin' jn
          by (simp add: inet_pton_def t AF_INET_def AF_INET6_def gs_def)
      qed
    next
      case pre: False
      have "pton_loop (join pre @ ''::'' @ join post) [] None = Some ([], gs, Some s)"
        using pton_join_double [OF pre ap(1), of "[]" "join post"] pton_join [of post pre "Some s"] ap(2) len jn s
        by (cases "post = []") (auto simp: gs_def)
      then show ?thesis
        using notcolon [OF pre] fin' by (simp add: inet_pton_def t AF_INET_def AF_INET6_def)
    qed
  qed
qed

section \<open>Properties\<close>

lemma wf_cstr_join [simp]: "wf_cstr (join ws)"
  by (induction ws rule: join.induct) auto

lemma wf_cstr_ip6_text [simp]: "wf_cstr (ip6_text ws)"
  by (simp add: ip6_text_def split: prod.split)

lemma inet_ntop_ip6:
  fixes p :: "u8 list"
  assumes "heap_ok usable" "length fmt_buf = 2048" "length tmp = 46" "siz \<le> length dst"
  defines "t \<equiv> ip6_text (words_of_bytes p)"
  shows "inet_ntop usable fmt_buf tmp AF_INET6 p dst siz =
    Some (if siz \<le> length t then (Inl ENOSPC, dst) else (Inr (), t @ NUL # drop (length t + 1) dst))"
    and "length t < 46"
proof -
  obtain bs bl where r: "best_run (words_of_bytes p) = (bs, bl)" by fastforce
  obtain a tp where st: "fmt6_loop usable fmt_buf (words_of_bytes p) bs bl 0 (tmp, 0) = Some (a, tp)" "holds (a, tp) t" "length t < 46"
    using fmt6_loop_text [OF assms(1,2) _ words_of_bytes_bound r assms(3)] unfolding t_def by auto
  then obtain r where r': "a = t @ r" "tp = int (length t)" "length a = 46" by (auto simp: holds_def)
  then obtain x u where a: "a = t @ x # u" "tp = int (length t)" "length a = 46" using st(3) by (cases r) auto
  show "length t < 46" using st(3) .
  have "strlen_at (t @ NUL # u) 0 = Some (length t)" unfolding t_def by (simp add: strlen_at_NUL)
  moreover have "wr a (nat tp) NUL = Some (t @ NUL # u)" using a by (simp add: wr_append)
  ultimately show "inet_ntop usable fmt_buf tmp AF_INET6 p dst siz =
    Some (if siz \<le> length t then (Inl ENOSPC, dst) else (Inr (), t @ NUL # drop (length t + 1) dst))"
    using st(1) a r assms(4) by (simp add: inet_ntop_def AF_INET_def AF_INET6_def memcpy_def)
qed

text \<open>
  C5. IPv6 addresses survive the round trip: for every 16-byte address, \<open>inet_ntop\<close> succeeds with a
  46-byte buffer when the allocations of its formatter do, and \<open>inet_pton\<close> on the text it leaves in the buffer returns 1 and stores the same
  16 bytes.
\<close>

theorem inet6_round_trip:
  assumes "length p = 16" "heap_ok usable" "length fmt_buf = 2048" "length tmp = 46"
    and "INET6_ADDRSTRLEN \<le> siz" "siz \<le> length dst" "length out = 16"
  shows "\<exists>dst'. inet_ntop usable fmt_buf tmp AF_INET6 p dst siz = Some (Inr (), dst')
    \<and> inet_pton aton AF_INET6 (cstr dst' 0) out = Some (1, None, p)"
  using inet_ntop_ip6 [OF assms(2,3,4,6), of p] assms(1,5,7)
    pton_ip6_text [of "words_of_bytes p" out aton] words_of_bytes_bound [of _ p]
  by (simp add: INET6_ADDRSTRLEN_def cstr_append_NUL bytes_of_words_of_bytes)

theorem inet6_round_trip_witness:
  "\<exists>dst'. inet_ntop Ptr (replicate 2048 NUL) (replicate 46 NUL) AF_INET6 ([0x20, 1, 0xd, 0xb8] @ replicate 11 0 @ [1]) (replicate 46 NUL) 46 = Some (Inr (), dst')
    \<and> inet_pton (\<lambda>_. None) AF_INET6 (cstr dst' 0) (replicate 16 0) = Some (1, None, [0x20, 1, 0xd, 0xb8] @ replicate 11 0 @ [1])"
  by (rule inet6_round_trip) (simp_all add: heap_ok_def wf_usable_def INET6_ADDRSTRLEN_def)

text \<open>
  C27. The text \<open>inet_ntop\<close> produces is the canonical one: shorter than the 46 bytes of the scratch
  array (so no write leaves it), with the run compressed to \<open>::\<close> being a longest run of at least two
  zero words and the first of that length, and refused with \<open>ENOSPC\<close>, the destination untouched,
  exactly when it does not fit with its terminator.
\<close>

theorem inet_ntop_canonical:
  assumes "heap_ok usable" "length fmt_buf = 2048" "length tmp = 46" "siz \<le> length dst"
    and "best_run (words_of_bytes p) = (bs, bl)"
  shows "\<exists>t. length t < 46 \<and> rfc5952_run (map (\<lambda>w. w = 0) (words_of_bytes p)) bs bl
    \<and> t = (if bs = -1 then join (words_of_bytes p)
           else join (take (nat bs) (words_of_bytes p)) @ ''::'' @ join (drop (nat bs + bl) (words_of_bytes p)))
    \<and> inet_ntop usable fmt_buf tmp AF_INET6 p dst siz =
        Some (if siz \<le> length t then (Inl ENOSPC, dst) else (Inr (), t @ NUL # drop (length t + 1) dst))"
  using inet_ntop_ip6 [OF assms(1-4), of p] best_run_rfc5952 [OF length_words_of_bytes assms(5)]
  by (intro exI [of _ "ip6_text (words_of_bytes p)"]) (simp add: ip6_text_def assms(5))

theorem inet_ntop_canonical_witness:
  "inet_ntop Ptr (replicate 2048 NUL) (replicate 46 NUL) AF_INET6 (replicate 15 0 @ [1]) ''abc'' 3 =
     Some (Inl ENOSPC, ''abc'')"
proof -
  have "best_run (words_of_bytes (replicate 15 0 @ [1])) = (0, 7)" by code_simp
  from inet_ntop_canonical [OF _ _ _ _ this, of Ptr "replicate 2048 NUL" "replicate 46 NUL" 3 "''abc''"]
  obtain t where "t = join (take 0 (words_of_bytes (replicate 15 0 @ [1]))) @ ''::'' @ join (drop 7 (words_of_bytes (replicate 15 0 @ [1])))"
    and r: "inet_ntop Ptr (replicate 2048 NUL) (replicate 46 NUL) AF_INET6 (replicate 15 0 @ [1]) ''abc'' 3 =
        Some (if 3 \<le> length t then (Inl ENOSPC, ''abc'') else (Inr (), t @ NUL # drop (length t + 1) ''abc''))"
    by (auto simp: heap_ok_def wf_usable_def)
  moreover have "join (take 0 (words_of_bytes (replicate 15 0 @ [1]))) @ ''::'' @ join (drop 7 (words_of_bytes (replicate 15 0 @ [1]))) = ''::1''"
    by code_simp
  ultimately have "length t = 3" by simp
  with r show ?thesis by simp
qed

lemma pton_join_colon:
  "ws \<noteq> [] \<Longrightarrow> list_all (\<lambda>w. unat w \<le> 0xFFFF) ws \<Longrightarrow> length gs + length ws \<le> 8 \<Longrightarrow>
   pton_loop (join ws @ '':'') gs d = Some ([], gs @ ws, d)"
proof (induction ws arbitrary: gs rule: join.induct)
  case (2 w)
  then show ?case
    using strtoul16_hex_of [of "unat w" "'':''"] hex_of_hd [of "unat w" "'':''"]
    by (subst pton_loop.simps) (simp add: pton_loop.simps [of "[]"])
next
  case (3 w v ws)
  then show ?case
    using pton_group(2) [of w gs "join (v # ws) @ '':''" d] isxdigit_join [of "v # ws" "'':''"] by simp
qed simp

text \<open>
  \<open>inet_pton\<close> accepts texts that are no IPv6 addresses: every full eight-group address is accepted
  with a stray colon after its last group.
\<close>

lemma inet_pton_trailing_colon:
  assumes "length ws = 8" "list_all (\<lambda>w. unat w \<le> 0xFFFF) ws" "length out = 16"
  shows "inet_pton aton AF_INET6 (join ws @ '':'') out = Some (1, None, bytes_of_words ws)"
proof -
  have ne: "ws \<noteq> []" using assms(1) by auto
  have "take 2 (join ws @ '':'') \<noteq> ''::''"
    using isxdigit_join [OF ne, of "'':''"] by (cases "join ws @ '':''") (auto simp: isxdigit_def numeral_2_eq_2)
  then show ?thesis
    using pton_join_colon [OF ne assms(2), of "[]" None] pton_finish_ok [of None ws ws out] assms
    by (simp add: inet_pton_def AF_INET_def AF_INET6_def)
qed

theorem inet_pton_trailing_colon_witness:
  "inet_pton (\<lambda>_. None) AF_INET6 ''1:2:3:4:5:6:7:8:'' (replicate 16 0) =
     Some (1, None, [0, 1, 0, 2, 0, 3, 0, 4, 0, 5, 0, 6, 0, 7, 0, 8])"
proof -
  let ?ws = "[1, 2, 3, 4, 5, 6, 7, 8] :: u32 list"
  have e: "join ?ws @ '':'' = ''1:2:3:4:5:6:7:8:''"
    "bytes_of_words ?ws = [0, 1, 0, 2, 0, 3, 0, 4, 0, 5, 0, 6, 0, 7, 0, 8]"
    by code_simp+
  have "inet_pton (\<lambda>_. None) AF_INET6 (join ?ws @ '':'') (replicate 16 0) = Some (1, None, bytes_of_words ?ws)"
    by (rule inet_pton_trailing_colon) simp_all
  then show ?thesis unfolding e .
qed

text \<open>
  \<open>inet_ntop\<close> adds the result of \<open>snprintf\<close> to its write pointer without checking it. When the work
  buffer of \<open>snprintf\<close> cannot be allocated the result is -1, so for every IPv6 address whose text
  does not start with \<open>::\<close> the next colon is written before the start of the scratch array.
\<close>

lemma inet_ntop_no_memory:
  assumes "usable STACK_BUF_SIZE = NULL" "length fmt_buf = 2048" "length tmp = 46"
    and "fst (best_run (words_of_bytes p)) \<noteq> 0"
  shows "inet_ntop usable fmt_buf tmp AF_INET6 p dst siz = None"
proof -
  obtain bs bl where r: "best_run (words_of_bytes p) = (bs, bl)" by fastforce
  have ge: "bs = -1 \<or> 2 \<le> bl" using best_run_zero [OF length_words_of_bytes r] by metis
  let ?w = "words_of_bytes p"
  have "print_num usable fmt_buf tmp 46 ''%x'' [unat (?w ! 0)] = Some (-1, tmp)"
    using assms(1,2) preprocess_num [OF assms(2), of "''%x''"]
    by (simp add: print_num_def solcompat_snprintf_def solcompat_vsnprintf_def grow_loop.simps)
  then have p: "print6 usable fmt_buf (?w ! 0) (tmp, 0) = Some (tmp, -1)"
    using assms(3) by (simp add: print6_def INET6_ADDRSTRLEN_def)
  have "fmt6_loop usable fmt_buf ?w bs bl 1 (tmp, -1) = None"
    using ge r by (subst fmt6_loop.simps) (auto simp: put6_def)
  then have "fmt6_loop usable fmt_buf ?w bs bl 0 (tmp, 0) = None"
    using assms(4) r p by (subst fmt6_loop.simps) auto
  then show ?thesis using r by (simp add: inet_ntop_def AF_INET_def AF_INET6_def)
qed

theorem inet_ntop_no_memory_witness:
  "inet_ntop (\<lambda>_. NULL) (replicate 2048 NUL) (replicate 46 NUL) AF_INET6 ([0x20, 1] @ replicate 14 0) (replicate 46 NUL) 46 = None"
proof -
  have "fst (best_run (words_of_bytes ([0x20, 1] @ replicate 14 0))) \<noteq> 0" by code_simp
  then show ?thesis by (intro inet_ntop_no_memory) simp_all
qed

end
