(* ===== verification/Resolver.thy ===== *)
theory Resolver
  imports Inet
begin

text \<open>
  Name resolution and interface queries of \<open>src/src/network.c\<close>: \<open>getaddrinfo\<close>, \<open>freeaddrinfo\<close>,
  \<open>gai_strerror\<close>, \<open>getnameinfo\<close>, \<open>getifaddrs\<close>, \<open>freeifaddrs\<close>, \<open>if_nametoindex\<close>,
  \<open>if_indextoname\<close> and \<open>accept4\<close>.

  The databases and system calls (\<open>gethostbyname\<close>, \<open>getservbyname\<close>, \<open>inet_aton\<close>, \<open>socket\<close>,
  \<open>ioctl\<close>, \<open>accept\<close>, \<open>fcntl\<close>) are parameters. The heap is the number of live blocks and the
  number of allocations made so far; whether the \<open>k\<close>-th allocation succeeds is a parameter, so
  every pattern of failures is covered. An \<open>ai_next\<close> chain is a list. The target is big-endian:
  \<open>htons\<close> and \<open>htonl\<close> are the identity.
\<close>

section \<open>Heap and codes\<close>

record heap =
  live :: nat
  allocs :: nat

type_synonym alloc_oracle = "nat \<Rightarrow> bool"

definition alloc :: "alloc_oracle \<Rightarrow> heap \<Rightarrow> bool \<times> heap" where
  "alloc ok h = (ok (allocs h), h\<lparr>allocs := allocs h + 1, live := live h + (if ok (allocs h) then 1 else 0)\<rparr>)"

definition free :: "heap \<Rightarrow> heap" where
  "free h = h\<lparr>live := live h - 1\<rparr>"

definition EAI_AGAIN :: int where "EAI_AGAIN = 2"
definition EAI_BADFLAGS :: int where "EAI_BADFLAGS = 3"
definition EAI_FAIL :: int where "EAI_FAIL = 4"
definition EAI_FAMILY :: int where "EAI_FAMILY = 5"
definition EAI_MEMORY :: int where "EAI_MEMORY = 6"
definition EAI_NONAME :: int where "EAI_NONAME = 8"
definition EAI_SERVICE :: int where "EAI_SERVICE = 9"
definition EAI_SOCKTYPE :: int where "EAI_SOCKTYPE = 10"
definition EAI_SYSTEM :: int where "EAI_SYSTEM = 11"
definition EAI_OVERFLOW :: int where "EAI_OVERFLOW = 14"

lemmas eai_defs = EAI_AGAIN_def EAI_BADFLAGS_def EAI_FAIL_def EAI_FAMILY_def EAI_MEMORY_def EAI_NONAME_def
  EAI_SERVICE_def EAI_SOCKTYPE_def EAI_SYSTEM_def EAI_OVERFLOW_def

definition AF_UNSPEC :: int where "AF_UNSPEC = 0"
definition SOCK_DGRAM :: int where "SOCK_DGRAM = 1"
definition SOCK_STREAM :: int where "SOCK_STREAM = 2"
definition IPPROTO_UDP :: int where "IPPROTO_UDP = 17"

definition AI_PASSIVE :: u32 where "AI_PASSIVE = 0x1"
definition AI_CANONNAME :: u32 where "AI_CANONNAME = 0x2"
definition AI_NUMERICHOST :: u32 where "AI_NUMERICHOST = 0x4"
definition AI_NUMERICSERV :: u32 where "AI_NUMERICSERV = 0x8"

definition flag_set :: "u32 \<Rightarrow> u32 \<Rightarrow> bool" where
  "flag_set flags f \<longleftrightarrow> flags AND f \<noteq> 0"

definition gai_strerror :: "int \<Rightarrow> string" where
  "gai_strerror errcode =
     (if errcode = 0 then ''Success''
      else if errcode = EAI_AGAIN then ''Temporary failure in name resolution''
      else if errcode = EAI_BADFLAGS then ''Invalid value for ai_flags''
      else if errcode = EAI_FAIL then ''Non-recoverable failure in name resolution''
      else if errcode = EAI_FAMILY then ''ai_family not supported''
      else if errcode = EAI_MEMORY then ''Memory allocation failure''
      else if errcode = EAI_NONAME then ''Name or service not known''
      else if errcode = EAI_SERVICE then ''Servname not supported for ai_socktype''
      else if errcode = EAI_SOCKTYPE then ''ai_socktype not supported''
      else if errcode = EAI_SYSTEM then ''System error''
      else ''Unknown error'')"

section \<open>\<open>getaddrinfo\<close>\<close>

record sockaddr_in =
  sin_port :: u16
  sin_addr :: "u8 list"

record addrinfo =
  ai_family :: int
  ai_socktype :: int
  ai_protocol :: int
  ai_addr :: sockaddr_in
  ai_canonname :: "string ptr"

record hints =
  h_flags :: u32
  h_family :: int
  h_socktype :: int
  h_protocol :: int

datatype h_error = HOST_NOT_FOUND | TRY_AGAIN | NO_RECOVERY | NO_DATA

record hostent =
  h_name :: "string ptr"
  h_length :: nat
  h_addr_list :: "u8 list list"

record netdb =
  nd_inet_aton :: "string \<Rightarrow> u8 list option"
  nd_gethostbyname :: "string \<Rightarrow> h_error + hostent"
  nd_getservbyname :: "string \<Rightarrow> string ptr \<Rightarrow> u16 option"

text \<open>
  \<open>strtol(service, &endptr, 10)\<close>: white space, a sign, digits; without digits nothing is consumed.
  The value saturates at the 32-bit \<open>long\<close> range.
\<close>

definition strtol10 :: "string \<Rightarrow> int \<times> string" where
  "strtol10 s =
     (let t = dropWhile (\<lambda>c. c \<in> set '' '' \<or> of_char c \<in> {9 ..< 14 :: nat}) s;
          neg = (take 1 t = ''-'');
          u = (if take 1 t \<in> {''-'', ''+''} then tl t else t);
          ds = takeWhile is_digit u;
          v = foldl (\<lambda>a c. 10 * a + (of_char c - 48)) 0 ds
      in if ds = [] then (0, s)
         else (if neg then max (- v) (- (2 ^ 31)) else min v (2 ^ 31 - 1), dropWhile is_digit u))"

text \<open>Resolve the service: the port in network order, or an error code.\<close>

definition resolve_service :: "netdb \<Rightarrow> string ptr \<Rightarrow> u32 \<Rightarrow> int \<Rightarrow> int + u16" where
  "resolve_service db service flags socktype =
     (case service of
        NULL \<Rightarrow> Inr 0
      | Ptr s \<Rightarrow>
          let (portnum, rest) = strtol10 s in
          if rest = [] \<and> portnum \<ge> 0 \<and> portnum \<le> 65535 then Inr (of_int portnum)
          else if flag_set flags AI_NUMERICSERV then Inl EAI_NONAME
          else
            let proto = (if socktype = SOCK_STREAM then Ptr ''tcp'' else if socktype = SOCK_DGRAM then Ptr ''udp'' else NULL) in
            (case nd_getservbyname db s proto of
               None \<Rightarrow> Inl EAI_SERVICE
             | Some port \<Rightarrow> Inr port))"

definition mk_addrinfo :: "int \<Rightarrow> int \<Rightarrow> u16 \<Rightarrow> u8 list \<Rightarrow> addrinfo" where
  "mk_addrinfo socktype protocol port addr =
     \<lparr>ai_family = AF_INET, ai_socktype = (if socktype \<noteq> 0 then socktype else SOCK_STREAM), ai_protocol = protocol,
      ai_addr = \<lparr>sin_port = port, sin_addr = addr\<rparr>, ai_canonname = NULL\<rparr>"

text \<open>\<open>freeaddrinfo\<close>: a block per entry and one per canonical name.\<close>

fun freeaddrinfo :: "addrinfo list \<Rightarrow> heap \<Rightarrow> heap" where
  "freeaddrinfo [] h = h"
| "freeaddrinfo (ai # next) h =
     freeaddrinfo next (free (if ai_canonname ai \<noteq> NULL then free h else h))"

text \<open>
  The loop over the host's addresses, with the list built so far. \<open>Inl\<close> is the out-of-memory
  return after \<open>freeaddrinfo(head)\<close>; the outer \<open>None\<close> is a copy past the 4-byte address member.
\<close>

fun host_loop ::
    "alloc_oracle \<Rightarrow> u32 \<Rightarrow> int \<Rightarrow> int \<Rightarrow> u16 \<Rightarrow> hostent \<Rightarrow> nat \<Rightarrow> u8 list list \<Rightarrow> addrinfo list \<Rightarrow> heap \<Rightarrow>
     ((int + addrinfo list) \<times> heap) option" where
  "host_loop ok flags socktype protocol port he i [] head h = Some (Inr head, h)"
| "host_loop ok flags socktype protocol port he i (a # as) head h =
     (let (got, h) = alloc ok h in
      if \<not> got then Some (Inl EAI_MEMORY, freeaddrinfo head h)
      else
        (case memcpy (replicate 4 0) 0 a 0 (h_length he) of
           None \<Rightarrow> None
         | Some addr \<Rightarrow>
             let ai = mk_addrinfo socktype protocol port addr in
             if flag_set flags AI_CANONNAME \<and> i = 0 \<and> h_name he \<noteq> NULL then
               let (got, h) = alloc ok h in
               host_loop ok flags socktype protocol port he (i + 1) as
                 (head @ [ai\<lparr>ai_canonname := (if got then h_name he else NULL)\<rparr>]) h
             else host_loop ok flags socktype protocol port he (i + 1) as (head @ [ai]) h))"

text \<open>The duplication of the results for UDP; an allocation failure ends it early.\<close>

definition udp_of :: "addrinfo \<Rightarrow> addrinfo" where
  "udp_of ai = ai\<lparr>ai_socktype := SOCK_DGRAM, ai_protocol := IPPROTO_UDP, ai_canonname := NULL\<rparr>"

fun dup_loop :: "alloc_oracle \<Rightarrow> addrinfo list \<Rightarrow> addrinfo list \<Rightarrow> heap \<Rightarrow> addrinfo list \<times> heap" where
  "dup_loop ok [] udp h = (udp, h)"
| "dup_loop ok (p # ps) udp h =
     (let (got, h) = alloc ok h in
      if got then dup_loop ok ps (udp @ [udp_of p]) h else (udp, h))"

text \<open>
  Resolving the host: the first results, and whether \<open>getaddrinfo\<close> returns them at once (the
  numeric branch does, before the duplication for UDP).
\<close>

definition resolve_node ::
    "netdb \<Rightarrow> alloc_oracle \<Rightarrow> string ptr \<Rightarrow> u32 \<Rightarrow> int \<Rightarrow> int \<Rightarrow> u16 \<Rightarrow> heap \<Rightarrow> ((int + addrinfo list) \<times> bool \<times> heap) option" where
  "resolve_node db ok node flags socktype protocol port h =
     (case node of
        NULL \<Rightarrow>
          (let (got, h) = alloc ok h in
           Some (if got then Inr [mk_addrinfo socktype protocol port
                   (if flag_set flags AI_PASSIVE then [0, 0, 0, 0] else [127, 0, 0, 1])]
                 else Inl EAI_MEMORY, False, h))
      | Ptr n \<Rightarrow>
          if flag_set flags AI_NUMERICHOST then
            (case nd_inet_aton db n of
               None \<Rightarrow> Some (Inl EAI_NONAME, True, h)
             | Some addr \<Rightarrow>
                 let (got, h) = alloc ok h in
                 Some (if got then Inr [mk_addrinfo socktype protocol port addr] else Inl EAI_MEMORY, True, h))
          else
            (case nd_gethostbyname db n of
               Inl e \<Rightarrow> Some (Inl (case e of HOST_NOT_FOUND \<Rightarrow> EAI_NONAME | TRY_AGAIN \<Rightarrow> EAI_AGAIN
                                   | NO_RECOVERY \<Rightarrow> EAI_FAIL | NO_DATA \<Rightarrow> EAI_NONAME), False, h)
             | Inr he \<Rightarrow> map_option (\<lambda>(r, h). (r, False, h))
                 (host_loop ok flags socktype protocol port he 0 (h_addr_list he) [] h)))"

definition getaddrinfo ::
    "netdb \<Rightarrow> alloc_oracle \<Rightarrow> string ptr \<Rightarrow> string ptr \<Rightarrow> hints ptr \<Rightarrow> heap \<Rightarrow> ((int + addrinfo list) \<times> heap) option" where
  "getaddrinfo db ok node service hints h =
     (let flags = (case hints of NULL \<Rightarrow> 0 | Ptr x \<Rightarrow> h_flags x);
          family = (case hints of NULL \<Rightarrow> AF_UNSPEC | Ptr x \<Rightarrow> h_family x);
          socktype = (case hints of NULL \<Rightarrow> 0 | Ptr x \<Rightarrow> h_socktype x);
          protocol = (case hints of NULL \<Rightarrow> 0 | Ptr x \<Rightarrow> h_protocol x)
      in
      if node = NULL \<and> service = NULL then Some (Inl EAI_NONAME, h)
      else if hints \<noteq> NULL \<and> family \<notin> {AF_UNSPEC, AF_INET, AF_INET6} then Some (Inl EAI_FAMILY, h)
      else if family = AF_INET6 then Some (Inl EAI_NONAME, h)
      else
        (case resolve_service db service flags socktype of
           Inl e \<Rightarrow> Some (Inl e, h)
         | Inr port \<Rightarrow>
             (case resolve_node db ok node flags socktype protocol port h of
                None \<Rightarrow> None
              | Some (Inl e, early, h) \<Rightarrow> Some (Inl e, h)
              | Some (Inr head, early, h) \<Rightarrow>
                  if early then Some (Inr head, h)
                  else if head = [] then Some (Inl EAI_NONAME, h)
                  else if hints \<noteq> NULL \<and> socktype = 0 then
                    let (udp, h) = dup_loop ok head [] h in Some (Inr (head @ udp), h)
                  else Some (Inr head, h))))"

section \<open>\<open>getnameinfo\<close>\<close>

datatype sockaddr = Sa_in u16 "u8 list" | Sa_in6 u16 "u8 list" | Sa_other

definition NI_NUMERICHOST :: u32 where "NI_NUMERICHOST = 0x1"
definition NI_NUMERICSERV :: u32 where "NI_NUMERICSERV = 0x2"
definition NI_NAMEREQD :: u32 where "NI_NAMEREQD = 0x8"
definition NI_DGRAM :: u32 where "NI_DGRAM = 0x10"

record revdb =
  rd_inet_ntoa :: "u8 list \<Rightarrow> string"
  rd_gethostbyaddr :: "u8 list \<Rightarrow> string option"
  rd_getservbyport :: "u16 \<Rightarrow> string \<Rightarrow> string option"

text \<open>\<open>if (strlen(s) >= len) return EAI_OVERFLOW; strcpy(dst, s);\<close>\<close>

definition strcpy_checked :: "cbuf \<Rightarrow> nat \<Rightarrow> string \<Rightarrow> (int \<times> cbuf) option" where
  "strcpy_checked dst len s =
     (if length s \<ge> len then Some (EAI_OVERFLOW, dst)
      else map_option (Pair 0) (memcpy dst 0 (s @ [NUL]) 0 (length s + 1)))"

definition name_host ::
    "revdb \<Rightarrow> (nat \<Rightarrow> nat ptr) \<Rightarrow> cbuf \<Rightarrow> cbuf \<Rightarrow> sockaddr \<Rightarrow> cbuf ptr \<Rightarrow> nat \<Rightarrow> u32 \<Rightarrow> (int \<times> cbuf ptr) option" where
  "name_host db usable fmt_buf tmp sa host hostlen flags =
     (case host of
        NULL \<Rightarrow> Some (if sa = Sa_other then EAI_FAMILY else 0, NULL)
      | Ptr dst \<Rightarrow>
          map_option (\<lambda>(e, b). (e, Ptr b))
            (case sa of
               Sa_in port addr \<Rightarrow>
                 if hostlen = 0 then Some (0, dst)
                 else if flag_set flags NI_NUMERICHOST then strcpy_checked dst hostlen (rd_inet_ntoa db addr)
                 else (case rd_gethostbyaddr db addr of
                         Some name \<Rightarrow> strcpy_checked dst hostlen name
                       | None \<Rightarrow>
                           if flag_set flags NI_NAMEREQD then Some (EAI_NONAME, dst)
                           else strcpy_checked dst hostlen (rd_inet_ntoa db addr))
             | Sa_in6 port addr \<Rightarrow>
                 if hostlen = 0 then Some (0, dst)
                 else (case inet_ntop usable fmt_buf tmp AF_INET6 addr dst hostlen of
                         None \<Rightarrow> None
                       | Some (Inl _, b) \<Rightarrow> Some (EAI_OVERFLOW, b)
                       | Some (Inr _, b) \<Rightarrow> Some (0, b))
             | Sa_other \<Rightarrow> Some (EAI_FAMILY, dst)))"

definition name_serv ::
    "revdb \<Rightarrow> (nat \<Rightarrow> nat ptr) \<Rightarrow> cbuf \<Rightarrow> u16 \<Rightarrow> cbuf ptr \<Rightarrow> nat \<Rightarrow> u32 \<Rightarrow> (int \<times> cbuf ptr) option" where
  "name_serv db usable fmt_buf port serv servlen flags =
     (case serv of
        NULL \<Rightarrow> Some (0, NULL)
      | Ptr dst \<Rightarrow>
          if servlen = 0 then Some (0, serv)
          else map_option (\<lambda>(e, b). (e, Ptr b))
            (let numeric = map_option (\<lambda>(n, b). (0, b)) (print_num usable fmt_buf dst servlen ''%d'' [unat port]) in
             if flag_set flags NI_NUMERICSERV then numeric
             else (case rd_getservbyport db port (if flag_set flags NI_DGRAM then ''udp'' else ''tcp'') of
                     Some name \<Rightarrow> strcpy_checked dst servlen name
                   | None \<Rightarrow> numeric)))"

definition getnameinfo ::
    "revdb \<Rightarrow> (nat \<Rightarrow> nat ptr) \<Rightarrow> cbuf \<Rightarrow> cbuf \<Rightarrow> sockaddr \<Rightarrow> cbuf ptr \<Rightarrow> nat \<Rightarrow> cbuf ptr \<Rightarrow> nat \<Rightarrow> u32 \<Rightarrow>
     (int \<times> cbuf ptr \<times> cbuf ptr) option" where
  "getnameinfo db usable fmt_buf tmp sa host hostlen serv servlen flags = do {
     (e, host) \<leftarrow> name_host db usable fmt_buf tmp sa host hostlen flags;
     if e \<noteq> 0 then Some (e, host, serv)
     else (case sa of
             Sa_other \<Rightarrow> Some (EAI_FAMILY, host, serv)
           | Sa_in port _ \<Rightarrow> map_option (\<lambda>(e, s). (e, host, s)) (name_serv db usable fmt_buf port serv servlen flags)
           | Sa_in6 port _ \<Rightarrow> map_option (\<lambda>(e, s). (e, host, s)) (name_serv db usable fmt_buf port serv servlen flags)) }"

section \<open>Interfaces\<close>

text \<open>
  The interface table of \<open>SIOCGIFCONF\<close>: \<open>None\<close> when the \<open>ioctl\<close> fails, otherwise the names and
  addresses in order; \<open>SIOCGIFFLAGS\<close> and \<open>SIOCGIFNETMASK\<close> by name. \<open>fds\<close> counts the descriptors
  that are open.
\<close>

record ifreq =
  ifr_name :: string
  ifr_addr :: sockaddr_in

record ifnet =
  if_socket :: bool
  if_conf :: "ifreq list option"
  if_flags :: "string \<Rightarrow> u32 option"
  if_mask :: "string \<Rightarrow> sockaddr_in option"

record ifaddrs =
  ifa_name :: "string ptr"
  ifa_flags :: u32
  ifa_addr :: "sockaddr_in ptr"
  ifa_netmask :: "sockaddr_in ptr"

definition block :: "'a ptr \<Rightarrow> heap \<Rightarrow> heap" where
  "block p h = (if p \<noteq> NULL then free h else h)"

text \<open>\<open>ifa_broadaddr\<close> is never set by \<open>getifaddrs\<close>, so there is nothing to free behind it.\<close>

fun freeifaddrs :: "ifaddrs list \<Rightarrow> heap \<Rightarrow> heap" where
  "freeifaddrs [] h = h"
| "freeifaddrs (ifa # next) h =
     freeifaddrs next (free (block (ifa_netmask ifa) (block (ifa_addr ifa) (block (ifa_name ifa) h))))"

definition mk_ifaddrs :: "ifnet \<Rightarrow> alloc_oracle \<Rightarrow> ifreq \<Rightarrow> heap \<Rightarrow> ifaddrs \<times> heap" where
  "mk_ifaddrs net ok r h =
     (let (got_name, h) = alloc ok h;
          flags = (case if_flags net (ifr_name r) of Some f \<Rightarrow> f | None \<Rightarrow> 0);
          (got_addr, h) = alloc ok h;
          (mask, h) = (case if_mask net (ifr_name r) of
                         None \<Rightarrow> (NULL, h)
                       | Some m \<Rightarrow> let (got, h) = alloc ok h in (if got then Ptr m else NULL, h))
      in (\<lparr>ifa_name = (if got_name then Ptr (ifr_name r) else NULL), ifa_flags = flags,
           ifa_addr = (if got_addr then Ptr (ifr_addr r) else NULL), ifa_netmask = mask\<rparr>, h))"

fun ifaddrs_loop :: "ifnet \<Rightarrow> alloc_oracle \<Rightarrow> ifreq list \<Rightarrow> ifaddrs list \<Rightarrow> heap \<Rightarrow> (errno + ifaddrs list) \<times> heap" where
  "ifaddrs_loop net ok [] head h = (Inr head, h)"
| "ifaddrs_loop net ok (r # rs) head h =
     (let (got, h) = alloc ok h in
      if \<not> got then (Inl ENOMEM, freeifaddrs head h)
      else let (ifa, h) = mk_ifaddrs net ok r h in ifaddrs_loop net ok rs (head @ [ifa]) h)"

text \<open>Result, heap, and open descriptors; \<open>Inl None\<close> keeps the \<open>errno\<close> of the failing call.\<close>

definition getifaddrs :: "ifnet \<Rightarrow> alloc_oracle \<Rightarrow> heap \<Rightarrow> nat \<Rightarrow> (errno option + ifaddrs list) \<times> heap \<times> nat" where
  "getifaddrs net ok h fds =
     (if \<not> if_socket net then (Inl None, h, fds)
      else let fds = fds + 1 in
        (case if_conf net of
           None \<Rightarrow> (Inl None, h, fds - 1)
         | Some rs \<Rightarrow>
             (case ifaddrs_loop net ok rs [] h of
                (Inl e, h) \<Rightarrow> (Inl (Some e), h, fds - 1)
              | (Inr l, h) \<Rightarrow> (Inr l, h, fds - 1))))"

fun name_index :: "string \<Rightarrow> ifreq list \<Rightarrow> nat \<Rightarrow> nat" where
  "name_index name [] i = 0"
| "name_index name (r # rs) i = (if ifr_name r = name then i + 1 else name_index name rs (i + 1))"

definition if_nametoindex :: "ifnet \<Rightarrow> string ptr \<Rightarrow> nat \<Rightarrow> nat \<times> nat" where
  "if_nametoindex net ifname fds =
     (case ifname of
        NULL \<Rightarrow> (0, fds)
      | Ptr name \<Rightarrow>
          if \<not> if_socket net then (0, fds)
          else let fds = fds + 1 in
            (case if_conf net of
               None \<Rightarrow> (0, fds - 1)
             | Some rs \<Rightarrow> (name_index name rs 0, fds - 1)))"

definition IFNAMSIZ :: nat where "IFNAMSIZ = 16"

text \<open>\<open>strncpy(ifname, name, IFNAMSIZ - 1); ifname[IFNAMSIZ - 1] = '\0'\<close>.\<close>

definition store_ifname :: "cbuf \<Rightarrow> string \<Rightarrow> cbuf option" where
  "store_ifname b name = do {
     b \<leftarrow> memcpy b 0 (take (IFNAMSIZ - 1) (name @ replicate (IFNAMSIZ - 1) NUL)) 0 (IFNAMSIZ - 1);
     wr b (IFNAMSIZ - 1) NUL }"

definition if_indextoname :: "ifnet \<Rightarrow> u32 \<Rightarrow> cbuf ptr \<Rightarrow> nat \<Rightarrow> (cbuf ptr \<times> nat) option" where
  "if_indextoname net ifindex ifname fds =
     (case ifname of
        NULL \<Rightarrow> Some (NULL, fds)
      | Ptr b \<Rightarrow>
          if ifindex = 0 then Some (NULL, fds)
          else if \<not> if_socket net then Some (NULL, fds)
          else let fds = fds + 1 in
            (case if_conf net of
               None \<Rightarrow> Some (NULL, fds - 1)
             | Some rs \<Rightarrow>
                 if sint ifindex \<le> int (length rs) then do {
                   r \<leftarrow> rd rs (unat (ifindex - 1));
                   b \<leftarrow> store_ifname b (ifr_name r);
                   Some (Ptr b, fds - 1) }
                 else Some (NULL, fds - 1)))"

section \<open>\<open>accept4\<close>\<close>

text \<open>
  A descriptor and its flags; \<open>accept\<close> yields a descriptor or fails, each \<open>fcntl\<close> may fail. The
  state is the set of open descriptors with their close-on-exec and status flags.
\<close>

record fdesc =
  cloexec :: bool
  status :: u32

definition SOCK_CLOEXEC :: u32 where "SOCK_CLOEXEC = 0x80000"
definition SOCK_NONBLOCK :: u32 where "SOCK_NONBLOCK = 0x800"
definition O_NONBLOCK :: u32 where "O_NONBLOCK = 0x80"

record fcntl_ok =
  f_setfd :: bool
  f_getfl :: bool
  f_setfl :: bool

definition accept4 :: "(int \<times> fdesc) option \<Rightarrow> fcntl_ok \<Rightarrow> u32 \<Rightarrow> (int \<rightharpoonup> fdesc) \<Rightarrow> int \<times> (int \<rightharpoonup> fdesc)" where
  "accept4 acc ok flags tab =
     (case acc of
        None \<Rightarrow> (-1, tab)
      | Some (fd, d) \<Rightarrow>
          let tab = tab(fd \<mapsto> d) in
          if flag_set flags SOCK_CLOEXEC \<and> \<not> f_setfd ok then (-1, tab(fd := None))
          else let d = (if flag_set flags SOCK_CLOEXEC then d\<lparr>cloexec := True\<rparr> else d); tab = tab(fd \<mapsto> d) in
            if flag_set flags SOCK_NONBLOCK then
              if \<not> f_getfl ok \<or> \<not> f_setfl ok then (-1, tab(fd := None))
              else (fd, tab(fd \<mapsto> d\<lparr>status := status d OR O_NONBLOCK\<rparr>))
            else (fd, tab))"

section \<open>Ownership of results\<close>

text \<open>The blocks a result list owns: its entries and their canonical names.\<close>

definition owned :: "addrinfo list \<Rightarrow> nat" where
  "owned l = sum_list (map (\<lambda>ai. if ai_canonname ai \<noteq> NULL then 2 else 1) l)"

definition if_owned :: "ifaddrs list \<Rightarrow> nat" where
  "if_owned l = sum_list (map (\<lambda>a. 1 + (if ifa_name a \<noteq> NULL then 1 else 0)
     + (if ifa_addr a \<noteq> NULL then 1 else 0) + (if ifa_netmask a \<noteq> NULL then 1 else 0)) l)"

lemma owned_simps [simp]:
  "owned [] = 0" "owned (a # l) = (if ai_canonname a \<noteq> NULL then 2 else 1) + owned l" "owned (l @ m) = owned l + owned m"
  by (simp_all add: owned_def)

lemma if_owned_simps [simp]:
  "if_owned [] = 0"
  "if_owned (a # l) = 1 + (if ifa_name a \<noteq> NULL then 1 else 0) + (if ifa_addr a \<noteq> NULL then 1 else 0)
     + (if ifa_netmask a \<noteq> NULL then 1 else 0) + if_owned l"
  "if_owned (l @ m) = if_owned l + if_owned m"
  by (simp_all add: if_owned_def)

lemma live_free [simp]: "live (free h) = live h - 1"
  by (simp add: free_def)

lemma alloc_live: "alloc ok h = (got, h') \<Longrightarrow> live h' = live h + (if got then 1 else 0)"
  by (auto simp: alloc_def)

lemma live_freeaddrinfo: "live (freeaddrinfo l h) = live h - owned l"
  by (induction l arbitrary: h) auto

lemma live_freeifaddrs: "live (freeifaddrs l h) = live h - if_owned l"
  by (induction l arbitrary: h) (auto simp: block_def)

text \<open>A resource that is released as a whole: what a locale of resource lists promises.\<close>

locale owned_list =
  fixes own :: "'a list \<Rightarrow> nat" and release :: "'a list \<Rightarrow> heap \<Rightarrow> heap"
  assumes release_live: "live (release l h) = live h - own l"
begin

lemma balanced: "live h' = live h + own l \<Longrightarrow> live (release l h') = live h"
  by (simp add: release_live)

end

interpretation ai: owned_list owned freeaddrinfo
  by unfold_locales (rule live_freeaddrinfo)

interpretation ifa: owned_list if_owned freeifaddrs
  by unfold_locales (rule live_freeifaddrs)

text \<open>The blocks behind a result: none after an error.\<close>

definition result_blocks :: "('a list \<Rightarrow> nat) \<Rightarrow> 'e + 'a list \<Rightarrow> nat" where
  "result_blocks own r = (case r of Inl _ \<Rightarrow> 0 | Inr l \<Rightarrow> own l)"

lemma result_blocks_simps [simp]: "result_blocks own (Inl e) = 0" "result_blocks own (Inr l) = own l"
  by (simp_all add: result_blocks_def)

lemma mk_addrinfo_canon [simp]: "ai_canonname (mk_addrinfo s p q a) = NULL"
  by (simp add: mk_addrinfo_def)

lemma host_loop_owned:
  "host_loop ok flags st pr port he i as head h = Some (r, h') \<Longrightarrow> live h = n + owned head \<Longrightarrow>
   live h' = n + result_blocks owned r"
proof (induction as arbitrary: i head h)
  case (Cons a as)
  obtain got h1 where a1: "alloc ok h = (got, h1)" by fastforce
  note l1 = alloc_live [OF a1]
  show ?case
  proof (cases got)
    case False
    then show ?thesis using Cons.prems a1 l1 by (auto simp: live_freeaddrinfo)
  next
    case True
    then obtain addr where m: "memcpy (replicate 4 0) 0 a 0 (h_length he) = Some addr"
      using Cons.prems(1) a1 by (auto split: option.splits)
    obtain got2 h2 where a2: "alloc ok h1 = (got2, h2)" by fastforce
    note l2 = alloc_live [OF a2]
    show ?thesis
    proof (cases "flag_set flags AI_CANONNAME \<and> i = 0 \<and> h_name he \<noteq> NULL")
      case c: True
      let ?ai = "(mk_addrinfo st pr port addr)\<lparr>ai_canonname := (if got2 then h_name he else NULL)\<rparr>"
      have "host_loop ok flags st pr port he (i + 1) as (head @ [?ai]) h2 = Some (r, h')"
        using Cons.prems(1) True m c a1 a2 by simp
      from Cons.IH [OF this] show ?thesis using Cons.prems(2) True l1 l2 c by simp
    next
      case c: False
      have "host_loop ok flags st pr port he (i + 1) as (head @ [mk_addrinfo st pr port addr]) h1 = Some (r, h')"
        using Cons.prems(1) True m c a1 by (auto split: if_splits)
      from Cons.IH [OF this] show ?thesis using Cons.prems(2) True l1 by simp
    qed
  qed
qed auto

lemma dup_loop_owned:
  "dup_loop ok ps udp h = (udp', h') \<Longrightarrow> live h' + owned udp = live h + owned udp'"
proof (induction ps arbitrary: udp h)
  case (Cons p ps)
  obtain got h1 where a: "alloc ok h = (got, h1)" by fastforce
  then show ?case
    using Cons.IH [of "udp @ [udp_of p]" h1] Cons.prems alloc_live [OF a]
    by (cases got) (auto simp: udp_of_def)
qed simp

lemma mk_ifaddrs_owned: "mk_ifaddrs net ok r h = (a, h') \<Longrightarrow> live h' + 1 = live h + if_owned [a]"
  by (auto simp: mk_ifaddrs_def Let_def alloc_def split: option.splits if_splits)

lemma ifaddrs_loop_owned:
  "ifaddrs_loop net ok rs head h = (r, h') \<Longrightarrow> live h = n + if_owned head \<Longrightarrow> live h' = n + result_blocks if_owned r"
proof (induction rs arbitrary: head h)
  case (Cons q rs)
  obtain got h1 where a: "alloc ok h = (got, h1)" by fastforce
  obtain i h2 where m: "mk_ifaddrs net ok q h1 = (i, h2)" by fastforce
  show ?case
    using Cons.IH [of "head @ [i]" h2] Cons.prems alloc_live [OF a] mk_ifaddrs_owned [OF m] a m
    by (cases got) (auto simp: live_freeifaddrs)
qed auto

lemma resolve_node_owned:
  assumes "resolve_node db ok node flags st pr port h = Some (r, early, h')"
  shows "live h' = live h + result_blocks owned r"
  using assms host_loop_owned [of ok flags st pr port _ 0 _ "[]" h r h' "live h"]
  by (auto simp: resolve_node_def Let_def alloc_def split: if_splits sum.splits option.splits ptr.splits)

section \<open>Properties\<close>

text \<open>
  C17. \<open>getaddrinfo\<close> neither leaks nor loses memory: whichever allocations fail, after an error no
  block it allocated is live, after a success exactly the blocks of the returned list are, and
  \<open>freeaddrinfo\<close> on that list returns the heap to where it was.
\<close>

theorem getaddrinfo_no_leak:
  assumes "getaddrinfo db ok node service hints h = Some (r, h')"
  shows "live h' = live h + result_blocks owned r
    \<and> (case r of Inl _ \<Rightarrow> live h' = live h | Inr l \<Rightarrow> live (freeaddrinfo l h') = live h)"
proof -
  have "live h' = live h + result_blocks owned r"
    using assms unfolding getaddrinfo_def Let_def
    by (auto split: if_splits sum.splits option.splits prod.splits dest!: resolve_node_owned dup_loop_owned)
  then show ?thesis using ai.balanced by (auto split: sum.split)
qed

definition sample_db :: netdb where
  "sample_db = \<lparr>nd_inet_aton = (\<lambda>_. None),
     nd_gethostbyname = (\<lambda>n. if n = ''sun'' then Inr \<lparr>h_name = Ptr ''sun.lan'', h_length = 4, h_addr_list = [[10, 0, 0, 1], [10, 0, 0, 2]]\<rparr>
                             else Inl HOST_NOT_FOUND),
     nd_getservbyname = (\<lambda>_ _. None)\<rparr>"

theorem getaddrinfo_no_leak_witness:
  "getaddrinfo sample_db (\<lambda>k. k \<noteq> 2) (Ptr ''sun'') (Ptr ''80'') (Ptr \<lparr>h_flags = 2, h_family = 0, h_socktype = 0, h_protocol = 0\<rparr>) \<lparr>live = 5, allocs = 0\<rparr>
     = Some (Inl EAI_MEMORY, \<lparr>live = 5, allocs = 3\<rparr>) \<and> (5 :: nat) = 5 + result_blocks owned (Inl EAI_MEMORY)"
proof -
  have r: "getaddrinfo sample_db (\<lambda>k. k \<noteq> 2) (Ptr ''sun'') (Ptr ''80'') (Ptr \<lparr>h_flags = 2, h_family = 0, h_socktype = 0, h_protocol = 0\<rparr>) \<lparr>live = 5, allocs = 0\<rparr>
     = Some (Inl EAI_MEMORY, \<lparr>live = 5, allocs = 3\<rparr>)" by code_simp
  from getaddrinfo_no_leak [OF r] show ?thesis using r by simp
qed

lemma host_loop_all:
  assumes "\<forall>k. ok k" "h_length he = 4"
  shows "list_all (\<lambda>a. length a = 4) as \<Longrightarrow>
    \<exists>L h'. host_loop ok flags st pr port he i as head h = Some (Inr (head @ L), h') \<and> length L = length as \<and>
      map (\<lambda>ai. ai_addr ai) L = map (\<lambda>a. \<lparr>sin_port = port, sin_addr = a\<rparr>) as \<and>
      list_all (\<lambda>ai. ai_family ai = AF_INET \<and> ai_socktype ai = (if st \<noteq> 0 then st else SOCK_STREAM) \<and> ai_protocol ai = pr) L"
proof (induction as arbitrary: i head h)
  case (Cons a as)
  obtain h1 where a1: "alloc ok h = (True, h1)" using assms(1) by (simp add: alloc_def)
  obtain h2 where a2: "alloc ok h1 = (True, h2)" using assms(1) by (simp add: alloc_def)
  have m: "memcpy (replicate 4 0) 0 a 0 (h_length he) = Some a" using Cons.prems assms(2) by (simp add: memcpy_def)
  let ?c = "flag_set flags AI_CANONNAME \<and> i = 0 \<and> h_name he \<noteq> NULL"
  define ai where "ai = (mk_addrinfo st pr port a)\<lparr>ai_canonname := (if ?c then h_name he else NULL)\<rparr>"
  have "host_loop ok flags st pr port he i (a # as) head h =
      host_loop ok flags st pr port he (i + 1) as (head @ [ai]) (if ?c then h2 else h1)"
    using a1 a2 m by (auto simp: ai_def mk_addrinfo_def)
  moreover obtain L h' where L: "host_loop ok flags st pr port he (i + 1) as (head @ [ai]) (if ?c then h2 else h1) = Some (Inr ((head @ [ai]) @ L), h')"
    "length L = length as" "map (\<lambda>ai. ai_addr ai) L = map (\<lambda>a. \<lparr>sin_port = port, sin_addr = a\<rparr>) as"
    "list_all (\<lambda>ai. ai_family ai = AF_INET \<and> ai_socktype ai = (if st \<noteq> 0 then st else SOCK_STREAM) \<and> ai_protocol ai = pr) L"
    using Cons.IH [of "i + 1" "head @ [ai]" "if ?c then h2 else h1"] Cons.prems by auto
  ultimately show ?case
    by (intro exI [of _ "ai # L"] exI [of _ h']) (simp add: ai_def mk_addrinfo_def)
qed simp

lemma dup_loop_all: "\<forall>k. ok k \<Longrightarrow> \<exists>h'. dup_loop ok ps udp h = (udp @ map udp_of ps, h')"
proof (induction ps arbitrary: udp h)
  case (Cons p ps)
  obtain h1 where "alloc ok h = (True, h1)" using Cons.prems by (simp add: alloc_def)
  with Cons.IH [OF Cons.prems, of "udp @ [udp_of p]" h1] show ?case by simp
qed simp

text \<open>
  For a host the database knows, with hints that leave the socket type open and memory at hand,
  \<open>getaddrinfo\<close> returns every address of the host in order, with the resolved port, once as a stream
  entry and, after all of those, once as a datagram entry with protocol UDP.
\<close>

lemma getaddrinfo_tcp_udp:
  assumes "nd_gethostbyname db n = Inr he" "h_length he = 4" "h_addr_list he \<noteq> []"
    and "list_all (\<lambda>a. length a = 4) (h_addr_list he)" "\<forall>k. ok k"
    and "resolve_service db service (h_flags hn) 0 = Inr port" "\<not> flag_set (h_flags hn) AI_NUMERICHOST"
    and "h_family hn \<in> {AF_UNSPEC, AF_INET}" "h_socktype hn = 0"
  shows "\<exists>L h'. getaddrinfo db ok (Ptr n) service (Ptr hn) h = Some (Inr (L @ map udp_of L), h')
    \<and> map ai_addr L = map (\<lambda>a. \<lparr>sin_port = port, sin_addr = a\<rparr>) (h_addr_list he)
    \<and> list_all (\<lambda>ai. ai_family ai = AF_INET \<and> ai_socktype ai = SOCK_STREAM \<and> ai_protocol ai = h_protocol hn) L"
proof -
  obtain L h1 where L: "host_loop ok (h_flags hn) 0 (h_protocol hn) port he 0 (h_addr_list he) [] h = Some (Inr L, h1)"
      "length L = length (h_addr_list he)" "map (\<lambda>ai. ai_addr ai) L = map (\<lambda>a. \<lparr>sin_port = port, sin_addr = a\<rparr>) (h_addr_list he)"
      "list_all (\<lambda>ai. ai_family ai = AF_INET \<and> ai_socktype ai = SOCK_STREAM \<and> ai_protocol ai = h_protocol hn) L"
    using host_loop_all [OF assms(5,2,4), of "h_flags hn" 0 "h_protocol hn" port 0 "[]" h] by auto
  then have "L \<noteq> []" using assms(3) by auto
  moreover obtain h2 where "dup_loop ok L [] h1 = (map udp_of L, h2)"
    using dup_loop_all [OF assms(5), of L "[]" h1] by auto
  ultimately show ?thesis
    using L assms by (auto simp: getaddrinfo_def resolve_node_def Let_def AF_UNSPEC_def AF_INET_def AF_INET6_def)
qed

theorem getaddrinfo_tcp_udp_witness:
  "\<exists>L h'. getaddrinfo sample_db (\<lambda>_. True) (Ptr ''sun'') (Ptr ''80'') (Ptr \<lparr>h_flags = 0, h_family = 0, h_socktype = 0, h_protocol = 6\<rparr>) \<lparr>live = 0, allocs = 0\<rparr>
       = Some (Inr (L @ map udp_of L), h')
     \<and> map ai_addr L = [\<lparr>sin_port = 80, sin_addr = [10, 0, 0, 1]\<rparr>, \<lparr>sin_port = 80, sin_addr = [10, 0, 0, 2]\<rparr>]"
proof -
  have "resolve_service sample_db (Ptr ''80'') 0 0 = Inr 80" by code_simp
  then show ?thesis
    using getaddrinfo_tcp_udp [of sample_db "''sun''" "\<lparr>h_name = Ptr ''sun.lan'', h_length = 4, h_addr_list = [[10, 0, 0, 1], [10, 0, 0, 2]]\<rparr>"
        "\<lambda>_. True" "Ptr ''80''" "\<lparr>h_flags = 0, h_family = 0, h_socktype = 0, h_protocol = 6\<rparr>" 80 "\<lparr>live = 0, allocs = 0\<rparr>"]
    by (fastforce simp: sample_db_def flag_set_def AF_UNSPEC_def)
qed

lemma host_loop_socktype:
  "host_loop ok flags st pr port he i as head h = Some (Inr L, h') \<Longrightarrow>
   list_all (\<lambda>ai. ai_socktype ai = (if st \<noteq> 0 then st else SOCK_STREAM)) head \<Longrightarrow>
   list_all (\<lambda>ai. ai_socktype ai = (if st \<noteq> 0 then st else SOCK_STREAM)) L"
proof (induction as arbitrary: i head h)
  case (Cons a as)
  obtain got h1 where a1: "alloc ok h = (got, h1)" by fastforce
  obtain got2 h2 where a2: "alloc ok h1 = (got2, h2)" by fastforce
  from Cons.prems(1) a1 have got: "got" by (cases got) auto
  with Cons.prems(1) a1 obtain addr where m: "memcpy (replicate 4 0) 0 a 0 (h_length he) = Some addr"
    by (cases "memcpy (replicate 4 0) 0 a 0 (h_length he)") auto
  let ?c = "flag_set flags AI_CANONNAME \<and> i = 0 \<and> h_name he \<noteq> NULL"
  obtain c h3 where "host_loop ok flags st pr port he (i + 1) as (head @ [(mk_addrinfo st pr port addr)\<lparr>ai_canonname := c\<rparr>]) h3 = Some (Inr L, h')"
    using Cons.prems(1) a1 a2 got m by (cases ?c) (auto simp: mk_addrinfo_def)
  from Cons.IH [OF this] Cons.prems(2) show ?case by (simp add: mk_addrinfo_def)
qed simp

text \<open>
  Without hints the results are not duplicated: every entry is a stream entry, although a null
  \<open>hints\<close> also leaves the socket type unspecified.
\<close>

lemma getaddrinfo_null_hints:
  assumes "getaddrinfo db ok node service NULL h = Some (Inr L, h')"
  shows "\<forall>ai \<in> set L. ai_socktype ai = SOCK_STREAM"
proof -
  obtain port early h1 where r: "resolve_node db ok node 0 0 0 port h = Some (Inr L, early, h1)"
    using assms by (auto simp: getaddrinfo_def AF_UNSPEC_def AF_INET6_def Let_def split: if_splits sum.splits option.splits)
  have "list_all (\<lambda>ai. ai_socktype ai = SOCK_STREAM) L"
  proof (cases node)
    case NULL
    then show ?thesis using r by (auto simp: resolve_node_def mk_addrinfo_def split: prod.splits if_splits)
  next
    case (Ptr n)
    then obtain he h2 where "host_loop ok 0 0 0 port he 0 (h_addr_list he) [] h = Some (Inr L, h2)"
      using r by (auto simp: resolve_node_def flag_set_def split: sum.splits)
    from host_loop_socktype [OF this] show ?thesis by simp
  qed
  then show ?thesis by (simp add: list_all_iff)
qed

theorem getaddrinfo_null_hints_witness:
  "\<exists>L h'. getaddrinfo sample_db (\<lambda>_. True) (Ptr ''sun'') (Ptr ''80'') NULL \<lparr>live = 0, allocs = 0\<rparr> = Some (Inr L, h')
     \<and> length L = 2 \<and> list_all (\<lambda>ai. ai_socktype ai = SOCK_STREAM) L"
proof -
  have l: "map_option (\<lambda>(r, _). map_sum id length r) (getaddrinfo sample_db (\<lambda>_. True) (Ptr ''sun'') (Ptr ''80'') NULL \<lparr>live = 0, allocs = 0\<rparr>) = Some (Inr 2)"
    by code_simp
  then obtain L h' where r: "getaddrinfo sample_db (\<lambda>_. True) (Ptr ''sun'') (Ptr ''80'') NULL \<lparr>live = 0, allocs = 0\<rparr> = Some (Inr L, h')"
    by (auto split: sum.splits) (metis map_sum.simps(1) old.sum.exhaust sum.distinct(1))
  with l getaddrinfo_null_hints [OF r] show ?thesis by (simp add: list_all_iff)
qed

text \<open>\<open>getifaddrs\<close>: memory and descriptors balance on every path.\<close>

lemma getifaddrs_no_leak:
  assumes "getifaddrs net ok h fds = (r, h', fds')"
  shows "fds' = fds \<and> live h' = live h + result_blocks if_owned r
    \<and> (case r of Inl _ \<Rightarrow> True | Inr l \<Rightarrow> live (freeifaddrs l h') = live h)"
proof -
  have "fds' = fds \<and> live h' = live h + result_blocks if_owned r"
    using assms
    by (auto simp: getifaddrs_def Let_def split: if_splits option.splits sum.splits prod.splits
        dest!: ifaddrs_loop_owned [where n = "live h"])
  then show ?thesis using ifa.balanced by (auto split: sum.split)
qed

lemma name_index_bound: "name_index name rs i = Suc k \<Longrightarrow> i \<le> k \<and> k - i < length rs \<and> ifr_name (rs ! (k - i)) = name"
proof (induction rs arbitrary: i)
  case (Cons r rs)
  show ?case
  proof (cases "ifr_name r = name")
    case False
    then have "name_index name rs (i + 1) = Suc k" using Cons.prems by simp
    note ih = Cons.IH [OF this]
    then have "k - i = Suc (k - Suc i)" by auto
    with ih show ?thesis by auto
  qed (use Cons.prems in auto)
qed simp

text \<open>
  Interface names and indices agree: an index \<open>if_nametoindex\<close> returns for a name (shorter than
  the 16-byte name array) is mapped back to that name by \<open>if_indextoname\<close>, and neither call leaks
  the socket it opens.
\<close>

lemma ifindex_round_trip:
  assumes "if_nametoindex net (Ptr name) fds = (k, fds1)" "k \<noteq> 0" "k < 2 ^ 31"
    and "wf_cstr name" "length name < IFNAMSIZ" "length b = IFNAMSIZ"
  shows "\<exists>b'. if_indextoname net (of_nat k) (Ptr b) fds = Some (Ptr b', fds) \<and> cstr b' 0 = name \<and> fds1 = fds"
proof -
  obtain rs where net: "if_socket net" "if_conf net = Some rs" "name_index name rs 0 = k" "fds1 = fds"
    using assms(1,2) by (auto simp: if_nametoindex_def Let_def split: if_splits option.splits)
  then obtain j where j: "k = Suc j" "j < length rs" "ifr_name (rs ! j) = name"
    using name_index_bound [of name rs 0 "k - 1"] assms(2) by (cases k) auto
  have k: "unat (of_nat k :: u32) = k" "unat (of_nat k - 1 :: u32) = j" "sint (of_nat k :: u32) = int k" "(of_nat k :: u32) \<noteq> 0"
  proof -
    show u: "unat (of_nat k :: u32) = k" using assms(3) by (simp add: unat_of_nat take_bit_nat_eq_self)
    have "(of_nat k - 1 :: u32) = of_nat j" using j(1) by simp
    then show "unat (of_nat k - 1 :: u32) = j" using assms(3) j(1) by (simp add: unat_of_nat take_bit_nat_eq_self)
    show "sint (of_nat k :: u32) = int k"
      using assms(3) by (simp add: sint_uint unsigned_of_nat signed_take_bit_eq_if_positive bit_iff_odd take_bit_nat_eq_self
          take_bit_int_eq_self)
    show "(of_nat k :: u32) \<noteq> 0" using u assms(2) by (metis unsigned_0)
  qed
  let ?n = "take 15 (name @ replicate 15 NUL)"
  have b: "store_ifname b name = Some (?n @ [NUL])"
  proof -
    have len: "length ?n = 15" by simp
    obtain x where "drop 15 b = [x]" using assms(6) by (cases "drop 15 b"; cases "tl (drop 15 b)") (auto simp: IFNAMSIZ_def dest: arg_cong [of _ _ length])
    then have "memcpy b 0 ?n 0 15 = Some (?n @ [x])" using assms(6) len by (simp add: IFNAMSIZ_def memcpy_def)
    then show ?thesis using len wr_append [of ?n x "[]" NUL] by (simp add: store_ifname_def IFNAMSIZ_def del: take_append)
  qed
  moreover have "cstr (?n @ [NUL]) 0 = name"
    using assms(4,5) by (cases "15 - length name") (simp_all add: IFNAMSIZ_def cstr_append_NUL)
  ultimately show ?thesis
    using net j k by (simp add: if_indextoname_def Let_def rd_def)
qed

definition sample_net :: ifnet where
  "sample_net = \<lparr>if_socket = True,
     if_conf = Some [\<lparr>ifr_name = ''lo0'', ifr_addr = \<lparr>sin_port = 0, sin_addr = [127, 0, 0, 1]\<rparr>\<rparr>,
                     \<lparr>ifr_name = ''hme0'', ifr_addr = \<lparr>sin_port = 0, sin_addr = [10, 0, 0, 1]\<rparr>\<rparr>],
     if_flags = (\<lambda>_. Some 0x41), if_mask = (\<lambda>_. None)\<rparr>"

theorem ifindex_round_trip_witness:
  "if_nametoindex sample_net (Ptr ''hme0'') 3 = (2, 3) \<and>
   (\<exists>b'. if_indextoname sample_net 2 (Ptr (replicate 16 NUL)) 3 = Some (Ptr b', 3) \<and> cstr b' 0 = ''hme0'')"
proof -
  have r: "if_nametoindex sample_net (Ptr ''hme0'') 3 = (2, 3)" by code_simp
  from ifindex_round_trip [OF r, of "replicate 16 NUL"] show ?thesis using r by (simp add: IFNAMSIZ_def)
qed

text \<open>
  \<open>if_indextoname\<close> compares the index as a signed number: for every index from \<open>2 ^ 31\<close> on the bound
  check passes and the interface table is read outside its bounds.
\<close>

lemma if_indextoname_large_index:
  assumes "0x80000000 \<le> ifindex" "if_socket net" "if_conf net = Some rs" "length rs < 2 ^ 31 - 1"
  shows "if_indextoname net ifindex (Ptr b) fds = None"
proof -
  have u: "2 ^ 31 \<le> unat ifindex" using assms(1) by (simp add: word_le_nat_alt)
  then have "ifindex \<noteq> 0" by auto
  then have "unat (ifindex - 1) = unat ifindex - 1" by (rule unat_minus_one)
  moreover have "sint ifindex < 0"
    using assms(1) uint_u32 [of ifindex] by (simp add: sint_u32 word_le_def)
  moreover have "\<not> unat ifindex - 1 < length rs" using u assms(4) by simp
  ultimately show ?thesis
    using assms(2,3) \<open>ifindex \<noteq> 0\<close> by (simp add: if_indextoname_def Let_def rd_def)
qed

theorem if_indextoname_large_index_witness:
  "if_indextoname sample_net 0xFFFFFFFF (Ptr (replicate 16 NUL)) 3 = None"
  by (rule if_indextoname_large_index [of _ _ "the (if_conf sample_net)"]) (simp_all add: sample_net_def)

text \<open>
  \<open>getnameinfo\<close> reports success although the numeric service does not fit: a port printed longer
  than the caller's buffer is silently cut off, while a service name of the same length is refused
  with \<open>EAI_OVERFLOW\<close>.
\<close>

lemma getnameinfo_truncates_port:
  assumes "heap_ok usable" "length fmt_buf = 2048" "flag_set flags NI_NUMERICSERV"
    and "0 < servlen" "servlen \<le> length serv" "servlen \<le> length (dec_of (unat port))"
  shows "getnameinfo db usable fmt_buf tmp (Sa_in port addr) NULL 0 (Ptr serv) servlen flags =
    Some (0, NULL, Ptr (take (servlen - 1) (dec_of (unat port)) @ NUL # drop servlen serv))"
proof -
  have "length (dec_of n) \<le> 5" if "n < 65536" for n
    using that by (subst dec_of.simps, subst dec_of.simps, subst dec_of.simps, subst dec_of.simps, subst dec_of.simps) auto
  then have len: "length (dec_of (unat port)) \<le> 5" using unat_u16 [of port] by simp
  have "print_num usable fmt_buf serv servlen ''%d'' [unat port] =
      Some (int (length (dec_of (unat port))), bounded_result serv (dec_of (unat port)) servlen)"
    using assms len by (intro print_num_ok) (auto simp: num_vsprintf_def rd_def)
  moreover have "bounded_result serv (dec_of (unat port)) servlen = take (servlen - 1) (dec_of (unat port)) @ NUL # drop servlen serv"
    using assms(4,6) by (simp add: bounded_result_def min_def)
  ultimately show ?thesis
    using assms by (simp add: getnameinfo_def name_host_def name_serv_def Let_def)
qed

theorem getnameinfo_truncates_port_witness:
  "getnameinfo \<lparr>rd_inet_ntoa = (\<lambda>_. []), rd_gethostbyaddr = (\<lambda>_. None), rd_getservbyport = (\<lambda>_ _. None)\<rparr> Ptr (replicate 2048 NUL) []
     (Sa_in 8080 [10, 0, 0, 1]) NULL 0 (Ptr ''xxx'') 3 NI_NUMERICSERV = Some (0, NULL, Ptr (''80'' @ [NUL]))"
proof -
  have d: "dec_of (unat (8080 :: u16)) = ''8080''" by (simp add: dec_of.simps hex_digit_def)
  have "heap_ok Ptr" "flag_set NI_NUMERICSERV NI_NUMERICSERV"
    by (simp_all add: heap_ok_def wf_usable_def flag_set_def NI_NUMERICSERV_def)
  from getnameinfo_truncates_port [OF this(1) length_replicate this(2), of 3 "''xxx''" 8080]
  show ?thesis unfolding d by simp
qed

text \<open>\<open>accept4\<close>: a descriptor is returned with all the flags asked for, or it is closed.\<close>

lemma accept4_flags:
  assumes "accept4 (Some (fd, d)) ok flags tab = (r, tab')" "tab fd = None" "0 \<le> fd"
  shows "r = -1 \<and> tab' = tab \<or>
    r = fd \<and> (\<exists>d'. tab' = tab(fd \<mapsto> d') \<and> (flag_set flags SOCK_CLOEXEC \<longrightarrow> cloexec d')
      \<and> (flag_set flags SOCK_NONBLOCK \<longrightarrow> status d' = status d OR O_NONBLOCK))"
  using assms by (auto simp: accept4_def Let_def fun_upd_idem split: if_splits)

end
