(* ===== verification/Qsort.thy ===== *)
theory Qsort
  imports Prelude "HOL-Library.Multiset"
begin

text \<open>
  \<open>qsort_r\<close> of \<open>src/src/stdlib.c\<close>: median-of-three Lomuto quicksort with insertion sort below a
  cutoff, on an array of bytes. The array is a list of bytes with checked accesses, slot \<open>i\<close> is
  the \<open>es\<close> bytes from \<open>i * es\<close> on, and the comparison function sees the bytes of two slots (its
  context argument is part of the function). \<open>None\<close> is an access outside the array.
\<close>

section \<open>The code\<close>

type_synonym cmpfn = "u8 list \<Rightarrow> u8 list \<Rightarrow> int"

fun qsort_swap_bytes :: "u8 list \<Rightarrow> nat \<Rightarrow> nat \<Rightarrow> nat \<Rightarrow> u8 list option" where
  "qsort_swap_bytes b l r 0 = Some b"
| "qsort_swap_bytes b l r (Suc n) = do {
     temp \<leftarrow> rd b l;
     v \<leftarrow> rd b r;
     b \<leftarrow> wr b l v;
     b \<leftarrow> wr b r temp;
     qsort_swap_bytes b (l + 1) (r + 1) n }"

definition elem :: "u8 list \<Rightarrow> nat \<Rightarrow> nat \<Rightarrow> u8 list" where
  "elem b es i = take es (drop (i * es) b)"

text \<open>\<open>compare_fn(base + i * element_size, base + j * element_size, context_arg)\<close>.\<close>

definition compare_at :: "u8 list \<Rightarrow> nat \<Rightarrow> cmpfn \<Rightarrow> nat \<Rightarrow> nat \<Rightarrow> int option" where
  "compare_at b es cmp i j =
     (if (i + 1) * es \<le> length b \<and> (j + 1) * es \<le> length b then Some (cmp (elem b es i) (elem b es j)) else None)"

definition swap_at :: "u8 list \<Rightarrow> nat \<Rightarrow> nat \<Rightarrow> nat \<Rightarrow> u8 list option" where
  "swap_at b es i j = qsort_swap_bytes b (i * es) (j * es) es"

fun insertion_inner :: "nat \<Rightarrow> cmpfn \<Rightarrow> nat \<Rightarrow> nat \<Rightarrow> u8 list \<Rightarrow> u8 list option" where
  "insertion_inner es cmp left_bound 0 b = Some b"
| "insertion_inner es cmp left_bound (Suc i) b =
     (if Suc i > left_bound then do {
        c \<leftarrow> compare_at b es cmp i (Suc i);
        if c > 0 then do {
          b \<leftarrow> swap_at b es i (Suc i);
          insertion_inner es cmp left_bound i b }
        else Some b }
      else Some b)"

function insertion_outer :: "nat \<Rightarrow> cmpfn \<Rightarrow> nat \<Rightarrow> nat \<Rightarrow> nat \<Rightarrow> u8 list \<Rightarrow> u8 list option" where
  "insertion_outer es cmp left_bound right_bound outer_index b =
     (if outer_index \<le> right_bound then do {
        b \<leftarrow> insertion_inner es cmp left_bound outer_index b;
        insertion_outer es cmp left_bound right_bound (outer_index + 1) b }
      else Some b)"
  by pat_completeness auto
termination
  by (relation "measure (\<lambda>(_, _, _, r, i, _). r + 1 - i)") auto

definition qsort_insertion_sort :: "nat \<Rightarrow> cmpfn \<Rightarrow> nat \<Rightarrow> nat \<Rightarrow> u8 list \<Rightarrow> u8 list option" where
  "qsort_insertion_sort es cmp left_bound right_bound b =
     insertion_outer es cmp left_bound right_bound (left_bound + 1) b"

function lomuto_scan :: "nat \<Rightarrow> cmpfn \<Rightarrow> nat \<Rightarrow> nat \<Rightarrow> nat \<Rightarrow> u8 list \<Rightarrow> (nat \<times> u8 list) option" where
  "lomuto_scan es cmp right_bound store_index scan_index b =
     (if scan_index < right_bound then do {
        c \<leftarrow> compare_at b es cmp scan_index right_bound;
        if c \<le> 0 then do {
          b \<leftarrow> swap_at b es store_index scan_index;
          lomuto_scan es cmp right_bound (store_index + 1) (scan_index + 1) b }
        else lomuto_scan es cmp right_bound store_index (scan_index + 1) b }
      else Some (store_index, b))"
  by pat_completeness auto
termination
  by (relation "measure (\<lambda>(_, _, r, _, i, _). r - i)") auto

declare insertion_outer.simps [simp del] lomuto_scan.simps [simp del]

definition qsort_lomuto_partition :: "nat \<Rightarrow> cmpfn \<Rightarrow> nat \<Rightarrow> nat \<Rightarrow> u8 list \<Rightarrow> (nat \<times> u8 list) option" where
  "qsort_lomuto_partition es cmp left_bound right_bound b = do {
     (store_index, b) \<leftarrow> lomuto_scan es cmp right_bound left_bound left_bound b;
     b \<leftarrow> swap_at b es store_index right_bound;
     Some (store_index, b) }"

text \<open>\<open>if (compare_fn(slot i, slot j) > 0) swap(slot i, slot j);\<close>\<close>

definition order_at :: "nat \<Rightarrow> cmpfn \<Rightarrow> nat \<Rightarrow> nat \<Rightarrow> u8 list \<Rightarrow> u8 list option" where
  "order_at es cmp i j b = do {
     c \<leftarrow> compare_at b es cmp i j;
     if c > 0 then swap_at b es i j else Some b }"

definition median_of_three :: "nat \<Rightarrow> cmpfn \<Rightarrow> nat \<Rightarrow> nat \<Rightarrow> u8 list \<Rightarrow> u8 list option" where
  "median_of_three es cmp left_bound right_bound b =
     (let mid_index = left_bound + (right_bound - left_bound) div 2 in do {
        b \<leftarrow> order_at es cmp left_bound mid_index b;
        b \<leftarrow> order_at es cmp left_bound right_bound b;
        b \<leftarrow> order_at es cmp mid_index right_bound b;
        swap_at b es mid_index right_bound })"

definition QSORT_INSERTION_CUTOFF :: nat where
  "QSORT_INSERTION_CUTOFF = 12"

lemma lomuto_scan_bounds:
  "lomuto_scan es cmp r s i b = Some (p, b') \<Longrightarrow> i \<le> r \<Longrightarrow> s \<le> p \<and> p \<le> s + (r - i)"
proof (induction es cmp r s i b rule: lomuto_scan.induct)
  case (1 es cmp r s i b)
  show ?case
  proof (cases "i < r")
    case True
    with "1.prems"(1) obtain c where c: "compare_at b es cmp i r = Some c"
      by (subst (asm) lomuto_scan.simps) (auto simp: bind_eq_Some_conv)
    show ?thesis
    proof (cases "c \<le> 0")
      case le: True
      then obtain b1 where b1: "swap_at b es s i = Some b1" "lomuto_scan es cmp r (s + 1) (i + 1) b1 = Some (p, b')"
        using "1.prems"(1) True c by (subst (asm) lomuto_scan.simps) (auto simp: bind_eq_Some_conv)
      show ?thesis using "1.IH"(1) [OF True c le b1] True by auto
    next
      case le: False
      then have "lomuto_scan es cmp r s (i + 1) b = Some (p, b')"
        using "1.prems"(1) True c by (subst (asm) lomuto_scan.simps) auto
      then show ?thesis using "1.IH"(2) [OF True c le] True by auto
    qed
  next
    case False
    then show ?thesis using "1.prems" by (subst (asm) lomuto_scan.simps) auto
  qed
qed

lemma partition_bounds:
  "qsort_lomuto_partition es cmp l r b = Some (p, b') \<Longrightarrow> l \<le> r \<Longrightarrow> l \<le> p \<and> p \<le> r"
  by (auto simp: qsort_lomuto_partition_def bind_eq_Some_conv dest: lomuto_scan_bounds)

function qsort_recursive :: "nat \<Rightarrow> cmpfn \<Rightarrow> nat \<Rightarrow> nat \<Rightarrow> u8 list \<Rightarrow> u8 list option" where
  "qsort_recursive es cmp left_bound right_bound b =
     (if left_bound \<ge> right_bound then Some b
      else if right_bound - left_bound + 1 \<le> QSORT_INSERTION_CUTOFF then
        qsort_insertion_sort es cmp left_bound right_bound b
      else
        (case median_of_three es cmp left_bound right_bound b of
           None \<Rightarrow> None
         | Some b \<Rightarrow>
             (case qsort_lomuto_partition es cmp left_bound right_bound b of
                None \<Rightarrow> None
              | Some (pivot_index, b) \<Rightarrow>
                  (case (if pivot_index > left_bound then qsort_recursive es cmp left_bound (pivot_index - 1) b else Some b) of
                     None \<Rightarrow> None
                   | Some b \<Rightarrow>
                       if pivot_index < right_bound then qsort_recursive es cmp (pivot_index + 1) right_bound b else Some b))))"
  by pat_completeness auto
termination
  by (relation "measure (\<lambda>(_, _, l, r, _). r - l)") (auto dest: partition_bounds)

declare qsort_recursive.simps [simp del]

definition qsort_r :: "u8 list \<Rightarrow> nat \<Rightarrow> nat \<Rightarrow> cmpfn \<Rightarrow> u8 list option" where
  "qsort_r base element_count element_size cmp =
     (if element_count \<le> 1 \<or> element_size = 0 then Some base
      else qsort_recursive element_size cmp 0 (element_count - 1) base)"

section \<open>From bytes to slots\<close>

definition list_swap :: "'a list \<Rightarrow> nat \<Rightarrow> nat \<Rightarrow> 'a list" where
  "list_swap xs i j = xs[i := xs ! j, j := xs ! i]"

definition slots :: "nat \<Rightarrow> nat \<Rightarrow> u8 list \<Rightarrow> u8 list list" where
  "slots es n b = map (elem b es) [0..<n]"

lemma length_slots [simp]: "length (slots es n b) = n"
  by (simp add: slots_def)

lemma nth_slots [simp]: "i < n \<Longrightarrow> slots es n b ! i = elem b es i"
  by (simp add: slots_def)

lemma length_list_swap [simp]: "length (list_swap xs i j) = length xs"
  by (simp add: list_swap_def)

lemma nth_list_swap:
  "i < length xs \<Longrightarrow> j < length xs \<Longrightarrow> k < length xs \<Longrightarrow>
   list_swap xs i j ! k = (if k = i then xs ! j else if k = j then xs ! i else xs ! k)"
  by (auto simp: list_swap_def nth_list_update)

lemma mset_list_swap [simp]: "i < length xs \<Longrightarrow> j < length xs \<Longrightarrow> mset (list_swap xs i j) = mset xs"
  using mset_swap [of j xs i] by (simp add: list_swap_def)

lemma swap_bytes_ok:
  "l + n \<le> length b \<Longrightarrow> r + n \<le> length b \<Longrightarrow> l = r \<or> l + n \<le> r \<or> r + n \<le> l \<Longrightarrow>
   \<exists>b'. qsort_swap_bytes b l r n = Some b' \<and> length b' = length b \<and>
     (\<forall>t < n. b' ! (l + t) = b ! (r + t) \<and> b' ! (r + t) = b ! (l + t)) \<and>
     (\<forall>k < length b. (k < l \<or> l + n \<le> k) \<longrightarrow> (k < r \<or> r + n \<le> k) \<longrightarrow> b' ! k = b ! k)"
proof (induction n arbitrary: b l r)
  case (Suc n)
  let ?b = "list_swap b l r"
  have bnd: "l < length b" "r < length b" using Suc.prems by auto
  have "l + 1 + n \<le> length ?b" "r + 1 + n \<le> length ?b" "l + 1 = r + 1 \<or> l + 1 + n \<le> r + 1 \<or> r + 1 + n \<le> l + 1"
    using Suc.prems by auto
  from Suc.IH [OF this] obtain b' where b': "qsort_swap_bytes ?b (l + 1) (r + 1) n = Some b'" "length b' = length b"
    "\<And>t. t < n \<Longrightarrow> b' ! (l + 1 + t) = ?b ! (r + 1 + t)" "\<And>t. t < n \<Longrightarrow> b' ! (r + 1 + t) = ?b ! (l + 1 + t)"
    "\<And>k. k < length b \<Longrightarrow> k < l + 1 \<or> l + 1 + n \<le> k \<Longrightarrow> k < r + 1 \<or> r + 1 + n \<le> k \<Longrightarrow> b' ! k = ?b ! k"
    by auto
  have "qsort_swap_bytes b l r (Suc n) = Some b'"
    using Suc.prems b'(1) by (simp add: rd_def wr_def list_swap_def)
  moreover have "b' ! (l + t) = b ! (r + t) \<and> b' ! (r + t) = b ! (l + t)" if "t < Suc n" for t
  proof (cases t)
    case 0
    have "b' ! l = ?b ! l" "b' ! r = ?b ! r" using b'(5) [of l] b'(5) [of r] bnd Suc.prems(3) by auto
    then show ?thesis using 0 bnd by (simp add: nth_list_swap)
  next
    case (Suc u)
    then have u: "u < n" using that by simp
    have "?b ! (r + 1 + u) = b ! (r + 1 + u)" "?b ! (l + 1 + u) = b ! (l + 1 + u)"
      using u Suc.prems bnd by (auto simp: nth_list_swap)
    then show ?thesis using b'(3,4) [OF u] Suc by simp
  qed
  moreover have "b' ! k = b ! k" if "k < length b" "k < l \<or> l + Suc n \<le> k" "k < r \<or> r + Suc n \<le> k" for k
    using b'(5) [of k] that bnd by (auto simp: nth_list_swap)
  ultimately show ?case using b'(2) by auto
qed auto

lemma slot_disjoint: "i \<noteq> j \<Longrightarrow> i * es + es \<le> j * es \<or> j * es + es \<le> i * (es :: nat)"
  by (metis add.commute linorder_neqE_nat mult_Suc mult_le_mono1 Suc_leI)

lemma slot_bound: "i < n \<Longrightarrow> i * es + es \<le> n * (es :: nat)"
  by (metis add.commute mult_Suc mult_le_mono1 Suc_leI)

lemma nth_elem: "i < n \<Longrightarrow> length b = n * es \<Longrightarrow> t < es \<Longrightarrow> elem b es i ! t = b ! (i * es + t)"
  using slot_bound [of i n es] by (simp add: elem_def)

lemma length_elem: "i < n \<Longrightarrow> length b = n * es \<Longrightarrow> length (elem b es i) = es"
  using slot_bound [of i n es] by (simp add: elem_def)

lemma swap_at_ok:
  assumes "i < n" "j < n" "length b = n * es"
  shows "\<exists>b'. swap_at b es i j = Some b' \<and> length b' = n * es \<and> slots es n b' = list_swap (slots es n b) i j"
proof -
  obtain b' where b': "qsort_swap_bytes b (i * es) (j * es) es = Some b'" "length b' = length b"
    "\<And>t. t < es \<Longrightarrow> b' ! (i * es + t) = b ! (j * es + t)" "\<And>t. t < es \<Longrightarrow> b' ! (j * es + t) = b ! (i * es + t)"
    "\<And>k. k < length b \<Longrightarrow> k < i * es \<or> i * es + es \<le> k \<Longrightarrow> k < j * es \<or> j * es + es \<le> k \<Longrightarrow> b' ! k = b ! k"
    using swap_bytes_ok [of "i * es" es b "j * es"] slot_bound [OF assms(1), of es] slot_bound [OF assms(2), of es]
      slot_disjoint [of i j es] assms(3) by (cases "i = j") auto
  have "elem b' es k = list_swap (slots es n b) i j ! k" if k: "k < n" for k
  proof -
    have "elem b' es k ! t = (list_swap (slots es n b) i j ! k) ! t" if t: "t < es" for t
    proof -
      have kt: "k * es + t < length b" using slot_bound [OF k, of es] t assms(3) by simp
      have "k \<noteq> i \<Longrightarrow> k * es + t < i * es \<or> i * es + es \<le> k * es + t"
        "k \<noteq> j \<Longrightarrow> k * es + t < j * es \<or> j * es + es \<le> k * es + t"
        using slot_disjoint [of k i es] slot_disjoint [of k j es] t by auto
      then show ?thesis
        using b'(3,4) [OF t] b'(5) [OF kt] k t assms b'(2) by (auto simp: nth_elem nth_list_swap)
    qed
    moreover have "length (list_swap (slots es n b) i j ! k) = es" "length (elem b' es k) = es"
      using k assms b'(2) by (simp_all add: nth_list_swap length_elem)
    ultimately show ?thesis by (intro nth_equalityI) auto
  qed
  then have "slots es n b' = list_swap (slots es n b) i j" by (intro nth_equalityI) auto
  with b' assms(3) show ?thesis by (simp add: swap_at_def)
qed

lemma compare_at_ok: "i < n \<Longrightarrow> j < n \<Longrightarrow> length b = n * es \<Longrightarrow>
   compare_at b es cmp i j = Some (cmp (slots es n b ! i) (slots es n b ! j))"
  using slot_bound [of i n es] slot_bound [of j n es] by (simp add: compare_at_def add.commute)

section \<open>Rearrangements of a range\<close>

text \<open>The slots of \<open>[l .. r]\<close> are permuted, all others stay; this holds for every comparison function.\<close>

definition rearranged :: "nat \<Rightarrow> nat \<Rightarrow> 'a list \<Rightarrow> 'a list \<Rightarrow> bool" where
  "rearranged l r xs ys \<longleftrightarrow> length ys = length xs \<and> mset ys = mset xs \<and>
     (\<forall>k < length xs. k < l \<or> r < k \<longrightarrow> ys ! k = xs ! k)"

lemma rearranged_refl [simp, intro]: "rearranged l r xs xs"
  by (simp add: rearranged_def)

lemma rearranged_trans: "rearranged l r xs ys \<Longrightarrow> rearranged l r ys zs \<Longrightarrow> rearranged l r xs zs"
  by (auto simp: rearranged_def)

lemma rearranged_mono: "rearranged l r xs ys \<Longrightarrow> l' \<le> l \<Longrightarrow> r \<le> r' \<Longrightarrow> rearranged l' r' xs ys"
  by (auto simp: rearranged_def)

lemma rearranged_swap: "l \<le> i \<Longrightarrow> i \<le> r \<Longrightarrow> l \<le> j \<Longrightarrow> j \<le> r \<Longrightarrow> r < length xs \<Longrightarrow> rearranged l r xs (list_swap xs i j)"
  by (auto simp: rearranged_def nth_list_swap)

text \<open>The contents of the range are the same multiset, hence the same set.\<close>

lemma range_split: "l \<le> r \<Longrightarrow> r < length xs \<Longrightarrow> xs = take l xs @ take (r + 1 - l) (drop l xs) @ drop (r + 1) xs"
  by (metis append_take_drop_id drop_drop le_add_diff_inverse2 le_add1 trans_le_add1 add.commute)

lemma rearranged_range:
  assumes "rearranged l r xs ys" "l \<le> r" "r < length xs"
  shows "mset (take (r + 1 - l) (drop l ys)) = mset (take (r + 1 - l) (drop l xs))"
proof -
  have len: "length ys = length xs" using assms(1) by (simp add: rearranged_def)
  have "take l ys = take l xs" "drop (r + 1) ys = drop (r + 1) xs"
    using assms by (auto simp: rearranged_def intro!: nth_equalityI)
  moreover have "mset ys = mset xs" using assms(1) by (simp add: rearranged_def)
  ultimately have "mset (take l xs) + mset (take (r + 1 - l) (drop l ys)) + mset (drop (r + 1) xs) =
      mset (take l xs) + mset (take (r + 1 - l) (drop l xs)) + mset (drop (r + 1) xs)"
    using range_split [OF assms(2), of xs] range_split [OF assms(2), of ys] assms(3) len
    by (metis mset_append add.assoc)
  then show ?thesis by simp
qed

lemma rearranged_in_range:
  assumes "rearranged l r xs ys" "r < length xs" "l \<le> k" "k \<le> r"
  obtains i where "l \<le> i" "i \<le> r" "ys ! k = xs ! i"
proof -
  have len: "length ys = length xs" using assms(1) by (simp add: rearranged_def)
  have "ys ! k \<in> set (take (r + 1 - l) (drop l ys))"
    using assms len by (auto simp: in_set_conv_nth intro!: exI [of _ "k - l"])
  also have "\<dots> = set (take (r + 1 - l) (drop l xs))"
    using rearranged_range [OF assms(1)] assms by (metis le_trans mset_eq_setD)
  finally obtain t where "t < r + 1 - l" "ys ! k = xs ! (l + t)"
    using assms by (auto simp: in_set_conv_nth)
  then show ?thesis using that [of "l + t"] by auto
qed

text \<open>An operation on the array that returns and only rearranges the slots of a range.\<close>

definition moves :: "nat \<Rightarrow> nat \<Rightarrow> nat \<Rightarrow> nat \<Rightarrow> u8 list \<Rightarrow> u8 list option \<Rightarrow> bool" where
  "moves es n l r b res \<longleftrightarrow> (\<exists>b'. res = Some b' \<and> length b' = n * es \<and> rearranged l r (slots es n b) (slots es n b'))"

lemma movesE:
  assumes "moves es n l r b res"
  obtains b' where "res = Some b'" "length b' = n * es" "rearranged l r (slots es n b) (slots es n b')"
  using assms by (auto simp: moves_def)

lemma moves_refl [simp]: "length b = n * es \<Longrightarrow> moves es n l r b (Some b)"
  by (simp add: moves_def)

lemma moves_bind:
  assumes "moves es n l r b x" "\<And>b'. x = Some b' \<Longrightarrow> length b' = n * es \<Longrightarrow> moves es n l r b' (f b')"
  shows "moves es n l r b (x \<bind> f)"
  using assms by (fastforce simp: moves_def intro: rearranged_trans)

lemma moves_mono: "moves es n l r b x \<Longrightarrow> l' \<le> l \<Longrightarrow> r \<le> r' \<Longrightarrow> moves es n l' r' b x"
  by (auto simp: moves_def intro: rearranged_mono)

lemma moves_swap:
  assumes "l \<le> i" "i \<le> r" "l \<le> j" "j \<le> r" "r < n" "length b = n * es"
  shows "moves es n l r b (swap_at b es i j)"
proof -
  have "i < n" "j < n" using assms by auto
  from swap_at_ok [OF this assms(6)] show ?thesis using assms by (auto simp: moves_def rearranged_swap)
qed

lemma moves_order:
  assumes "l \<le> i" "i \<le> r" "l \<le> j" "j \<le> r" "r < n" "length b = n * es"
  shows "moves es n l r b (order_at es cmp i j b)"
proof -
  have "i < n" "j < n" using assms by auto
  then show ?thesis using moves_swap [OF assms] assms(6) by (simp add: order_at_def compare_at_ok)
qed

lemma moves_insertion_inner:
  "left_bound \<le> r \<Longrightarrow> i \<le> r \<Longrightarrow> r < n \<Longrightarrow> length b = n * es \<Longrightarrow> moves es n left_bound r b (insertion_inner es cmp left_bound i b)"
proof (induction i arbitrary: b)
  case (Suc i)
  show ?case
  proof (cases "Suc i > left_bound \<and> cmp (slots es n b ! i) (slots es n b ! Suc i) > 0")
    case True
    then have "insertion_inner es cmp left_bound (Suc i) b = swap_at b es i (Suc i) \<bind> insertion_inner es cmp left_bound i"
      using Suc.prems by (simp add: compare_at_ok [of i n "Suc i"] del: nth_slots)
    then show ?thesis
      using Suc True by (auto intro!: moves_bind moves_swap)
  next
    case False
    then show ?thesis using Suc.prems by (auto simp: compare_at_ok [of i n "Suc i"] simp del: nth_slots)
  qed
qed simp

lemma moves_insertion_outer:
  "left_bound < i \<Longrightarrow> r < n \<Longrightarrow> length b = n * es \<Longrightarrow> moves es n left_bound r b (insertion_outer es cmp left_bound r i b)"
proof (induction es cmp left_bound r i b rule: insertion_outer.induct)
  case (1 es cmp l r i b)
  then show ?case
    by (subst insertion_outer.simps) (auto intro!: moves_bind moves_insertion_inner)
qed

lemma moves_median:
  assumes "l \<le> r" "r < n" "length b = n * es"
  shows "moves es n l r b (median_of_three es cmp l r b)"
  using assms by (auto simp: median_of_three_def Let_def intro!: moves_bind moves_order moves_swap)

section \<open>Partitioning\<close>

lemma lomuto_scan_ok:
  "l \<le> s \<Longrightarrow> s \<le> i \<Longrightarrow> i \<le> r \<Longrightarrow> r < n \<Longrightarrow> length b = n * es \<Longrightarrow>
   (\<forall>k. l \<le> k \<and> k < s \<longrightarrow> cmp (slots es n b ! k) (slots es n b ! r) \<le> 0) \<Longrightarrow>
   (\<forall>k. s \<le> k \<and> k < i \<longrightarrow> cmp (slots es n b ! k) (slots es n b ! r) > 0) \<Longrightarrow>
   \<exists>p b'. lomuto_scan es cmp r s i b = Some (p, b') \<and> l \<le> p \<and> p \<le> r \<and> length b' = n * es \<and>
     rearranged l r (slots es n b) (slots es n b') \<and> slots es n b' ! r = slots es n b ! r \<and>
     (\<forall>k. l \<le> k \<and> k < p \<longrightarrow> cmp (slots es n b' ! k) (slots es n b' ! r) \<le> 0) \<and>
     (\<forall>k. p \<le> k \<and> k < r \<longrightarrow> cmp (slots es n b' ! k) (slots es n b' ! r) > 0)"
proof (induction es cmp r s i b rule: lomuto_scan.induct)
  case (1 es cmp r s i b)
  let ?xs = "slots es n b"
  show ?case
  proof (cases "i < r")
    case True
    have c: "compare_at b es cmp i r = Some (cmp (?xs ! i) (?xs ! r))" using True "1.prems" by (intro compare_at_ok) auto
    show ?thesis
    proof (cases "cmp (?xs ! i) (?xs ! r) \<le> 0")
      case le: True
      have sn: "s < n" "i < n" using True "1.prems" by auto
      obtain b1 where b1: "swap_at b es s i = Some b1" "length b1 = n * es" "slots es n b1 = list_swap ?xs s i"
        using swap_at_ok [OF sn "1.prems"(5)] by auto
      have nth: "slots es n b1 ! k = (if k = s then ?xs ! i else if k = i then ?xs ! s else ?xs ! k)" if "k < n" for k
        unfolding b1(3) using sn that by (intro nth_list_swap) auto
      have r: "slots es n b1 ! r = ?xs ! r" using nth [of r] True "1.prems"(2,4) by simp
      have "\<forall>k. l \<le> k \<and> k < s + 1 \<longrightarrow> cmp (slots es n b1 ! k) (slots es n b1 ! r) \<le> 0"
        using le "1.prems"(2,4,6) nth r sn by (auto simp: less_Suc_eq)
      moreover have "\<forall>k. s + 1 \<le> k \<and> k < i + 1 \<longrightarrow> cmp (slots es n b1 ! k) (slots es n b1 ! r) > 0"
        using "1.prems"(2,4,7) nth r sn by (auto simp: less_Suc_eq)
      moreover have "l \<le> s + 1" "s + 1 \<le> i + 1" "i + 1 \<le> r" using "1.prems"(1,2) True by auto
      ultimately obtain p b' where p: "lomuto_scan es cmp r (s + 1) (i + 1) b1 = Some (p, b')" "l \<le> p" "p \<le> r" "length b' = n * es"
        "rearranged l r (slots es n b1) (slots es n b')" "slots es n b' ! r = slots es n b1 ! r"
        "\<forall>k. l \<le> k \<and> k < p \<longrightarrow> cmp (slots es n b' ! k) (slots es n b' ! r) \<le> 0"
        "\<forall>k. p \<le> k \<and> k < r \<longrightarrow> cmp (slots es n b' ! k) (slots es n b' ! r) > 0"
        using "1.IH"(1) [OF True c le b1(1)] "1.prems"(4) b1(2) by blast
      have "rearranged l r ?xs (slots es n b1)"
        unfolding b1(3) using "1.prems" True by (intro rearranged_swap) auto
      then have "rearranged l r ?xs (slots es n b')" using p(5) rearranged_trans by blast
      moreover have "lomuto_scan es cmp r s i b = Some (p, b')"
        by (subst lomuto_scan.simps) (use p(1) in \<open>simp add: True c le b1(1) del: nth_slots\<close>)
      ultimately show ?thesis using p r by metis
    next
      case gt: False
      have "\<forall>k. s \<le> k \<and> k < i + 1 \<longrightarrow> cmp (?xs ! k) (?xs ! r) > 0" using gt "1.prems"(7) by (auto simp: less_Suc_eq)
      moreover have "lomuto_scan es cmp r s i b = lomuto_scan es cmp r s (i + 1) b"
        by (subst lomuto_scan.simps) (simp add: True c gt del: nth_slots)
      moreover have "s \<le> i + 1" "i + 1 \<le> r" using "1.prems"(2) True by auto
      ultimately show ?thesis using "1.IH"(2) [OF True c gt "1.prems"(1)] "1.prems"(4-6) by presburger
    qed
  next
    case False
    then have ir: "i = r" using "1.prems"(3) by simp
    have "lomuto_scan es cmp r s i b = Some (s, b)" using False by (subst lomuto_scan.simps) simp
    then show ?thesis using "1.prems" ir by (intro exI [of _ s] exI [of _ b]) auto
  qed
qed

lemma partition_ok:
  assumes "l \<le> r" "r < n" "length b = n * es"
  shows "\<exists>p b'. qsort_lomuto_partition es cmp l r b = Some (p, b') \<and> l \<le> p \<and> p \<le> r \<and> length b' = n * es \<and>
     rearranged l r (slots es n b) (slots es n b') \<and>
     (\<forall>k. l \<le> k \<and> k < p \<longrightarrow> cmp (slots es n b' ! k) (slots es n b' ! p) \<le> 0) \<and>
     (\<forall>k. p < k \<and> k \<le> r \<longrightarrow> cmp (slots es n b' ! k) (slots es n b' ! p) > 0)"
proof -
  obtain p b1 where s: "lomuto_scan es cmp r l l b = Some (p, b1)" "l \<le> p" "p \<le> r" "length b1 = n * es"
    "rearranged l r (slots es n b) (slots es n b1)"
    "\<forall>k. l \<le> k \<and> k < p \<longrightarrow> cmp (slots es n b1 ! k) (slots es n b1 ! r) \<le> 0"
    "\<forall>k. p \<le> k \<and> k < r \<longrightarrow> cmp (slots es n b1 ! k) (slots es n b1 ! r) > 0"
    using lomuto_scan_ok [of l l l r n b es cmp] assms by auto
  have pn: "p < n" "r < n" using s(3) assms(2) by auto
  obtain b2 where b2: "swap_at b1 es p r = Some b2" "length b2 = n * es" "slots es n b2 = list_swap (slots es n b1) p r"
    using swap_at_ok [OF pn s(4)] by auto
  have nth: "slots es n b2 ! k = (if k = p then slots es n b1 ! r else if k = r then slots es n b1 ! p else slots es n b1 ! k)" if "k < n" for k
    unfolding b2(3) using pn that by (intro nth_list_swap) auto
  have "rearranged l r (slots es n b) (slots es n b2)"
    unfolding b2(3) using s(2,3,5) assms(2) rearranged_trans rearranged_swap by (metis assms(1) le_refl length_slots)
  moreover have "\<forall>k. l \<le> k \<and> k < p \<longrightarrow> cmp (slots es n b2 ! k) (slots es n b2 ! p) \<le> 0"
    using s(6,3) nth pn by auto
  moreover have "\<forall>k. p < k \<and> k \<le> r \<longrightarrow> cmp (slots es n b2 ! k) (slots es n b2 ! p) > 0"
    using s(7) nth pn by (auto simp: le_less)
  ultimately show ?thesis
    using s(1,2,3) b2(1,2) by (intro exI [of _ p] exI [of _ b2]) (simp add: qsort_lomuto_partition_def)
qed

lemma moves_qsort_recursive:
  "r < n \<Longrightarrow> length b = n * es \<Longrightarrow> moves es n l r b (qsort_recursive es cmp l r b)"
proof (induction es cmp l r b rule: qsort_recursive.induct)
  case (1 es cmp l r b)
  show ?case
  proof (cases "l \<ge> r \<or> r - l + 1 \<le> QSORT_INSERTION_CUTOFF")
    case True
    then show ?thesis
      using "1.prems" by (subst qsort_recursive.simps) (auto simp: qsort_insertion_sort_def intro: moves_insertion_outer)
  next
    case False
    then have c: "\<not> r \<le> l" "\<not> r - l + 1 \<le> QSORT_INSERTION_CUTOFF" by auto
    obtain b1 where b1: "median_of_three es cmp l r b = Some b1" "length b1 = n * es" "rearranged l r (slots es n b) (slots es n b1)"
      using moves_median [of l r n b es cmp] c "1.prems" by (auto elim!: movesE)
    obtain p b2 where b2: "qsort_lomuto_partition es cmp l r b1 = Some (p, b2)" "l \<le> p" "p \<le> r" "length b2 = n * es"
      "rearranged l r (slots es n b1) (slots es n b2)"
      using partition_ok [of l r n b1 es cmp] c "1.prems" b1 by auto
    obtain b3 where b3: "(if p > l then qsort_recursive es cmp l (p - 1) b2 else Some b2) = Some b3" "length b3 = n * es"
      "rearranged l r (slots es n b2) (slots es n b3)"
    proof (cases "p > l")
      case True
      have "moves es n l (p - 1) b2 (qsort_recursive es cmp l (p - 1) b2)"
        using "1.IH"(1) [OF c b1(1) b2(1) refl True] b2 "1.prems" by simp
      then have "moves es n l r b2 (qsort_recursive es cmp l (p - 1) b2)"
        using b2(3) moves_mono by (metis diff_le_self le_refl le_trans)
      then show ?thesis using that True by (auto elim!: movesE)
    qed (use that b2 in auto)
    have "moves es n l r b3 (if p < r then qsort_recursive es cmp (p + 1) r b3 else Some b3)"
    proof (cases "p < r")
      case True
      have "moves es n (p + 1) r b3 (qsort_recursive es cmp (p + 1) r b3)"
        using "1.IH"(2) [OF c b1(1) b2(1) refl b3(1) True] b3(2) "1.prems" by simp
      then show ?thesis using moves_mono [of es n "p + 1" r b3 _ l r] b2(2) True by auto
    qed (use b3 in auto)
    then obtain b4 where b4: "(if p < r then qsort_recursive es cmp (p + 1) r b3 else Some b3) = Some b4" "length b4 = n * es"
      "rearranged l r (slots es n b3) (slots es n b4)" by (rule movesE)
    have "qsort_recursive es cmp l r b = Some b4"
      by (subst qsort_recursive.simps) (simp only: c b1(1) b2(1) b3(1) b4(1) if_False option.case prod.case)
    then show ?thesis
      unfolding moves_def using b4 b3(3) b2(5) b1(3) rearranged_trans by metis
  qed
qed

section \<open>Sortedness\<close>

definition total_preorder :: "cmpfn \<Rightarrow> bool" where
  "total_preorder cmp \<longleftrightarrow> (\<forall>x y. cmp x y \<le> 0 \<or> cmp y x \<le> 0) \<and>
     (\<forall>x y z. cmp x y \<le> 0 \<longrightarrow> cmp y z \<le> 0 \<longrightarrow> cmp x z \<le> 0)"

lemma total_preorderD:
  assumes "total_preorder cmp"
  shows "cmp x y > 0 \<Longrightarrow> cmp y x \<le> 0" "cmp x y \<le> 0 \<Longrightarrow> cmp y z \<le> 0 \<Longrightarrow> cmp x z \<le> 0"
  using assms by (fastforce simp: total_preorder_def)+

definition ordered :: "cmpfn \<Rightarrow> nat \<Rightarrow> nat \<Rightarrow> u8 list list \<Rightarrow> bool" where
  "ordered cmp l r xs \<longleftrightarrow> (\<forall>i j. l \<le> i \<and> i < j \<and> j \<le> r \<longrightarrow> cmp (xs ! i) (xs ! j) \<le> 0)"

text \<open>While an element sinks to its place, only the pairs that end in it may be out of order.\<close>

definition sinking :: "cmpfn \<Rightarrow> nat \<Rightarrow> nat \<Rightarrow> nat \<Rightarrow> u8 list list \<Rightarrow> bool" where
  "sinking cmp l m i xs \<longleftrightarrow> (\<forall>a c. l \<le> a \<and> a < c \<and> c \<le> m \<and> c \<noteq> i \<longrightarrow> cmp (xs ! a) (xs ! c) \<le> 0)"

lemma sinking_done:
  assumes "total_preorder cmp" "sinking cmp l m i xs" "i = l \<or> l < i \<and> cmp (xs ! (i - 1)) (xs ! i) \<le> 0"
  shows "ordered cmp l m xs"
  unfolding ordered_def
proof (intro allI impI, elim conjE)
  fix a c assume ac: "l \<le> a" "a < c" "c \<le> m"
  show "cmp (xs ! a) (xs ! c) \<le> 0"
  proof (cases "c = i")
    case False
    then show ?thesis using assms(2) ac by (auto simp: sinking_def)
  next
    case True
    then have i: "l < i" "cmp (xs ! (i - 1)) (xs ! i) \<le> 0" using assms(3) ac by auto
    show ?thesis
    proof (cases "a = i - 1")
      case False
      then have "a < i - 1" using ac True by auto
      moreover have "i - 1 \<le> m" "i - 1 \<noteq> i" using ac True by auto
      ultimately have "cmp (xs ! a) (xs ! (i - 1)) \<le> 0" using assms(2) ac(1) unfolding sinking_def by blast
      then show ?thesis using i total_preorderD(2) [OF assms(1)] True by blast
    qed (use i True in simp)
  qed
qed

lemma sinking_swap:
  assumes "total_preorder cmp" "sinking cmp l m (Suc i) xs" "l \<le> i" "Suc i \<le> m" "m < length xs"
    and "cmp (xs ! i) (xs ! Suc i) > 0"
  shows "sinking cmp l m i (list_swap xs i (Suc i))"
  unfolding sinking_def
proof (intro allI impI, elim conjE)
  fix a c assume ac: "l \<le> a" "a < c" "c \<le> m" "c \<noteq> i"
  have s: "cmp (xs ! a) (xs ! c) \<le> 0" if "l \<le> a" "a < c" "c \<le> m" "c \<noteq> Suc i" for a c
    using assms(2) that by (auto simp: sinking_def)
  have nth: "list_swap xs i (Suc i) ! k = (if k = i then xs ! Suc i else if k = Suc i then xs ! i else xs ! k)" if "k \<le> m" for k
    using assms that by (intro nth_list_swap) auto
  have am: "a \<le> m" using ac by simp
  have o: "cmp (xs ! Suc i) (xs ! i) \<le> 0" using total_preorderD(1) [OF assms(1,6)] .
  consider "c = Suc i" "a = i" | "c = Suc i" "a < i" | "c \<noteq> Suc i" "a = i" | "c \<noteq> Suc i" "a = Suc i" | "c \<noteq> Suc i" "a \<noteq> i" "a \<noteq> Suc i"
    using ac by linarith
  then show "cmp (list_swap xs i (Suc i) ! a) (list_swap xs i (Suc i) ! c) \<le> 0"
  proof cases
    case 3
    then have "i < c" "c \<noteq> Suc i" using ac by auto
    then have ic: "cmp (xs ! i) (xs ! c) \<le> 0" using s [of i c] ac assms(3) by auto
    then have "cmp (xs ! Suc i) (xs ! c) \<le> 0" using total_preorderD(2) [OF assms(1) o] by blast
    then show ?thesis using 3 ac nth [OF am] nth [OF ac(3)] by simp
  next
    case 4
    then have "cmp (xs ! i) (xs ! c) \<le> 0" using s [of i c] ac assms(3) by auto
    then show ?thesis using 4 ac nth [OF am] nth [OF ac(3)] by simp
  qed (use s ac o nth [OF am] nth [OF ac(3)] assms(4) in auto)
qed

lemma insertion_inner_sorted:
  assumes "total_preorder cmp"
  shows "sinking cmp l m i (slots es n b) \<Longrightarrow> l \<le> i \<Longrightarrow> i \<le> m \<Longrightarrow> m < n \<Longrightarrow> length b = n * es \<Longrightarrow>
    insertion_inner es cmp l i b = Some b' \<Longrightarrow> ordered cmp l m (slots es n b')"
proof (induction i arbitrary: b)
  case 0
  then show ?case using sinking_done [OF assms, of l m 0 "slots es n b"] by auto
next
  case (Suc i)
  let ?xs = "slots es n b"
  have c: "compare_at b es cmp i (Suc i) = Some (cmp (?xs ! i) (?xs ! Suc i))" using Suc.prems by (intro compare_at_ok) auto
  show ?case
  proof (cases "Suc i > l \<and> cmp (?xs ! i) (?xs ! Suc i) > 0")
    case True
    have n: "i < n" "Suc i < n" using Suc.prems by auto
    obtain b1 where b1: "swap_at b es i (Suc i) = Some b1" "length b1 = n * es" "slots es n b1 = list_swap ?xs i (Suc i)"
      using swap_at_ok [OF n Suc.prems(5)] by auto
    have "insertion_inner es cmp l i b1 = Some b'" using Suc.prems(6) True c b1(1) by (simp del: nth_slots)
    moreover have "sinking cmp l m i (slots es n b1)"
      unfolding b1(3) using True Suc.prems by (intro sinking_swap [OF assms]) auto
    ultimately show ?thesis using Suc.IH [of b1] True Suc.prems b1(2) by auto
  next
    case False
    then have "b' = b" using Suc.prems(6) c by (auto simp del: nth_slots split: if_splits)
    moreover have "Suc i = l \<or> l < Suc i" using Suc.prems(2) by auto
    ultimately show ?thesis using False sinking_done [OF assms Suc.prems(1)] by auto
  qed
qed

lemma insertion_outer_sorted:
  "total_preorder cmp \<Longrightarrow> ordered cmp l (i - 1) (slots es n b) \<Longrightarrow> l < i \<Longrightarrow> i \<le> r + 1 \<Longrightarrow> r < n \<Longrightarrow> length b = n * es \<Longrightarrow>
   insertion_outer es cmp l r i b = Some b' \<Longrightarrow> ordered cmp l r (slots es n b')"
proof (induction es cmp l r i b rule: insertion_outer.induct)
  case (1 es cmp l r i b)
  show ?case
  proof (cases "i \<le> r")
    case True
    obtain b1 where b1: "insertion_inner es cmp l i b = Some b1" "length b1 = n * es"
      using moves_insertion_inner [of l r i n b es cmp] True "1.prems" by (auto elim!: movesE)
    have "sinking cmp l i i (slots es n b)" using "1.prems"(2,3) by (auto simp: sinking_def ordered_def)
    then have "ordered cmp l i (slots es n b1)"
      using insertion_inner_sorted [OF "1.prems"(1) _ _ _ _ _ b1(1)] True "1.prems" by auto
    moreover have "insertion_outer es cmp l r (i + 1) b1 = Some b'"
      using "1.prems"(7) True b1(1) by (subst (asm) insertion_outer.simps) simp
    ultimately show ?thesis using "1.IH" [OF True b1(1)] True "1.prems" b1(2) by simp
  next
    case False
    then have "i = r + 1" "b' = b" using "1.prems" by (auto simp: insertion_outer.simps)
    then show ?thesis using "1.prems" by simp
  qed
qed

lemma ordered_split:
  assumes "total_preorder cmp" "ordered cmp l (p - 1) xs \<or> p = l" "ordered cmp (p + 1) r xs \<or> p = r" "l \<le> p" "p \<le> r"
    and "\<forall>k. l \<le> k \<and> k < p \<longrightarrow> cmp (xs ! k) (xs ! p) \<le> 0" "\<forall>k. p < k \<and> k \<le> r \<longrightarrow> cmp (xs ! p) (xs ! k) \<le> 0"
  shows "ordered cmp l r xs"
  unfolding ordered_def
proof (intro allI impI, elim conjE)
  fix i j assume ij: "l \<le> i" "i < j" "j \<le> r"
  consider "j < p" | "j = p" | "i = p" | "i < p" "p < j" | "p < i" using ij by linarith
  then show "cmp (xs ! i) (xs ! j) \<le> 0"
  proof cases
    case 1
    then show ?thesis using assms(2) ij by (auto simp: ordered_def)
  next
    case 4
    then show ?thesis using assms(6,7) ij total_preorderD(2) [OF assms(1), of "xs ! i" "xs ! p" "xs ! j"] by auto
  next
    case 5
    then show ?thesis using assms(3) ij by (auto simp: ordered_def)
  qed (use assms(6,7) ij in auto)
qed

lemma ordered_cong: "(\<And>k. l \<le> k \<Longrightarrow> k \<le> r \<Longrightarrow> ys ! k = xs ! k) \<Longrightarrow> ordered cmp l r xs = ordered cmp l r ys"
  by (auto simp: ordered_def)

text \<open>A part of the array that is only rearranged keeps any bound its elements satisfy.\<close>

lemma rearranged_all:
  assumes "rearranged l r xs ys" "r < length xs" "\<forall>k. l \<le> k \<and> k \<le> r \<longrightarrow> P (xs ! k)"
  shows "\<forall>k. l \<le> k \<and> k \<le> r \<longrightarrow> P (ys ! k)"
  using assms rearranged_in_range [OF assms(1,2)] by metis

lemma qsort_recursive_sorted:
  "total_preorder cmp \<Longrightarrow> l \<le> r \<Longrightarrow> r < n \<Longrightarrow> length b = n * es \<Longrightarrow> qsort_recursive es cmp l r b = Some b' \<Longrightarrow>
   ordered cmp l r (slots es n b')"
proof (induction es cmp l r b arbitrary: b' rule: qsort_recursive.induct)
  case (1 es cmp l r b)
  show ?case
  proof (cases "l \<ge> r \<or> r - l + 1 \<le> QSORT_INSERTION_CUTOFF")
    case True
    show ?thesis
    proof (cases "l \<ge> r")
      case False
      then have "insertion_outer es cmp l r (l + 1) b = Some b'"
        using True "1.prems"(5) by (subst (asm) qsort_recursive.simps) (auto simp: qsort_insertion_sort_def)
      then show ?thesis
        using insertion_outer_sorted [of cmp l "l + 1" es n b r b'] "1.prems" False by (auto simp: ordered_def)
    qed (use "1.prems"(2) in \<open>auto simp: ordered_def\<close>)
  next
    case False
    then have c: "\<not> r \<le> l" "\<not> r - l + 1 \<le> QSORT_INSERTION_CUTOFF" by auto
    obtain b1 where b1: "median_of_three es cmp l r b = Some b1" "length b1 = n * es"
      using moves_median [of l r n b es cmp] c "1.prems" by (auto elim!: movesE)
    obtain p b2 where b2: "qsort_lomuto_partition es cmp l r b1 = Some (p, b2)" "l \<le> p" "p \<le> r" "length b2 = n * es"
      "\<forall>k. l \<le> k \<and> k < p \<longrightarrow> cmp (slots es n b2 ! k) (slots es n b2 ! p) \<le> 0"
      "\<forall>k. p < k \<and> k \<le> r \<longrightarrow> cmp (slots es n b2 ! k) (slots es n b2 ! p) > 0"
      using partition_ok [of l r n b1 es cmp] c "1.prems" b1 by auto
    obtain b3 where b3: "(if p > l then qsort_recursive es cmp l (p - 1) b2 else Some b2) = Some b3" "length b3 = n * es"
      "rearranged l (p - 1) (slots es n b2) (slots es n b3)"
    proof (cases "p > l")
      case True
      have "moves es n l (p - 1) b2 (qsort_recursive es cmp l (p - 1) b2)"
        using b2(3,4) "1.prems"(3) by (intro moves_qsort_recursive) auto
      then show ?thesis using that True by (auto elim!: movesE)
    qed (use that b2(4) in auto)
    let ?rec = "if p < r then qsort_recursive es cmp (p + 1) r b3 else Some b3"
    have b4: "?rec = Some b'"
      using "1.prems"(5) by (subst (asm) qsort_recursive.simps) (simp only: c b1(1) b2(1) b3(1) if_False option.case prod.case)
    have r4: "length b' = n * es" "rearranged (p + 1) r (slots es n b3) (slots es n b')"
      using moves_qsort_recursive [of r n b3 es "p + 1" cmp] b3 b4 "1.prems"(3) by (cases "p < r"; auto elim!: movesE)+
    let ?x2 = "slots es n b2" and ?x3 = "slots es n b3" and ?x4 = "slots es n b'"
    have same3: "?x3 ! k = ?x2 ! k" if "p \<le> k" "k \<le> r" "l < p" for k using b3(3) that "1.prems"(3) by (auto simp: rearranged_def)
    have same3': "?x3 = ?x2" if "\<not> l < p" using b3(1) that by simp
    have x3: "?x3 ! k = ?x2 ! k" if "p \<le> k" "k \<le> r" for k using same3 same3' that by (cases "l < p") auto
    have x4: "?x4 ! k = ?x3 ! k" if "k \<le> p" for k using r4(2) that b2(3) "1.prems"(3) by (auto simp: rearranged_def)
    have left3: "\<forall>k. l \<le> k \<and> k \<le> p - 1 \<longrightarrow> l < p \<longrightarrow> cmp (?x3 ! k) (?x2 ! p) \<le> 0"
    proof (rule rearranged_all [OF b3(3)])
      show "p - 1 < length ?x2" using b2(3) "1.prems"(3) by simp
      show "\<forall>k. l \<le> k \<and> k \<le> p - 1 \<longrightarrow> l < p \<longrightarrow> cmp (?x2 ! k) (?x2 ! p) \<le> 0"
        using b2(5) by (auto simp del: nth_slots)
    qed
    have right4: "\<forall>k. p + 1 \<le> k \<and> k \<le> r \<longrightarrow> cmp (?x4 ! k) (?x2 ! p) > 0"
      using rearranged_all [OF r4(2), of "\<lambda>x. cmp x (?x2 ! p) > 0"] b2(6) "1.prems"(3) x3 by auto
    have "\<forall>k. l \<le> k \<and> k < p \<longrightarrow> cmp (?x4 ! k) (?x4 ! p) \<le> 0"
      using left3 x4 x3 [of p] b2(3) by auto
    moreover have "\<forall>k. p < k \<and> k \<le> r \<longrightarrow> cmp (?x4 ! p) (?x4 ! k) \<le> 0"
      using right4 x4 [of p] x3 [of p] b2(3) total_preorderD(1) [OF "1.prems"(1)] by (metis Suc_eq_plus1 Suc_leI le_refl)
    moreover have "ordered cmp l (p - 1) ?x4 \<or> p = l"
    proof (cases "l < p")
      case True
      then have "qsort_recursive es cmp l (p - 1) b2 = Some b3" using b3(1) by simp
      then have "ordered cmp l (p - 1) ?x3"
        using "1.IH"(1) [OF c b1(1) b2(1) refl True "1.prems"(1)] True b2(3,4) "1.prems"(3) by auto
      then show ?thesis using ordered_cong [of l "p - 1" ?x4 ?x3 cmp] x4 by auto
    qed (use b2(2) in auto)
    moreover have "ordered cmp (p + 1) r ?x4 \<or> p = r"
    proof (cases "p < r")
      case True
      then have "qsort_recursive es cmp (p + 1) r b3 = Some b'" using b4 by simp
      then show ?thesis
        using "1.IH"(2) [OF c b1(1) b2(1) refl b3(1) True "1.prems"(1)] True b3(2) "1.prems"(3) by auto
    qed (use b2(3) in auto)
    ultimately show ?thesis using ordered_split [OF "1.prems"(1)] b2(2,3) by blast
  qed
qed

section \<open>Properties\<close>

text \<open>
  C7. \<open>qsort_r\<close> is safe for every comparison function, consistent or not: it returns, never touches a
  byte outside the array, and the elements afterwards are a permutation of the elements before.
\<close>

theorem qsort_r_permutes:
  assumes "length base = element_count * element_size"
  shows "\<exists>b'. qsort_r base element_count element_size cmp = Some b' \<and> length b' = length base
    \<and> mset (slots element_size element_count b') = mset (slots element_size element_count base)"
proof (cases "element_count \<le> 1 \<or> element_size = 0")
  case True
  then show ?thesis by (auto simp: qsort_r_def)
next
  case False
  then have "moves element_size element_count 0 (element_count - 1) base
      (qsort_recursive element_size cmp 0 (element_count - 1) base)"
    using assms by (intro moves_qsort_recursive) auto
  then show ?thesis using False assms by (auto simp: qsort_r_def rearranged_def elim!: movesE)
qed

theorem qsort_r_permutes_witness:
  "\<exists>b'. qsort_r [3, 1, 2] 3 1 (\<lambda>_ _. 1) = Some b' \<and> length b' = length [3, 1, 2 :: u8]
     \<and> mset (slots 1 3 b') = mset (slots 1 3 [3, 1, 2])"
  by (rule qsort_r_permutes) simp

text \<open>
  C6. \<open>qsort_r\<close> sorts: for every comparison function that is a total preorder the elements afterwards are
  in order.
\<close>

theorem qsort_r_sorts:
  assumes "length base = element_count * element_size" "total_preorder cmp" "0 < element_size"
  shows "\<exists>b'. qsort_r base element_count element_size cmp = Some b'
    \<and> sorted_wrt (\<lambda>x y. cmp x y \<le> 0) (slots element_size element_count b')"
proof (cases "element_count \<le> 1")
  case True
  then show ?thesis
    by (cases element_count) (auto simp: qsort_r_def slots_def)
next
  case False
  then have n: "0 \<le> element_count - 1" "element_count - 1 < element_count" by auto
  obtain b' where b': "qsort_recursive element_size cmp 0 (element_count - 1) base = Some b'"
    using moves_qsort_recursive [OF n(2) assms(1), of 0 cmp] by (rule movesE)
  have "ordered cmp 0 (element_count - 1) (slots element_size element_count b')"
    using qsort_recursive_sorted [OF assms(2) n assms(1) b'] .
  then have "sorted_wrt (\<lambda>x y. cmp x y \<le> 0) (slots element_size element_count b')"
    using False by (auto simp: ordered_def sorted_wrt_iff_nth_less simp del: nth_slots)
  then show ?thesis using b' False assms(3) by (auto simp: qsort_r_def)
qed

theorem qsort_r_sorts_witness:
  "\<exists>b'. qsort_r [0, 9, 0, 7, 0, 8] 3 2 (\<lambda>x y. sint (x ! 1) - sint (y ! 1)) = Some b'
     \<and> sorted_wrt (\<lambda>x y. sint (x ! 1) - sint (y ! 1) \<le> 0) (slots 2 3 b')"
  by (rule qsort_r_sorts) (auto simp: total_preorder_def)

end
