(* ===== verification/Environ.thy ===== *)
theory Environ
  imports Prelude
begin

text \<open>
  The environment and temporary directories, \<open>src/src/stdlib.c\<close> (\<open>setenv\<close>, \<open>unsetenv\<close>,
  \<open>secure_getenv\<close>, \<open>mkdtemp\<close>), and \<open>timegm\<close> of \<open>src/src/clock.c\<close>, which is a client of the
  environment.

  \<open>environ\<close> is the array of its entry pointers with the terminating null. \<open>putenv\<close> belongs to
  the operating system and is a parameter; \<open>wf_putenv\<close> states its documented effect on the array.
  Whether an allocation succeeds is a parameter of the operation that makes it.
\<close>

section \<open>The environment\<close>

type_synonym environ = "string ptr list"

text \<open>The entries before the first null pointer.\<close>

fun entries :: "environ \<Rightarrow> string list" where
  "entries [] = []"
| "entries (NULL # r) = []"
| "entries (Ptr s # r) = s # entries r"

text \<open>\<open>strncmp(entry, name, strlen(name)) == 0 && entry[strlen(name)] == '='\<close>.\<close>

definition names :: "string \<Rightarrow> string \<Rightarrow> bool" where
  "names name entry \<longleftrightarrow> take (length name) entry = name \<and> cat entry (length name) = Some CHR ''=''"

definition getenv :: "string \<Rightarrow> environ \<Rightarrow> string option" where
  "getenv name e = map_option (drop (length name + 1)) (List.find (names name) (entries e))"

definition bad_name :: "string ptr \<Rightarrow> bool" where
  "bad_name name = (case name of NULL \<Rightarrow> True | Ptr n \<Rightarrow> n = [] \<or> CHR ''='' \<in> set n)"

type_synonym putenv_fn = "string \<Rightarrow> environ \<Rightarrow> environ option"

text \<open>The result code, \<open>errno\<close> when it is set here, and the environment.\<close>

definition setenv :: "putenv_fn \<Rightarrow> bool \<Rightarrow> string ptr \<Rightarrow> string \<Rightarrow> bool \<Rightarrow> environ \<Rightarrow> int \<times> errno option \<times> environ" where
  "setenv putenv malloc_ok name value overwrite e =
     (if bad_name name then (-1, Some EINVAL, e)
      else case name of
        NULL \<Rightarrow> (-1, Some EINVAL, e)
      | Ptr n \<Rightarrow>
          if \<not> overwrite \<and> getenv n e \<noteq> None then (0, None, e)
          else if \<not> malloc_ok then (-1, Some ENOMEM, e)
          else (case putenv (n @ ''='' @ value) e of
                  None \<Rightarrow> (-1, None, e)
                | Some e' \<Rightarrow> (0, None, e')))"

text \<open>The compaction loop over the array with its read and write cursors.\<close>

function unsetenv_loop :: "string \<Rightarrow> environ \<Rightarrow> nat \<Rightarrow> nat \<Rightarrow> environ option" where
  "unsetenv_loop name e ep dp =
     (case rd e ep of
        None \<Rightarrow> None
      | Some NULL \<Rightarrow> wr e dp NULL
      | Some (Ptr s) \<Rightarrow>
          if names name s then unsetenv_loop name e (ep + 1) dp
          else (case wr e dp (Ptr s) of
                  None \<Rightarrow> None
                | Some e' \<Rightarrow> unsetenv_loop name e' (ep + 1) (dp + 1)))"
  by pat_completeness auto
termination
  by (relation "measure (\<lambda>(_, e, ep, _). length e - ep)") (auto simp: rd_def wr_def split: if_splits)

declare unsetenv_loop.simps [simp del]

definition unsetenv :: "string ptr \<Rightarrow> environ \<Rightarrow> (int \<times> errno option \<times> environ) option" where
  "unsetenv name e =
     (if bad_name name then Some (-1, Some EINVAL, e)
      else case name of
        NULL \<Rightarrow> Some (-1, Some EINVAL, e)
      | Ptr n \<Rightarrow> map_option (\<lambda>e'. (0, None, e')) (unsetenv_loop n e 0 0))"

record ids =
  uid :: nat
  euid :: nat
  gid :: nat
  egid :: nat

definition secure_getenv :: "ids \<Rightarrow> string \<Rightarrow> environ \<Rightarrow> string option" where
  "secure_getenv p name e = (if uid p \<noteq> euid p \<or> gid p \<noteq> egid p then None else getenv name e)"

section \<open>\<open>timegm\<close>\<close>

text \<open>
  \<open>mktime\<close> reads the time zone from the environment: it is a function of the value of \<open>TZ\<close>. The
  flags say whether \<open>strdup\<close> and the allocations of the two \<open>setenv\<close> calls succeed.
\<close>

definition timegm ::
    "putenv_fn \<Rightarrow> (string option \<Rightarrow> 'tm \<Rightarrow> int) \<Rightarrow> bool \<Rightarrow> bool \<Rightarrow> bool \<Rightarrow> 'tm \<Rightarrow> environ \<Rightarrow> (int \<times> environ) option" where
  "timegm putenv mktime dup_ok set_ok restore_ok tm e =
     (let tz_env = getenv ''TZ'' e;
          saved_tz = (if dup_ok then tz_env else None);
          (_, _, e) = setenv putenv set_ok (Ptr ''TZ'') ''UTC'' True e;
          result = mktime (getenv ''TZ'' e) tm
      in case saved_tz of
           Some tz \<Rightarrow> (case setenv putenv restore_ok (Ptr ''TZ'') tz True e of (_, _, e) \<Rightarrow> Some (result, e))
         | None \<Rightarrow> map_option (\<lambda>(_, _, e). (result, e)) (unsetenv (Ptr ''TZ'') e))"

section \<open>\<open>mkdtemp\<close>\<close>

definition TMPNAM_ALPHABET :: string where
  "TMPNAM_ALPHABET = ''ABCDEFGHIJKLMNOPQRSTUVWXYZabcdefghijklmnopqrstuvwxyz0123456789''"

text \<open>The fallback generator; \<open>unsigned long\<close> has 32 bits.\<close>

fun lcg_bytes :: "nat \<Rightarrow> u32 \<Rightarrow> u8 list" where
  "lcg_bytes 0 seed = []"
| "lcg_bytes (Suc n) seed =
     (let seed = seed * 1103515245 + 12345 in ucast (drop_bit 16 seed) # lcg_bytes n seed)"

unbundle bit_operations_syntax

definition mkdtemp_fill_suffix :: "u8 list option \<Rightarrow> u32 \<Rightarrow> u32 \<Rightarrow> nat \<Rightarrow> string" where
  "mkdtemp_fill_suffix entropy time pid retry_count =
     (let bytes = (case entropy of
                     Some bs \<Rightarrow> take 6 bs
                   | None \<Rightarrow> lcg_bytes 6 ((time XOR (pid * 2654435761)) XOR (of_nat retry_count * 16777619)))
      in map (\<lambda>b. TMPNAM_ALPHABET ! (unat b mod 62)) bytes)"

text \<open>
  What the loop needs from outside, per attempt: six bytes of \<open>getentropy\<close> or its failure, the
  clock, and what \<open>mkdir\<close> answers for a path.
\<close>

record mkenv =
  mk_entropy :: "nat \<Rightarrow> u8 list option"
  mk_time :: "nat \<Rightarrow> u32"
  mk_pid :: u32
  mk_mkdir :: "nat \<Rightarrow> string \<Rightarrow> errno option"

text \<open>The attempts left, the paths given to \<open>mkdir\<close> so far, and the outcome.\<close>

fun mkdtemp_loop :: "mkenv \<Rightarrow> string \<Rightarrow> nat \<Rightarrow> string list \<Rightarrow> (errno + string) \<times> string list" where
  "mkdtemp_loop m stem 0 tried = (Inl EEXIST, tried)"
| "mkdtemp_loop m stem (Suc left) tried =
     (let attempt = 1000 - Suc left;
          path = stem @ mkdtemp_fill_suffix (mk_entropy m attempt) (mk_time m attempt) (mk_pid m) attempt
      in case mk_mkdir m attempt path of
           None \<Rightarrow> (Inr path, tried @ [path])
         | Some err \<Rightarrow> if err \<noteq> EEXIST then (Inl err, tried @ [path]) else mkdtemp_loop m stem left (tried @ [path]))"

definition mkdtemp :: "mkenv \<Rightarrow> string ptr \<Rightarrow> (errno + string) \<times> string list" where
  "mkdtemp m tmpl =
     (case tmpl of
        NULL \<Rightarrow> (Inl EINVAL, [])
      | Ptr t \<Rightarrow>
          if length t < 6 then (Inl EINVAL, [])
          else if drop (length t - 6) t \<noteq> ''XXXXXX'' then (Inl EINVAL, [])
          else mkdtemp_loop m (take (length t - 6) t) 1000 [])"

section \<open>Names and entries\<close>

definition good_name :: "string \<Rightarrow> bool" where
  "good_name n \<longleftrightarrow> n \<noteq> [] \<and> CHR ''='' \<notin> set n"

definition wf_environ :: "environ \<Rightarrow> bool" where
  "wf_environ e \<longleftrightarrow> NULL \<in> set e"

lemma names_iff: "names n s \<longleftrightarrow> (\<exists>v. s = n @ CHR ''='' # v)"
proof
  assume "names n s"
  then have t: "take (length n) s = n" and c: "cat s (length n) = Some CHR ''=''" by (auto simp: names_def)
  have len: "length n < length s" using cat_nonNUL [OF c] by simp
  then have "s ! length n = CHR ''=''" using c by (simp add: cat_def)
  then have "drop (length n) s = CHR ''='' # drop (length n + 1) s" using len by (simp add: Cons_nth_drop_Suc [symmetric])
  then have "s = n @ CHR ''='' # drop (length n + 1) s" using t by (metis append_take_drop_id)
  then show "\<exists>v. s = n @ CHR ''='' # v" by blast
qed (auto simp: names_def cat_def)

lemma names_unique: "good_name m \<Longrightarrow> good_name n \<Longrightarrow> names m s \<Longrightarrow> names n s \<Longrightarrow> m = n"
proof -
  have tw: "takeWhile (\<lambda>c. c \<noteq> CHR ''='') (k @ CHR ''='' # v) = k" if "good_name k" for k v
    using that by (auto simp: good_name_def takeWhile_append)
  assume "good_name m" "good_name n" "names m s" "names n s"
  then show "m = n" using tw by (metis names_iff)
qed

lemma names_self [simp]: "names n (n @ CHR ''='' # v)"
  by (auto simp: names_iff)

lemma good_name_iff: "\<not> bad_name (Ptr n) \<longleftrightarrow> good_name n"
  by (auto simp: bad_name_def good_name_def)

text \<open>An array with a terminator splits into its entries and the rest.\<close>

lemma wf_environE:
  assumes "wf_environ e"
  obtains r where "e = map Ptr (entries e) @ NULL # r"
proof -
  have "\<exists>r. e = map Ptr (entries e) @ NULL # r"
    using assms unfolding wf_environ_def by (induction e rule: entries.induct) auto
  then show ?thesis using that by blast
qed

lemma entries_append [simp]: "entries (map Ptr ss @ NULL # r) = ss"
  by (induction ss) auto

section \<open>Removal\<close>

lemma unsetenv_loop_filter:
  "\<exists>r'. unsetenv_loop n (map Ptr ks @ gap @ map Ptr ss @ NULL # r) (length ks + length gap) (length ks) =
     Some (map Ptr (ks @ filter (\<lambda>s. \<not> names n s) ss) @ NULL # r')"
proof (induction ss arbitrary: ks gap)
  case Nil
  have "rd (map Ptr ks @ gap @ NULL # r) (length ks + length gap) = Some NULL"
    by (simp add: rd_def nth_append)
  then show ?case
    by (subst unsetenv_loop.simps) (cases gap; auto simp: wr_def list_update_append)
next
  case (Cons s ss)
  have rd: "rd (map Ptr ks @ gap @ map Ptr (s # ss) @ NULL # r) (length ks + length gap) = Some (Ptr s)"
    by (simp add: rd_def nth_append)
  show ?case
  proof (cases "names n s")
    case True
    then show ?thesis
      using rd Cons.IH [of ks "gap @ [Ptr s]"] by (subst unsetenv_loop.simps) auto
  next
    case False
    show ?thesis
    proof (cases gap)
      case Nil
      have "wr (map Ptr ks @ gap @ map Ptr (s # ss) @ NULL # r) (length ks) (Ptr s) = Some (map Ptr (ks @ [s]) @ [] @ map Ptr ss @ NULL # r)"
        using Nil by (simp add: wr_def list_update_append)
      then show ?thesis
        using rd False Nil Cons.IH [of "ks @ [s]" "[]"] by (subst unsetenv_loop.simps) auto
    next
      case (Cons g gs)
      have "wr (map Ptr ks @ gap @ map Ptr (s # ss) @ NULL # r) (length ks) (Ptr s) = Some (map Ptr (ks @ [s]) @ (gs @ [Ptr s]) @ map Ptr ss @ NULL # r)"
        using Cons by (simp add: wr_def list_update_append)
      then show ?thesis
        using rd False Cons Cons.IH [of "ks @ [s]" "gs @ [Ptr s]"] by (subst unsetenv_loop.simps) auto
    qed
  qed
qed

lemma unsetenv_ok:
  assumes "wf_environ e" "good_name n"
  shows "\<exists>e'. unsetenv (Ptr n) e = Some (0, None, e') \<and> wf_environ e' \<and> entries e' = filter (\<lambda>s. \<not> names n s) (entries e)"
proof -
  obtain r where e: "e = map Ptr (entries e) @ NULL # r" using wf_environE [OF assms(1)] .
  obtain r' where "unsetenv_loop n e 0 0 = Some (map Ptr (filter (\<lambda>s. \<not> names n s) (entries e)) @ NULL # r')"
    using unsetenv_loop_filter [of n "[]" "[]" "entries e" r] e by auto
  then show ?thesis using assms(2) good_name_iff [of n] by (auto simp: unsetenv_def wf_environ_def)
qed

lemma find_filter_other:
  "good_name m \<Longrightarrow> good_name n \<Longrightarrow> m \<noteq> n \<Longrightarrow> List.find (names m) (filter (\<lambda>s. \<not> names n s) ss) = List.find (names m) ss"
  by (induction ss) (auto dest: names_unique)

lemma find_filter_same: "List.find (names n) (filter (\<lambda>s. \<not> names n s) ss) = None"
  by (induction ss) auto

lemma find_replace:
  assumes "\<forall>a \<in> set as. \<not> names n a"
  shows "List.find (names n) (as @ (n @ CHR ''='' # v) # bs) = Some (n @ CHR ''='' # v)"
    and "names n s \<Longrightarrow> good_name m \<Longrightarrow> good_name n \<Longrightarrow> m \<noteq> n \<Longrightarrow>
      List.find (names m) (as @ (n @ CHR ''='' # v) # bs) = List.find (names m) (as @ s # bs)"
  using assms by (induction as) (auto dest: names_unique [OF _ _ _ names_self] names_unique)

section \<open>The contract of \<open>putenv\<close>\<close>

text \<open>
  \<open>putenv\<close> replaces the first entry of the name in place, or appends a new one when there is none.
\<close>

definition wf_putenv :: "putenv_fn \<Rightarrow> bool" where
  "wf_putenv putenv \<longleftrightarrow> (\<forall>n v e e'. good_name n \<longrightarrow> wf_environ e \<longrightarrow> putenv (n @ ''='' @ v) e = Some e' \<longrightarrow>
     wf_environ e' \<and>
     ((\<exists>as s bs. entries e = as @ s # bs \<and> names n s \<and> (\<forall>a \<in> set as. \<not> names n a) \<and> entries e' = as @ (n @ ''='' @ v) # bs)
      \<or> ((\<forall>a \<in> set (entries e). \<not> names n a) \<and> entries e' = entries e @ [n @ ''='' @ v])))"

text \<open>What a user of the environment relies on: reads after writes, for the operations that succeed.\<close>

locale env_store =
  fixes get :: "string \<Rightarrow> 's \<Rightarrow> string option"
    and set :: "string \<Rightarrow> string \<Rightarrow> 's \<Rightarrow> 's option"
    and unset :: "string \<Rightarrow> 's \<Rightarrow> 's option"
    and inv :: "'s \<Rightarrow> bool"
  assumes get_set: "inv s \<Longrightarrow> good_name n \<Longrightarrow> set n v s = Some s' \<Longrightarrow> get n s' = Some v"
    and get_set_other: "inv s \<Longrightarrow> good_name n \<Longrightarrow> good_name m \<Longrightarrow> m \<noteq> n \<Longrightarrow> set n v s = Some s' \<Longrightarrow> get m s' = get m s"
    and set_inv: "inv s \<Longrightarrow> good_name n \<Longrightarrow> set n v s = Some s' \<Longrightarrow> inv s'"
    and unset_ok: "inv s \<Longrightarrow> good_name n \<Longrightarrow> \<exists>s'. unset n s = Some s' \<and> inv s' \<and> get n s' = None \<and>
      (\<forall>m. good_name m \<longrightarrow> m \<noteq> n \<longrightarrow> get m s' = get m s)"
begin

text \<open>Saving a variable, overwriting it, and putting it back leaves every variable as it was.\<close>

lemma save_restore:
  assumes "inv s" "good_name n" "set n v s = Some s1"
    and "(case get n s of Some w \<Rightarrow> set n w s1 | None \<Rightarrow> unset n s1) = Some s2" "good_name m"
  shows "get m s2 = get m s"
proof -
  have i1: "inv s1" using set_inv assms by blast
  have other: "m \<noteq> n \<Longrightarrow> get m s1 = get m s" using get_set_other [OF assms(1,2,5) _ assms(3)] by blast
  show ?thesis
  proof (cases "get n s")
    case None
    then show ?thesis using unset_ok [OF i1 assms(2)] assms(4,5) other by (cases "m = n") auto
  next
    case (Some w)
    then have "set n w s1 = Some s2" using assms(4) by simp
    then show ?thesis
      using Some get_set [OF i1 assms(2)] get_set_other [OF i1 assms(2,5)] other by (cases "m = n") auto
  qed
qed

end

text \<open>\<open>setenv\<close> with overwriting, as an operation that may fail.\<close>

definition env_set :: "putenv_fn \<Rightarrow> string \<Rightarrow> string \<Rightarrow> environ \<Rightarrow> environ option" where
  "env_set putenv n v e = (case setenv putenv True (Ptr n) v True e of (r, _, e') \<Rightarrow> if r = 0 then Some e' else None)"

definition env_unset :: "string \<Rightarrow> environ \<Rightarrow> environ option" where
  "env_unset n e = (case unsetenv (Ptr n) e of Some (r, _, e') \<Rightarrow> if r = 0 then Some e' else None | None \<Rightarrow> None)"

locale putenv_provider =
  fixes putenv :: putenv_fn
  assumes putenv_ok: "wf_putenv putenv"
begin

lemma putenv_cases:
  assumes "wf_environ e" "good_name n" "env_set putenv n v e = Some e'"
  shows "wf_environ e'"
    and "(\<exists>as s bs. entries e = as @ s # bs \<and> names n s \<and> (\<forall>a \<in> set as. \<not> names n a) \<and> entries e' = as @ (n @ CHR ''='' # v) # bs)
      \<or> ((\<forall>a \<in> set (entries e). \<not> names n a) \<and> entries e' = entries e @ [n @ CHR ''='' # v])"
proof -
  have "putenv (n @ ''='' @ v) e = Some e'"
    using assms good_name_iff [of n] by (auto simp: env_set_def setenv_def split: option.splits if_splits)
  then have "wf_environ e' \<and>
     ((\<exists>as s bs. entries e = as @ s # bs \<and> names n s \<and> (\<forall>a \<in> set as. \<not> names n a) \<and> entries e' = as @ (n @ ''='' @ v) # bs)
      \<or> ((\<forall>a \<in> set (entries e). \<not> names n a) \<and> entries e' = entries e @ [n @ ''='' @ v]))"
    using putenv_ok assms unfolding wf_putenv_def by blast
  then show "wf_environ e'"
    "(\<exists>as s bs. entries e = as @ s # bs \<and> names n s \<and> (\<forall>a \<in> set as. \<not> names n a) \<and> entries e' = as @ (n @ CHR ''='' # v) # bs)
      \<or> ((\<forall>a \<in> set (entries e). \<not> names n a) \<and> entries e' = entries e @ [n @ CHR ''='' # v])" by auto
qed

lemma getenv_env_set:
  assumes "wf_environ e" "good_name n" "env_set putenv n v e = Some e'"
  shows "getenv n e' = Some v"
  using putenv_cases(2) [OF assms]
proof (elim disjE exE conjE)
  fix as s bs assume "\<forall>a \<in> set as. \<not> names n a" "entries e' = as @ (n @ CHR ''='' # v) # bs"
  then show ?thesis using find_replace(1) [of as n v bs] by (simp add: getenv_def)
next
  assume "\<forall>a \<in> set (entries e). \<not> names n a" "entries e' = entries e @ [n @ CHR ''='' # v]"
  then show ?thesis using find_replace(1) [of "entries e" n v "[]"] by (simp add: getenv_def)
qed

lemma getenv_env_set_other:
  assumes "wf_environ e" "good_name n" "good_name m" "m \<noteq> n" "env_set putenv n v e = Some e'"
  shows "getenv m e' = getenv m e"
  using putenv_cases(2) [OF assms(1,2,5)]
proof (elim disjE exE conjE)
  fix as s bs assume e: "entries e = as @ s # bs" "names n s" "\<forall>a \<in> set as. \<not> names n a" "entries e' = as @ (n @ CHR ''='' # v) # bs"
  then show ?thesis using find_replace(2) [OF e(3,2) assms(3,2,4)] by (simp add: getenv_def)
next
  assume e: "entries e' = entries e @ [n @ CHR ''='' # v]"
  have "\<not> names m (n @ CHR ''='' # v)" using names_unique assms names_self by blast
  then have "List.find (names m) (ss @ [n @ CHR ''='' # v]) = List.find (names m) ss" for ss
    by (induction ss) auto
  then show ?thesis using e by (simp add: getenv_def)
qed

end

lemma env_unset_ok:
  assumes "wf_environ e" "good_name n"
  shows "\<exists>e'. env_unset n e = Some e' \<and> wf_environ e' \<and> getenv n e' = None \<and> (\<forall>m. good_name m \<longrightarrow> m \<noteq> n \<longrightarrow> getenv m e' = getenv m e)"
  using unsetenv_ok [OF assms] assms(2)
  by (auto simp: env_unset_def getenv_def find_filter_same find_filter_other)

sublocale putenv_provider \<subseteq> env_store getenv "env_set putenv" env_unset wf_environ
  by unfold_locales (use getenv_env_set getenv_env_set_other putenv_cases(1) env_unset_ok in blast)+

context putenv_provider
begin

lemma env_save_restore:
  assumes "wf_environ e" "good_name n" "env_set putenv n v e = Some e1"
    and "(case getenv n e of Some w \<Rightarrow> env_set putenv n w e1 | None \<Rightarrow> env_unset n e1) = Some e2" "good_name m"
  shows "getenv m e2 = getenv m e"
  using save_restore [OF assms] .

end

text \<open>A \<open>putenv\<close> as documented, to show that the contract can be met.\<close>

fun put_entry :: "string \<Rightarrow> string \<Rightarrow> string list \<Rightarrow> string list" where
  "put_entry n s [] = [s]"
| "put_entry n s (x # xs) = (if names n x then s # xs else x # put_entry n s xs)"

definition posix_putenv :: putenv_fn where
  "posix_putenv s e = Some (map Ptr (put_entry (takeWhile (\<lambda>c. c \<noteq> CHR ''='') s) s (entries e)) @ [NULL])"

lemma put_entry_cases:
  "(\<exists>as x bs. ss = as @ x # bs \<and> names n x \<and> (\<forall>a \<in> set as. \<not> names n a) \<and> put_entry n s ss = as @ s # bs)
   \<or> ((\<forall>a \<in> set ss. \<not> names n a) \<and> put_entry n s ss = ss @ [s])"
proof (induction ss)
  case (Cons x xs)
  show ?case
  proof (cases "names n x")
    case True
    then show ?thesis by (intro disjI1 exI [of _ "[]"] exI [of _ x] exI [of _ xs]) simp
  next
    case False
    from Cons show ?thesis
    proof (elim disjE exE conjE)
      fix as y bs assume "xs = as @ y # bs" "names n y" "\<forall>a \<in> set as. \<not> names n a" "put_entry n s xs = as @ s # bs"
      then show ?thesis using False by (intro disjI1 exI [of _ "x # as"] exI [of _ y] exI [of _ bs]) simp
    qed (use False in simp)
  qed
qed simp

interpretation pe: putenv_provider posix_putenv
proof
  have "takeWhile (\<lambda>c. c \<noteq> CHR ''='') (n @ ''='' @ v) = n" if "good_name n" for n v
    using that by (auto simp: good_name_def takeWhile_append)
  moreover have "entries (map Ptr ss @ [NULL]) = ss" for ss by (rule entries_append)
  ultimately show "wf_putenv posix_putenv"
    using put_entry_cases by (auto simp: wf_putenv_def posix_putenv_def wf_environ_def)
qed

lemma setenv_total:
  assumes "\<forall>s e. putenv s e \<noteq> None" "good_name n"
  shows "\<exists>e1. setenv putenv True (Ptr n) v True e0 = (0, None, e1)"
proof -
  obtain e1 where "putenv (n @ ''='' @ v) e0 = Some e1" using assms(1) by blast
  then show ?thesis using assms(2) good_name_iff [of n] by (simp add: setenv_def)
qed

section \<open>Properties\<close>

text \<open>
  C30. \<open>setenv\<close> and \<open>unsetenv\<close> act on exactly one variable: after a successful overwriting \<open>setenv\<close> the
  name has the value, after \<open>unsetenv\<close> it has none, even when the array held several entries of the
  name; every other variable keeps its value and the array stays terminated.
\<close>

theorem environment_laws:
  assumes "wf_putenv putenv" "wf_environ e" "good_name n" "good_name m" "m \<noteq> n"
    and "setenv putenv True (Ptr n) v True e = (0, err, e')"
  shows "getenv n e' = Some v \<and> getenv m e' = getenv m e \<and> wf_environ e'
    \<and> (\<exists>e''. unsetenv (Ptr n) e = Some (0, None, e'') \<and> getenv n e'' = None \<and> getenv m e'' = getenv m e \<and> wf_environ e'')"
proof -
  have pp: "putenv_provider putenv" using assms(1) by unfold_locales
  have s: "env_set putenv n v e = Some e'" using assms(6) by (simp add: env_set_def)
  obtain e'' where "unsetenv (Ptr n) e = Some (0, None, e'')" "wf_environ e''" "entries e'' = filter (\<lambda>s. \<not> names n s) (entries e)"
    using unsetenv_ok [OF assms(2,3)] by blast
  moreover from this have "getenv n e'' = None" "getenv m e'' = getenv m e"
    using find_filter_same find_filter_other [OF assms(4,3,5)] by (simp_all add: getenv_def)
  ultimately show ?thesis
    using putenv_provider.getenv_env_set [OF pp assms(2,3) s] putenv_provider.putenv_cases(1) [OF pp assms(2,3) s]
      putenv_provider.getenv_env_set_other [OF pp assms(2-5) s] by blast
qed

text \<open>
  The in-place compaction loop of \<open>unsetenv\<close>, which moves entries down while it reads ahead of
  itself in the same array, never leaves the array and computes the filter of the entries: all
  entries of the name go, the others stay in order.
\<close>

lemma unsetenv_is_filter:
  assumes "wf_environ e" "good_name n"
  shows "\<exists>e'. unsetenv (Ptr n) e = Some (0, None, e') \<and> entries e' = filter (\<lambda>s. \<not> names n s) (entries e)"
  using unsetenv_ok [OF assms] by blast

theorem unsetenv_is_filter_witness:
  "\<exists>e'. unsetenv (Ptr ''A'') [Ptr ''A=1'', Ptr ''AB=2'', Ptr ''A=3'', NULL] = Some (0, None, e')
     \<and> entries e' = [''AB=2'']"
proof -
  have "wf_environ [Ptr ''A=1'', Ptr ''AB=2'', Ptr ''A=3'', NULL]" "good_name ''A''" by (simp_all add: wf_environ_def good_name_def)
  from unsetenv_is_filter [OF this] show ?thesis by (simp add: names_def cstr_simps)
qed

text \<open>
  \<open>timegm\<close> evaluates \<open>mktime\<close> under UTC and leaves no trace: when its allocations succeed every
  variable of the environment, \<open>TZ\<close> included, set or unset, has its previous value afterwards.
\<close>

lemma timegm_restores:
  assumes "wf_putenv putenv" "\<forall>s e. putenv s e \<noteq> None" "wf_environ e" "good_name m"
  shows "\<exists>e'. timegm putenv mktime True True True tm e = Some (mktime (Some ''UTC'') tm, e') \<and> getenv m e' = getenv m e"
proof -
  have pp: "putenv_provider putenv" using assms(1) by unfold_locales
  have tz: "good_name ''TZ''" by (simp add: good_name_def)
  note set = setenv_total [OF assms(2) tz]
  obtain e1 where e1: "setenv putenv True (Ptr ''TZ'') ''UTC'' True e = (0, None, e1)" using set by blast
  then have s1: "env_set putenv ''TZ'' ''UTC'' e = Some e1" by (simp add: env_set_def)
  note g1 = putenv_provider.getenv_env_set [OF pp assms(3) tz s1]
  note w1 = putenv_provider.putenv_cases(1) [OF pp assms(3) tz s1]
  obtain e2 where e2: "timegm putenv mktime True True True tm e = Some (mktime (Some ''UTC'') tm, e2)"
    and r: "(case getenv ''TZ'' e of Some w \<Rightarrow> env_set putenv ''TZ'' w e1 | None \<Rightarrow> env_unset ''TZ'' e1) = Some e2"
  proof (cases "getenv ''TZ'' e")
    case None
    obtain e2 where "unsetenv (Ptr ''TZ'') e1 = Some (0, None, e2)" using unsetenv_ok [OF w1 tz] by blast
    then show ?thesis using that None e1 g1 by (simp add: timegm_def env_unset_def)
  next
    case (Some w)
    obtain e2 where "setenv putenv True (Ptr ''TZ'') w True e1 = (0, None, e2)" using set by blast
    then show ?thesis using that Some e1 g1 by (simp add: timegm_def env_set_def)
  qed
  show ?thesis using putenv_provider.env_save_restore [OF pp assms(3) tz s1 r assms(4)] e2 by blast
qed

lemma posix_putenv_total: "posix_putenv s e \<noteq> None"
  by (simp add: posix_putenv_def)

theorem timegm_restores_witness:
  "\<exists>e'. timegm posix_putenv (\<lambda>tz x. if tz = Some ''UTC'' then x else 0) True True True 86400 [Ptr ''TZ=MET'', NULL] = Some (86400, e')
     \<and> getenv ''TZ'' e' = Some ''MET''"
proof -
  have "wf_environ [Ptr ''TZ=MET'', NULL]" "good_name ''TZ''" by (simp_all add: wf_environ_def good_name_def)
  from timegm_restores [OF pe.putenv_ok _ this, of "\<lambda>tz x. if tz = Some ''UTC'' then x else 0" 86400]
  show ?thesis by (simp add: posix_putenv_total getenv_def names_def cstr_simps)
qed

theorem environment_laws_witness:
  "\<exists>e'. setenv posix_putenv True (Ptr ''A'') ''2'' True [Ptr ''A=1'', Ptr ''B=x'', NULL] = (0, None, e')
     \<and> getenv ''A'' e' = Some ''2'' \<and> getenv ''B'' e' = Some ''x''"
proof -
  have s: "setenv posix_putenv True (Ptr ''A'') ''2'' True [Ptr ''A=1'', Ptr ''B=x'', NULL] = (0, None, [Ptr ''A=2'', Ptr ''B=x'', NULL])"
    by (simp add: setenv_def bad_name_def posix_putenv_def names_def cstr_simps)
  from environment_laws [OF pe.putenv_ok _ _ _ _ s, of "''B''"] s show ?thesis
    by (simp add: wf_environ_def good_name_def getenv_def names_def cstr_simps)
qed

text \<open>
  When the copy of the old value cannot be allocated, \<open>timegm\<close> takes the branch of an unset variable:
  a \<open>TZ\<close> that was set is gone afterwards and the process has lost its time zone.
\<close>

lemma timegm_loses_tz:
  assumes "wf_putenv putenv" "\<forall>s e. putenv s e \<noteq> None" "wf_environ e" "getenv ''TZ'' e = Some z"
  shows "\<exists>r e'. timegm putenv mktime False True restore_ok tm e = Some (r, e') \<and> getenv ''TZ'' e' = None"
proof -
  have pp: "putenv_provider putenv" using assms(1) by unfold_locales
  have tz: "good_name ''TZ''" by (simp add: good_name_def)
  obtain e1 where e1: "setenv putenv True (Ptr ''TZ'') ''UTC'' True e = (0, None, e1)"
    using setenv_total [OF assms(2) tz] by blast
  then have s1: "env_set putenv ''TZ'' ''UTC'' e = Some e1" by (simp add: env_set_def)
  have "wf_environ e1" using putenv_provider.putenv_cases(1) [OF pp assms(3) tz s1] .
  then obtain e2 where "unsetenv (Ptr ''TZ'') e1 = Some (0, None, e2)" "entries e2 = filter (\<lambda>s. \<not> names ''TZ'' s) (entries e1)"
    using unsetenv_ok [OF _ tz] by blast
  then show ?thesis using e1 by (simp add: timegm_def getenv_def find_filter_same)
qed

theorem timegm_loses_tz_witness:
  "\<exists>r e'. timegm posix_putenv (\<lambda>_ _. 0) False True True () [Ptr ''TZ=MET'', NULL] = Some (r, e') \<and> getenv ''TZ'' e' = None"
  using timegm_loses_tz [OF pe.putenv_ok, of "[Ptr ''TZ=MET'', NULL]" "''MET''"]
  by (simp add: posix_putenv_total wf_environ_def getenv_def names_def cstr_simps)

lemma fill_suffix_alphabet:
  assumes "entropy = None \<or> (\<exists>bs. entropy = Some bs \<and> length bs = 6)"
  shows "length (mkdtemp_fill_suffix entropy t p k) = 6" "set (mkdtemp_fill_suffix entropy t p k) \<subseteq> set TMPNAM_ALPHABET"
proof -
  have "length (lcg_bytes n s) = n" for n s by (induction n arbitrary: s) (auto simp: Let_def)
  then show "length (mkdtemp_fill_suffix entropy t p k) = 6"
    using assms by (auto simp: mkdtemp_fill_suffix_def Let_def)
  have "length TMPNAM_ALPHABET = 62" by (simp add: TMPNAM_ALPHABET_def)
  then have "TMPNAM_ALPHABET ! (n mod 62) \<in> set TMPNAM_ALPHABET" for n by (simp add: nth_mem)
  then show "set (mkdtemp_fill_suffix entropy t p k) \<subseteq> set TMPNAM_ALPHABET"
    by (auto simp: mkdtemp_fill_suffix_def Let_def)
qed

lemma mkdtemp_loop_ok:
  assumes "\<And>k. mk_entropy m k = None \<or> (\<exists>bs. mk_entropy m k = Some bs \<and> length bs = 6)"
  shows "left \<le> 1000 \<Longrightarrow> mkdtemp_loop m stem left tried = (r, ps) \<Longrightarrow>
    \<exists>new. ps = tried @ new \<and> length new \<le> left
      \<and> (\<forall>i < length new. \<exists>suf. new ! i = stem @ suf \<and> length suf = 6 \<and> set suf \<subseteq> set TMPNAM_ALPHABET
           \<and> (i + 1 < length new \<longrightarrow> mk_mkdir m (1000 - left + i) (new ! i) = Some EEXIST))
      \<and> (case r of
           Inr p \<Rightarrow> new \<noteq> [] \<and> p = last new \<and> mk_mkdir m (1000 - left + length new - 1) p = None
         | Inl err \<Rightarrow> if err = EEXIST then length new = left
                      else new \<noteq> [] \<and> mk_mkdir m (1000 - left + length new - 1) (last new) = Some err)"
proof (induction left arbitrary: tried)
  case (Suc left)
  define a where "a = 1000 - Suc left"
  define suf where "suf = mkdtemp_fill_suffix (mk_entropy m a) (mk_time m a) (mk_pid m) a"
  have suf: "length suf = 6" "set suf \<subseteq> set TMPNAM_ALPHABET"
    unfolding suf_def using fill_suffix_alphabet [OF assms] by auto
  have a1: "1000 - left = a + 1" using Suc.prems(1) by (simp add: a_def)
  consider (ok) "mk_mkdir m a (stem @ suf) = None" | (err) err where "mk_mkdir m a (stem @ suf) = Some err" "err \<noteq> EEXIST"
    | (again) "mk_mkdir m a (stem @ suf) = Some EEXIST" by fastforce
  then show ?case
  proof cases
    case ok
    then have "r = Inr (stem @ suf)" "ps = tried @ [stem @ suf]" using Suc.prems(2) by (auto simp: a_def suf_def Let_def)
    then show ?thesis using suf ok by (auto simp: a_def)
  next
    case err
    then have "r = Inl err" "ps = tried @ [stem @ suf]" using Suc.prems(2) by (auto simp: a_def suf_def Let_def)
    then show ?thesis using suf err by (auto simp: a_def)
  next
    case again
    then have "mkdtemp_loop m stem left (tried @ [stem @ suf]) = (r, ps)" using Suc.prems(2) by (simp add: a_def suf_def Let_def)
    with Suc.IH [OF _ this] Suc.prems(1) obtain new where new: "ps = (tried @ [stem @ suf]) @ new" "length new \<le> left"
      "\<forall>i < length new. \<exists>suf. new ! i = stem @ suf \<and> length suf = 6 \<and> set suf \<subseteq> set TMPNAM_ALPHABET
         \<and> (i + 1 < length new \<longrightarrow> mk_mkdir m (a + 1 + i) (new ! i) = Some EEXIST)"
      "case r of Inr p \<Rightarrow> new \<noteq> [] \<and> p = last new \<and> mk_mkdir m (a + 1 + length new - 1) p = None
         | Inl err \<Rightarrow> if err = EEXIST then length new = left
                      else new \<noteq> [] \<and> mk_mkdir m (a + 1 + length new - 1) (last new) = Some err"
      unfolding a1 by auto
    let ?new = "(stem @ suf) # new"
    have "\<exists>suf. ?new ! i = stem @ suf \<and> length suf = 6 \<and> set suf \<subseteq> set TMPNAM_ALPHABET
         \<and> (i + 1 < length ?new \<longrightarrow> mk_mkdir m (a + i) (?new ! i) = Some EEXIST)" if "i < length ?new" for i
      using that suf again new(3) by (cases i) auto
    moreover have "case r of Inr p \<Rightarrow> ?new \<noteq> [] \<and> p = last ?new \<and> mk_mkdir m (a + length ?new - 1) p = None
         | Inl err \<Rightarrow> if err = EEXIST then length ?new = Suc left
                      else ?new \<noteq> [] \<and> mk_mkdir m (a + length ?new - 1) (last ?new) = Some err"
      using new(4) by (auto split: sum.splits if_splits)
    ultimately show ?thesis using new(1,2) unfolding a_def [symmetric] by (intro exI [of _ ?new]) auto
  qed
qed auto

text \<open>
  \<open>mkdtemp\<close>: for a proper template it calls \<open>mkdir\<close> at most 1000 times, only on the template with its
  six \<open>X\<close> replaced by characters of the alphabet, and goes on only after \<open>EEXIST\<close>; it returns a path
  exactly when \<open>mkdir\<close> created that path, stops at once with the error of any other failure, and reports
  \<open>EEXIST\<close> only after 1000 collisions.
\<close>

lemma mkdtemp_spec:
  assumes "\<forall>k. mk_entropy m k = None \<or> (\<exists>bs. mk_entropy m k = Some bs \<and> length bs = 6)"
    and "mkdtemp m (Ptr (stem @ ''XXXXXX'')) = (r, paths)"
  shows "length paths \<le> 1000
    \<and> (\<forall>i < length paths. \<exists>suf. paths ! i = stem @ suf \<and> length suf = 6 \<and> set suf \<subseteq> set TMPNAM_ALPHABET
         \<and> (i + 1 < length paths \<longrightarrow> mk_mkdir m i (paths ! i) = Some EEXIST))
    \<and> (case r of
         Inr p \<Rightarrow> paths \<noteq> [] \<and> p = last paths \<and> mk_mkdir m (length paths - 1) p = None
       | Inl err \<Rightarrow> if err = EEXIST then length paths = 1000
                    else paths \<noteq> [] \<and> mk_mkdir m (length paths - 1) (last paths) = Some err)"
proof -
  have "mkdtemp_loop m stem 1000 [] = (r, paths)" using assms(2) by (simp add: mkdtemp_def)
  from mkdtemp_loop_ok [OF _ _ this] assms(1) show ?thesis by (auto split: sum.splits)
qed

theorem mkdtemp_spec_witness:
  "mkdtemp \<lparr>mk_entropy = (\<lambda>k. if k = 0 then Some [0, 0, 0, 0, 0, 0] else None), mk_time = (\<lambda>_. 0), mk_pid = 0,
      mk_mkdir = (\<lambda>k _. if k = 0 then None else Some EEXIST)\<rparr> (Ptr ''/tmp/xXXXXXX'') = (Inr ''/tmp/xAAAAAA'', [''/tmp/xAAAAAA''])
   \<and> length [''/tmp/xAAAAAA''] \<le> 1000"
proof -
  let ?m = "\<lparr>mk_entropy = (\<lambda>k. if k = 0 then Some [0, 0, 0, 0, 0, 0] else None), mk_time = (\<lambda>_. 0), mk_pid = 0,
      mk_mkdir = (\<lambda>k _. if k = 0 then None else Some EEXIST)\<rparr>"
  have "mkdtemp_loop ?m ''/tmp/x'' (Suc 999) [] = (Inr ''/tmp/xAAAAAA'', [''/tmp/xAAAAAA''])"
    by (subst mkdtemp_loop.simps(2)) (simp add: Let_def mkdtemp_fill_suffix_def TMPNAM_ALPHABET_def)
  then have "mkdtemp_loop ?m ''/tmp/x'' 1000 [] = (Inr ''/tmp/xAAAAAA'', [''/tmp/xAAAAAA''])"
    using arg_cong [of "Suc 999" 1000 "\<lambda>k. mkdtemp_loop ?m ''/tmp/x'' k []"] by (simp del: mkdtemp_loop.simps)
  then have r: "mkdtemp ?m (Ptr (''/tmp/x'' @ ''XXXXXX'')) = (Inr ''/tmp/xAAAAAA'', [''/tmp/xAAAAAA''])"
    by (simp add: mkdtemp_def del: mkdtemp_loop.simps)
  from mkdtemp_spec [OF _ r] r show ?thesis by simp
qed

end
