(* ===== verification/Entropy.thy ===== *)
theory Entropy
  imports Prelude "HOL-Library.Stream"
begin

text \<open>
  Randomness, \<open>src/src/random.c\<close>: the entropy pool client, the choice of a source, \<open>getentropy\<close>,
  \<open>getrandom\<close> and the \<open>arc4random\<close> family.

  The operating system is an infinite script: every system call takes the next answer from it and is
  recorded, with that answer, in the list of events of the state. The two loops that retry an interrupted \<open>read\<close>
  are partial functions, where \<open>None\<close> is a run that never returns or leaves an object. The process-wide static
  variables of the file are fields of the state.
\<close>

unbundle bit_operations_syntax

section \<open>System calls\<close>

datatype answer = Ret int | Data "u8 list" | Err errno

datatype event =
    EvOpen string int
  | EvSocket int
  | EvConnect int string bool
  | EvWrite int "u8 list" int
  | EvRead int nat "errno + u8 list"
  | EvClose int

record rnd =
  script :: "answer stream"
  events :: "event list"
  random_source :: int
  random_fd :: int
  seeded :: bool
  lcg_state :: u32
  arc4_state :: "u32 \<times> u32 \<times> u32 \<times> u32"
  arc4_initialized :: bool
  arc4_count :: int

text \<open>
  What the code reads from its surroundings: two environment variables, the size of \<open>sun_path\<close>,
  the clock values the fallback generator mixes, and the indeterminate contents of an automatic
  array.
\<close>

record renv =
  egd_socket_env :: "string option"
  weak_random_env :: "string option"
  sun_path_size :: nat
  hrtime :: u64
  pid_time_addr :: "u32 \<times> u32 \<times> u32"
  stack_bytes :: "rnd \<Rightarrow> u8 list"

definition log_event :: "event \<Rightarrow> rnd \<Rightarrow> rnd" where
  "log_event e s = s\<lparr>events := events s @ [e]\<rparr>"

definition next_answer :: "rnd \<Rightarrow> answer \<times> rnd" where
  "next_answer s = (shd (script s), s\<lparr>script := stl (script s)\<rparr>)"

definition ret_int :: "answer \<Rightarrow> int" where
  "ret_int a = (case a of Ret i \<Rightarrow> i | Data _ \<Rightarrow> -1 | Err _ \<Rightarrow> -1)"

definition sys_open :: "string \<Rightarrow> rnd \<Rightarrow> int \<times> rnd" where
  "sys_open path s = (case next_answer s of (a, s) \<Rightarrow> (ret_int a, log_event (EvOpen path (ret_int a)) s))"

definition sys_socket :: "rnd \<Rightarrow> int \<times> rnd" where
  "sys_socket s = (case next_answer s of (a, s) \<Rightarrow> (ret_int a, log_event (EvSocket (ret_int a)) s))"

definition sys_connect :: "int \<Rightarrow> string \<Rightarrow> rnd \<Rightarrow> bool \<times> rnd" where
  "sys_connect sock path s =
     (case next_answer s of (a, s) \<Rightarrow> (0 \<le> ret_int a, log_event (EvConnect sock path (0 \<le> ret_int a)) s))"

definition sys_write :: "int \<Rightarrow> u8 list \<Rightarrow> rnd \<Rightarrow> int \<times> rnd" where
  "sys_write fd bs s = (case next_answer s of (a, s) \<Rightarrow> (ret_int a, log_event (EvWrite fd bs (ret_int a)) s))"

text \<open>\<open>read(fd, p, n)\<close>: an error, or at most \<open>n\<close> bytes; no byte is the end of the stream.\<close>

definition sys_read :: "int \<Rightarrow> nat \<Rightarrow> rnd \<Rightarrow> (errno + u8 list) \<times> rnd" where
  "sys_read fd n s =
     (case next_answer s of (a, s) \<Rightarrow>
        let r = (case a of Ret _ \<Rightarrow> Inr [] | Data bs \<Rightarrow> Inr (take n bs) | Err e \<Rightarrow> Inl e)
        in (r, log_event (EvRead fd n r) s))"

definition sys_close :: "int \<Rightarrow> rnd \<Rightarrow> rnd" where
  "sys_close fd s = log_event (EvClose fd) s"

lemma script_log_event [simp]: "script (log_event e s) = script s"
  by (simp add: log_event_def)

section \<open>The entropy pool\<close>

definition EGD_DEFAULT_SOCKET :: string where
  "EGD_DEFAULT_SOCKET = ''/var/run/egd-pool''"

definition egd_connect :: "renv \<Rightarrow> rnd \<Rightarrow> int \<times> rnd" where
  "egd_connect env s =
     (let socket_path = (case egd_socket_env env of
                           None \<Rightarrow> EGD_DEFAULT_SOCKET
                         | Some p \<Rightarrow> if p = [] then EGD_DEFAULT_SOCKET else p);
          (sock, s) = sys_socket s
      in if sock < 0 then (-1, s)
         else if sun_path_size env \<le> length socket_path then (-1, sys_close sock s)
         else let (ok, s) = sys_connect sock socket_path s
              in if \<not> ok then (-1, sys_close sock s) else (sock, s))"

text \<open>The inner loop of \<open>egd_get_bytes\<close>: \<open>chunk - got\<close> bytes are still missing at \<open>out + got\<close>.\<close>

partial_function (option) egd_read :: "int \<Rightarrow> nat \<Rightarrow> u8 list \<Rightarrow> nat \<Rightarrow> nat \<Rightarrow> rnd \<Rightarrow> (bool \<times> u8 list \<times> rnd) option" where
  "egd_read sock chunk buf out got s =
     (if got < chunk then
        (case sys_read sock (chunk - got) s of
           (Inl e, s') \<Rightarrow>
             if e = EINTR then egd_read sock chunk buf out got s'
             else Some (False, buf, sys_close sock s')
         | (Inr r, s') \<Rightarrow>
             if r = [] then Some (False, buf, sys_close sock s')
             else (case memcpy buf (out + got) r 0 (length r) of
                     None \<Rightarrow> None
                   | Some buf' \<Rightarrow> egd_read sock chunk buf' out (got + length r) s'))
      else Some (True, buf, s))"

function egd_loop :: "int \<Rightarrow> u8 list \<Rightarrow> nat \<Rightarrow> nat \<Rightarrow> rnd \<Rightarrow> (bool \<times> u8 list \<times> rnd) option" where
  "egd_loop sock buf out len s =
     (if len > 0 then
        let chunk = (if len > 255 then 255 else len);
            (w, s) = sys_write sock [2, of_nat chunk] s
        in if w \<noteq> 2 then Some (False, buf, sys_close sock s)
           else (case egd_read sock chunk buf out 0 s of
                   None \<Rightarrow> None
                 | Some (False, buf, s) \<Rightarrow> Some (False, buf, s)
                 | Some (True, buf, s) \<Rightarrow> egd_loop sock buf (out + chunk) (len - chunk) s)
      else Some (True, buf, sys_close sock s))"
  by pat_completeness auto
termination
  by (relation "measure (\<lambda>(_, _, _, len, _). len)") auto

declare egd_loop.simps [simp del]

definition egd_get_bytes :: "renv \<Rightarrow> u8 list \<Rightarrow> nat \<Rightarrow> rnd \<Rightarrow> (bool \<times> u8 list \<times> rnd) option" where
  "egd_get_bytes env buf len s =
     (case egd_connect env s of (sock, s) \<Rightarrow>
        if sock < 0 then Some (False, buf, s) else egd_loop sock buf 0 len s)"

primrec bzero_loop :: "nat \<Rightarrow> nat \<Rightarrow> u8 list \<Rightarrow> u8 list option" where
  "bzero_loop 0 p s = Some s"
| "bzero_loop (Suc n) p s = (case wr s p 0 of None \<Rightarrow> None | Some s \<Rightarrow> bzero_loop n (p + 1) s)"

definition explicit_bzero :: "u8 list \<Rightarrow> nat \<Rightarrow> u8 list option" where
  "explicit_bzero s n = bzero_loop n 0 s"

section \<open>Choosing a source\<close>

partial_function (option) read_all :: "int \<Rightarrow> u8 list \<Rightarrow> nat \<Rightarrow> nat \<Rightarrow> rnd \<Rightarrow> (bool \<times> u8 list \<times> rnd) option" where
  "read_all fd buf p len s =
     (if len > 0 then
        (case sys_read fd len s of
           (Inl e, s') \<Rightarrow> if e = EINTR then read_all fd buf p len s' else Some (False, buf, s')
         | (Inr r, s') \<Rightarrow>
             if r = [] then Some (False, buf, s')
             else (case memcpy buf p r 0 (length r) of
                     None \<Rightarrow> None
                   | Some buf' \<Rightarrow> read_all fd buf' (p + length r) (len - length r) s'))
      else Some (True, buf, s))"

text \<open>The probe of the first call: it fixes \<open>random_source\<close> and \<open>random_fd\<close>.\<close>

definition probe_source :: "renv \<Rightarrow> rnd \<Rightarrow> rnd option" where
  "probe_source env s =
     (let (fd, s) = sys_open ''/dev/urandom'' s;
          (fd, s) = (if fd < 0 then sys_open ''/dev/random'' s else (fd, s))
      in if 0 \<le> fd then Some (s\<lparr>random_fd := fd, random_source := 1\<rparr>)
         else (case egd_get_bytes env [0] 1 s of
                 None \<Rightarrow> None
               | Some (ok, _, s) \<Rightarrow> Some (s\<lparr>random_source := if ok then 2 else -1\<rparr>)))"

definition get_random_bytes :: "renv \<Rightarrow> u8 list \<Rightarrow> nat \<Rightarrow> rnd \<Rightarrow> (bool \<times> u8 list \<times> rnd) option" where
  "get_random_bytes env buf len s =
     (case (if random_source s = 0 then probe_source env s else Some s) of
        None \<Rightarrow> None
      | Some s \<Rightarrow>
          if random_source s = 1 then read_all (random_fd s) buf 0 len s
          else if random_source s = 2 then egd_get_bytes env buf len s
          else Some (False, buf, s))"

primrec lcg_fill :: "nat \<Rightarrow> nat \<Rightarrow> u8 list \<Rightarrow> u32 \<Rightarrow> (u8 list \<times> u32) option" where
  "lcg_fill 0 i p state = Some (p, state)"
| "lcg_fill (Suc n) i p state =
     (let state = state * 1103515245 + 12345
      in case wr p i (ucast (drop_bit 16 state)) of
           None \<Rightarrow> None | Some p \<Rightarrow> lcg_fill n (i + 1) p state)"

definition fallback_random_bytes :: "renv \<Rightarrow> u8 list \<Rightarrow> nat \<Rightarrow> rnd \<Rightarrow> (u8 list \<times> rnd) option" where
  "fallback_random_bytes env buf len s =
     (let s = (if seeded s then s
               else case pid_time_addr env of (pid, time, addr) \<Rightarrow>
                      s\<lparr>lcg_state := ((ucast (hrtime env) XOR pid) XOR time) XOR addr, seeded := True\<rparr>)
      in map_option (\<lambda>(p, st). (p, s\<lparr>lcg_state := st\<rparr>)) (lcg_fill len 0 buf (lcg_state s)))"

text \<open>The result is the error number, or none on success.\<close>

definition getentropy :: "renv \<Rightarrow> u8 list \<Rightarrow> nat \<Rightarrow> rnd \<Rightarrow> (errno option \<times> u8 list \<times> rnd) option" where
  "getentropy env buf len s =
     (if len > 256 then Some (Some EIO, buf, s)
      else case get_random_bytes env buf len s of
             None \<Rightarrow> None
           | Some (ok, buf, s) \<Rightarrow>
               if ok then Some (None, buf, s)
               else if weak_random_env env \<noteq> None
                    then map_option (\<lambda>(buf, s). (None, buf, s)) (fallback_random_bytes env buf len s)
               else Some (Some EIO, buf, s))"

definition getrandom :: "renv \<Rightarrow> u8 list \<Rightarrow> nat \<Rightarrow> nat \<Rightarrow> rnd \<Rightarrow> ((errno + nat) \<times> u8 list \<times> rnd) option" where
  "getrandom env buf buflen flags s =
     (case get_random_bytes env buf buflen s of
        None \<Rightarrow> None
      | Some (ok, buf, s) \<Rightarrow>
          if ok then Some (Inr buflen, buf, s)
          else if weak_random_env env \<noteq> None
               then map_option (\<lambda>(buf, s). (Inr buflen, buf, s)) (fallback_random_bytes env buf buflen s)
          else Some (Inl EIO, buf, s))"

section \<open>The \<open>arc4random\<close> family\<close>

text \<open>A 32-bit word and its four bytes in memory; the target is big-endian.\<close>

definition be32 :: "u8 list \<Rightarrow> nat \<Rightarrow> u32" where
  "be32 b i = push_bit 24 (ucast (b ! i)) OR push_bit 16 (ucast (b ! (i + 1)))
              OR push_bit 8 (ucast (b ! (i + 2))) OR ucast (b ! (i + 3))"

definition be_bytes :: "u32 \<Rightarrow> u8 list" where
  "be_bytes w = [ucast (drop_bit 24 w), ucast (drop_bit 16 w), ucast (drop_bit 8 w), ucast w]"

text \<open>The automatic array after the call is returned with the state; the return value of
  \<open>getentropy\<close> is dropped, as in the code.\<close>

definition arc4_stir :: "renv \<Rightarrow> rnd \<Rightarrow> (u8 list \<times> rnd) option" where
  "arc4_stir env s =
     (case getentropy env (stack_bytes env s) 16 s of
        None \<Rightarrow> None
      | Some (_, seed, s) \<Rightarrow>
          let s = s\<lparr>arc4_state := (be32 seed 0, be32 seed 4, be32 seed 8, be32 seed 12),
                    arc4_count := 0, arc4_initialized := True\<rparr>
          in map_option (\<lambda>seed. (seed, s)) (explicit_bzero seed 16))"

definition arc4_mix :: "u32 \<times> u32 \<times> u32 \<times> u32 \<Rightarrow> u32 \<times> u32 \<times> u32 \<times> u32" where
  "arc4_mix st =
     (let (a, b, c, d) = st;
          a = a + b;
          b = push_bit 13 b OR drop_bit 19 b;
          b = b XOR a;
          a = push_bit 16 a OR drop_bit 16 a;
          c = c + d;
          d = push_bit 17 d OR drop_bit 15 d;
          d = d XOR c;
          a = a + d;
          c = c + b
      in (a, b, c, d))"

definition arc4_next :: "renv \<Rightarrow> rnd \<Rightarrow> (u32 \<times> rnd) option" where
  "arc4_next env s =
     (case (if \<not> arc4_initialized s \<or> arc4_count s > 1600000
            then map_option snd (arc4_stir env s) else Some s) of
        None \<Rightarrow> None
      | Some s \<Rightarrow>
          let s = s\<lparr>arc4_state := arc4_mix (arc4_state s), arc4_count := arc4_count s + 1\<rparr>
          in Some (fst (arc4_state s), s))"

definition arc4random :: "renv \<Rightarrow> rnd \<Rightarrow> (u32 \<times> rnd) option" where
  "arc4random env s = arc4_next env s"

fun arc4random_buf :: "renv \<Rightarrow> u8 list \<Rightarrow> nat \<Rightarrow> nat \<Rightarrow> rnd \<Rightarrow> (u8 list \<times> rnd) option" where
  "arc4random_buf env buf p nbytes s =
     (if nbytes \<ge> 4 then
        (case arc4random env s of
           None \<Rightarrow> None
         | Some (val, s) \<Rightarrow>
             (case memcpy buf p (be_bytes val) 0 4 of
                None \<Rightarrow> None
              | Some buf \<Rightarrow> arc4random_buf env buf (p + 4) (nbytes - 4) s))
      else if nbytes > 0 then
        (case arc4random env s of
           None \<Rightarrow> None
         | Some (val, s) \<Rightarrow> map_option (\<lambda>buf. (buf, s)) (memcpy buf p (be_bytes val) 0 nbytes))
      else Some (buf, s))"

declare arc4random_buf.simps [simp del]

text \<open>
  The rejection bound: \<open>(uint32_t)(-(int32_t)upper_bound) % upper_bound\<close>. The signed negation is read as
  the two's complement one, which C leaves undefined for the single value \<open>0x80000000\<close>.
\<close>

definition uniform_min :: "u32 \<Rightarrow> u32" where
  "uniform_min upper_bound = (- upper_bound) mod upper_bound"

partial_function (option) uniform_loop :: "renv \<Rightarrow> u32 \<Rightarrow> u32 \<Rightarrow> rnd \<Rightarrow> (u32 \<times> rnd) option" where
  "uniform_loop env min_r upper_bound s =
     Option.bind (arc4random env s)
       (\<lambda>(r, s). if r \<ge> min_r then Some (r mod upper_bound, s) else uniform_loop env min_r upper_bound s)"

definition arc4random_uniform :: "renv \<Rightarrow> u32 \<Rightarrow> rnd \<Rightarrow> (u32 \<times> rnd) option" where
  "arc4random_uniform env upper_bound s =
     (if upper_bound < 2 then Some (0, s)
      else uniform_loop env (uniform_min upper_bound) upper_bound s)"

section \<open>What the loops do to the buffer and the descriptors\<close>

definition put :: "nat \<Rightarrow> 'a list \<Rightarrow> 'a list \<Rightarrow> 'a list" where
  "put p d b = take p b @ d @ drop (p + length d) b"

text \<open>The bytes the \<open>read\<close> calls of a run delivered, the sockets it opened and what it closed.\<close>

definition delivered :: "event list \<Rightarrow> u8 list" where
  "delivered evs = concat (map (\<lambda>e. case e of EvRead _ _ (Inr bs) \<Rightarrow> bs | _ \<Rightarrow> []) evs)"

definition opened :: "event list \<Rightarrow> int list" where
  "opened evs = concat (map (\<lambda>e. case e of EvSocket fd \<Rightarrow> if fd < 0 then [] else [fd] | _ \<Rightarrow> []) evs)"

definition closed :: "event list \<Rightarrow> int list" where
  "closed evs = concat (map (\<lambda>e. case e of EvClose fd \<Rightarrow> [fd] | _ \<Rightarrow> []) evs)"

text \<open>A write is a well-formed blocking request: command 2 with a count between 1 and 255.\<close>

definition egd_request :: "event \<Rightarrow> bool" where
  "egd_request e = (case e of EvWrite _ [c, n] _ \<Rightarrow> c = 2 \<and> n \<noteq> 0 | EvWrite _ _ _ \<Rightarrow> False | _ \<Rightarrow> True)"

lemmas event_defs = delivered_def opened_def closed_def egd_request_def

text \<open>
  A script that does not interrupt for ever: after every point there is an answer other than \<open>EINTR\<close>.
\<close>

definition fair_script :: "answer stream \<Rightarrow> bool" where
  "fair_script sc \<longleftrightarrow> (\<forall>n. \<exists>m \<ge> n. sc !! m \<noteq> Err EINTR)"

lemma fair_stl [simp]: "fair_script (stl sc) = fair_script sc"
  unfolding fair_script_def by (metis Suc_le_D Suc_le_mono le_SucI snth.simps(2))

lemma fair_first:
  assumes "fair_script sc"
  obtains n where "sc !! n \<noteq> Err EINTR" "\<And>j. j < n \<Longrightarrow> sc !! j = Err EINTR"
  using assms exists_least_iff [of "\<lambda>n. sc !! n \<noteq> Err EINTR"] unfolding fair_script_def by (metis le0)

text \<open>
  A run that appends \<open>evs\<close> to the events, touches no static variable, and has copied what was
  delivered to offset \<open>p\<close> of the buffer.
\<close>

definition fills ::
    "nat \<Rightarrow> nat \<Rightarrow> u8 list \<Rightarrow> rnd \<Rightarrow> int list \<Rightarrow> int list \<Rightarrow> bool \<times> u8 list \<times> rnd \<Rightarrow> bool" where
  "fills p len buf s opn cls res \<longleftrightarrow>
     (\<exists>ok sc evs. res = (ok, put p (delivered evs) buf, s\<lparr>script := sc, events := events s @ evs\<rparr>)
        \<and> fair_script sc = fair_script (script s)
        \<and> length (delivered evs) \<le> len \<and> (ok \<longrightarrow> length (delivered evs) = len)
        \<and> opened evs = opn \<and> closed evs = cls \<and> list_all egd_request evs)"

lemma length_put: "p + length d \<le> length b \<Longrightarrow> length (put p d b) = length b"
  by (simp add: put_def)

lemma put_Nil [simp]: "p \<le> length b \<Longrightarrow> put p [] b = b"
  by (simp add: put_def)

lemma put_put: "p + length d \<le> length b \<Longrightarrow> put (p + length d) e (put p d b) = put p (d @ e) b"
  by (simp add: put_def add.commute add.left_commute)

lemma memcpy_put: "p + length d \<le> length b \<Longrightarrow> memcpy b p d 0 (length d) = Some (put p d b)"
  by (simp add: memcpy_def put_def)

lemma events_append [simp]:
  "delivered (a @ b) = delivered a @ delivered b" "opened (a @ b) = opened a @ opened b"
  "closed (a @ b) = closed a @ closed b"
  by (simp_all add: event_defs)

lemma sys_read_run:
  assumes "sys_read fd n s = (r, s')"
  shows "s' = s\<lparr>script := stl (script s), events := events s @ [EvRead fd n r]\<rparr>"
    and "r = Inr bs \<Longrightarrow> length bs \<le> n" and "r = Inl EINTR \<longleftrightarrow> shd (script s) = Err EINTR"
  using assms by (auto simp: sys_read_def next_answer_def log_event_def Let_def split: answer.splits)

lemma rnd_frame [simp]:
  "s\<lparr>script := a, events := b, script := c\<rparr> = s\<lparr>script := c, events := b\<rparr>"
  "s\<lparr>script := a, events := b, script := c, events := d\<rparr> = s\<lparr>script := c, events := d\<rparr>"
  by (cases s, simp)+

lemma fills_stop:
  assumes "p \<le> length buf" and "s' = s\<lparr>script := sc, events := events s @ evs\<rparr>" "fair_script sc = fair_script (script s)"
    and "delivered evs = []" "opened evs = opn" "closed evs = cls" "list_all egd_request evs"
    and "ok \<longrightarrow> len = 0"
  shows "fills p len buf s opn cls (ok, buf, s')"
  unfolding fills_def using assms by (intro exI [of _ ok] exI [of _ sc] exI [of _ evs]) auto

text \<open>A run continued from where an earlier one has stopped.\<close>

lemma fills_trans:
  assumes "fills (p + length (delivered e1)) len_r (put p (delivered e1) buf)
             (s\<lparr>script := scr, events := events s @ e1\<rparr>) o2 c2 res"
    and "p + length (delivered e1) \<le> length buf" and "list_all egd_request e1" and "fair_script scr = fair_script (script s)"
    and "len = length (delivered e1) + len_r" "opn = opened e1 @ o2" "cls = closed e1 @ c2"
  shows "fills p len buf s opn cls res"
proof -
  from assms(1) obtain ok sc e2 where res:
    "res = (ok, put (p + length (delivered e1)) (delivered e2) (put p (delivered e1) buf),
            s\<lparr>script := sc, events := (events s @ e1) @ e2\<rparr>)" "fair_script sc = fair_script scr"
    and e2: "length (delivered e2) \<le> len_r" "ok \<longrightarrow> length (delivered e2) = len_r"
    "opened e2 = o2" "closed e2 = c2" "list_all egd_request e2"
    unfolding fills_def by auto
  show ?thesis
    unfolding fills_def
    by (intro exI [of _ ok] exI [of _ sc] exI [of _ "e1 @ e2"]) (use res e2 assms in \<open>auto simp: put_put\<close>)
qed

lemma fills_trans1:
  assumes "fills (p + length (delivered [e])) len_r (put p (delivered [e]) buf)
             (s\<lparr>script := scr, events := events s @ [e]\<rparr>) o2 c2 res"
    and "p + length (delivered [e]) \<le> length buf" and "egd_request e" and "fair_script scr = fair_script (script s)"
    and "len = length (delivered [e]) + len_r" "opened [e] = []" "closed [e] = []"
  shows "fills p len buf s o2 c2 res"
  using fills_trans [OF assms(1,2) _ assms(4,5)] assms by simp

lemma read_all_fills:
  "read_all fd buf p len s = Some res \<Longrightarrow> p + len \<le> length buf \<Longrightarrow> fills p len buf s [] [] res"
proof (induction fd buf p len s res rule: read_all.raw_induct [rotated, consumes 1, case_names step])
  case (step f fd buf p len s res)
  obtain r s1 where rd: "sys_read fd len s = (r, s1)" by fastforce
  note s1 = sys_read_run(1) [OF rd]
  consider "len = 0" | "0 < len" "r = Inl EINTR"
    | "0 < len" "r = Inr [] \<or> (\<exists>e. e \<noteq> EINTR \<and> r = Inl e)"
    | bs where "0 < len" "r = Inr bs" "bs \<noteq> []" by (cases r) auto
  then show ?case
  proof cases
    case 1
    then have "res = (True, buf, s)" using step.hyps by simp
    then show ?thesis
      using 1 step.prems by (auto intro!: fills_stop [where sc = "script s" and evs = "[]"] simp: event_defs)
  next
    case 2
    then have "f fd buf p len s1 = Some res" using step.hyps rd by simp
    from step.IH [OF this step.prems] have IH: "fills p len buf s1 [] [] res" .
    show ?thesis
      by (rule fills_trans1 [where e = "EvRead fd len r" and scr = "stl (script s)" and len_r = len])
         (use IH s1 2 step.prems in \<open>auto simp: event_defs\<close>)
  next
    case 3
    then have "res = (False, buf, s1)" using step.hyps rd by auto
    then show ?thesis
      using 3 s1 step.prems by (auto intro!: fills_stop [where sc = "stl (script s)" and evs = "[EvRead fd len r]"] simp: event_defs)
  next
    case 4
    have len: "length bs \<le> len" using sys_read_run(2) [OF rd] 4 by simp
    have m: "memcpy buf p bs 0 (length bs) = Some (put p bs buf)"
      using len step.prems by (intro memcpy_put) simp
    then have "f fd (put p bs buf) (p + length bs) (len - length bs) s1 = Some res" using step.hyps rd 4 by simp
    from step.IH [OF this] have IH: "fills (p + length bs) (len - length bs) (put p bs buf) s1 [] [] res"
      using step.prems len by (simp add: length_put)
    show ?thesis
      by (rule fills_trans1 [where e = "EvRead fd len r" and scr = "stl (script s)" and len_r = "len - length bs"])
         (use IH s1 4 len step.prems in \<open>auto simp: event_defs\<close>)
  qed
qed

text \<open>On a fair script the loop ends: each answer other than an interruption ends it or brings bytes.\<close>

lemma read_all_returns:
  "p + len \<le> length buf \<Longrightarrow> fair_script (script s) \<Longrightarrow> \<exists>res. read_all fd buf p len s = Some res"
proof (induction len arbitrary: buf p s rule: less_induct)
  case (less len)
  obtain n where "script s !! n \<noteq> Err EINTR" "\<And>j. j < n \<Longrightarrow> script s !! j = Err EINTR"
    using less.prems(2) fair_first by blast
  then show ?case using less.prems
  proof (induction n arbitrary: s)
    case 0
    obtain r s1 where rd: "sys_read fd len s = (r, s1)" by fastforce
    have r: "r \<noteq> Inl EINTR" using sys_read_run(3) [OF rd] 0 by simp
    show ?case
    proof (cases "0 < len \<and> (\<exists>bs. r = Inr bs \<and> bs \<noteq> [])")
      case True
      then obtain bs where bs: "0 < len" "r = Inr bs" "bs \<noteq> []" by blast
      have len: "length bs \<le> len" using sys_read_run(2) [OF rd] bs by simp
      have "\<exists>res. read_all fd (put p bs buf) (p + length bs) (len - length bs) s1 = Some res"
        by (rule less.IH) (use bs len 0 sys_read_run(1) [OF rd] in \<open>auto simp: length_put\<close>)
      moreover have "memcpy buf p bs 0 (length bs) = Some (put p bs buf)" using len 0 by (intro memcpy_put) simp
      ultimately show ?thesis using rd bs by (subst read_all.simps) simp
    next
      case False
      then show ?thesis using rd r by (subst read_all.simps) (auto split: sum.split)
    qed
  next
    case (Suc n)
    obtain r s1 where rd: "sys_read fd len s = (r, s1)" by fastforce
    have r: "r = Inl EINTR" using sys_read_run(3) [OF rd] Suc.prems(2) [of 0] by simp
    have "\<exists>res. read_all fd buf p len s1 = Some res"
      by (rule Suc.IH) (use Suc.prems(1,3,4) Suc.prems(2) [of "Suc _"] sys_read_run(1) [OF rd] in auto)
    then show ?case using rd r by (cases "len = 0") (auto simp: read_all.simps [of fd buf p len s] read_all.simps [of fd buf p 0 s])
  qed
qed

text \<open>The inner loop of \<open>egd_get_bytes\<close> is \<open>read_all\<close> with the socket closed on failure.\<close>

lemma egd_read_imp:
  "egd_read sock chunk buf out got s = Some res \<Longrightarrow> got \<le> chunk \<Longrightarrow>
     \<exists>ok b s'. read_all sock buf (out + got) (chunk - got) s = Some (ok, b, s')
       \<and> res = (ok, b, if ok then s' else sys_close sock s')"
proof (induction sock chunk buf out got s res rule: egd_read.raw_induct [rotated, consumes 1, case_names step])
  case (step f sock chunk buf out got s res)
  obtain r s1 where rd: "sys_read sock (chunk - got) s = (r, s1)" by fastforce
  note eq = read_all.simps [of sock buf "out + got" "chunk - got" s]
  show ?case
  proof (cases "got < chunk \<and> (\<exists>bs. r = Inr bs \<and> bs \<noteq> [])")
    case True
    then obtain bs where bs: "r = Inr bs" "bs \<noteq> []" "got < chunk" by blast
    then have le: "got + length bs \<le> chunk" using sys_read_run(2) [OF rd, of bs] by simp
    from step.hyps bs rd obtain buf' where "memcpy buf (out + got) bs 0 (length bs) = Some buf'"
      "f sock chunk buf' out (got + length bs) s1 = Some res" by (auto split: option.splits)
    with step.IH [OF this(2) le] show ?thesis using eq rd bs by (simp add: add.assoc)
  next
    case False
    then show ?thesis
      using step.IH [of sock chunk buf out got s1 res] step.hyps step.prems rd eq by (auto split: sum.splits if_splits)
  qed
qed

lemma egd_read_returns:
  "read_all sock buf p len s = Some res \<Longrightarrow> p = out + got \<Longrightarrow> len = chunk - got \<Longrightarrow> got \<le> chunk \<Longrightarrow>
     \<exists>res. egd_read sock chunk buf out got s = Some res"
proof (induction sock buf p len s res arbitrary: got rule: read_all.raw_induct [rotated, consumes 1, case_names step])
  case (step f sock buf p len s res)
  obtain r s1 where rd: "sys_read sock len s = (r, s1)" by fastforce
  note eq = egd_read.simps [of sock chunk buf out got s]
  show ?case
  proof (cases "got < chunk \<and> (\<exists>bs. r = Inr bs \<and> bs \<noteq> [])")
    case True
    then obtain bs where bs: "r = Inr bs" "bs \<noteq> []" "got < chunk" by blast
    then have le: "length bs \<le> len" using sys_read_run(2) [OF rd, of bs] by simp
    from step.hyps bs rd step.prems obtain buf' where "memcpy buf p bs 0 (length bs) = Some buf'"
      "f sock buf' (p + length bs) (len - length bs) s1 = Some res" by (auto split: option.splits)
    with step.IH [OF this(2), of "got + length bs"] show ?thesis using eq rd bs le step.prems by (simp add: add.assoc)
  next
    case False
    then show ?thesis
      using step.IH [of sock buf p len s1 res got] step.hyps step.prems rd eq by (cases r) auto
  qed
qed

lemma fillsE:
  assumes "fills p len buf s opn cls res"
  obtains ok sc evs where
    "res = (ok, put p (delivered evs) buf, s\<lparr>script := sc, events := events s @ evs\<rparr>)"
    "fair_script sc = fair_script (script s)"
    "length (delivered evs) \<le> len" "ok \<Longrightarrow> length (delivered evs) = len"
    "opened evs = opn" "closed evs = cls" "list_all egd_request evs"
  using assms unfolding fills_def by blast

text \<open>A run followed by the closing of a descriptor.\<close>

lemma fills_close:
  assumes "fills p len buf s opn cls (ok, b, s')"
  shows "fills p len buf s opn (cls @ [fd]) (ok, b, sys_close fd s')"
proof -
  from assms obtain sc evs where
    r: "b = put p (delivered evs) buf" "s' = s\<lparr>script := sc, events := events s @ evs\<rparr>"
    "fair_script sc = fair_script (script s)"
    "length (delivered evs) \<le> len" "ok \<longrightarrow> length (delivered evs) = len"
    "opened evs = opn" "closed evs = cls" "list_all egd_request evs"
    by (auto elim!: fillsE)
  then show ?thesis
    unfolding fills_def
    by (intro exI [of _ ok] exI [of _ sc] exI [of _ "evs @ [EvClose fd]"])
       (auto simp: sys_close_def log_event_def event_defs)
qed

lemma egd_read_fills:
  assumes "egd_read sock chunk buf out 0 s = Some (ok, b, s')" and "out + chunk \<le> length buf"
  shows "fills out chunk buf s [] (if ok then [] else [sock]) (ok, b, s')"
proof -
  from egd_read_imp [OF assms(1)] obtain s1 where
    "read_all sock buf out chunk s = Some (ok, b, s1)" "s' = (if ok then s1 else sys_close sock s1)" by auto
  then show ?thesis
    using read_all_fills [OF _ assms(2)] fills_close [of out chunk buf s "[]" "[]" ok b s1 sock] by (cases ok) auto
qed

lemma egd_read_fair:
  assumes "out + chunk \<le> length buf" and "fair_script (script s)"
  shows "\<exists>ok b s'. egd_read sock chunk buf out 0 s = Some (ok, b, s')"
  using read_all_returns [OF assms, of sock] egd_read_returns [of sock buf out chunk s _ out 0 chunk] by auto

lemma sys_write_run:
  assumes "sys_write fd bs s = (w, s')"
  shows "s' = s\<lparr>script := stl (script s), events := events s @ [EvWrite fd bs w]\<rparr>"
  using assms by (auto simp: sys_write_def next_answer_def log_event_def)

lemma egd_request_write:
  "0 < n \<Longrightarrow> n \<le> 255 \<Longrightarrow> egd_request (EvWrite fd [2, of_nat n] w)"
  by (auto simp: egd_request_def of_nat_eq_0_iff word_of_nat_eq_0_iff dest: dvd_imp_le)

lemma egd_loop_fills:
  "egd_loop sock buf out len s = Some res \<Longrightarrow> out + len \<le> length buf \<Longrightarrow> fills out len buf s [] [sock] res"
proof (induction sock buf out len s rule: egd_loop.induct)
  case (1 sock buf out len s)
  show ?case
  proof (cases "len = 0")
    case True
    then have "res = (True, buf, sys_close sock s)" using "1.prems"(1) by (subst (asm) egd_loop.simps) simp
    then show ?thesis
      using True "1.prems"
      by (auto intro!: fills_stop [where sc = "script s" and evs = "[EvClose sock]"]
         simp: event_defs sys_close_def log_event_def)
  next
    case False
    define chunk where "chunk = (if len > 255 then 255 else len)"
    have c: "0 < chunk" "chunk \<le> 255" "chunk \<le> len" using False by (auto simp: chunk_def)
    let ?req = "[2, of_nat chunk] :: u8 list"
    obtain w s1 where w: "sys_write sock ?req s = (w, s1)" by fastforce
    note s1 = sys_write_run [OF this]
    have wok: "egd_request (EvWrite sock ?req w)" using c by (intro egd_request_write)
    have lift: "fills out len buf s [] cls res" if "fills out len buf s1 [] cls res" for cls res
      by (rule fills_trans1 [where e = "EvWrite sock ?req w" and scr = "stl (script s)" and len_r = len])
         (use that s1 wok "1.prems" in \<open>auto simp: delivered_def opened_def closed_def\<close>)
    have eq: "egd_loop sock buf out len s = (if w \<noteq> 2 then Some (False, buf, sys_close sock s1)
        else case egd_read sock chunk buf out 0 s1 of None \<Rightarrow> None
          | Some (False, buf, s) \<Rightarrow> Some (False, buf, s)
          | Some (True, buf, s) \<Rightarrow> egd_loop sock buf (out + chunk) (len - chunk) s)"
      using False w by (subst egd_loop.simps) (simp add: chunk_def [symmetric])
    show ?thesis
    proof (cases "w = 2")
      case False
      then have "res = (False, buf, sys_close sock s1)" using eq "1.prems"(1) by simp
      moreover have "fills out len buf s1 [] [sock] (False, buf, sys_close sock s1)"
        using "1.prems"
        by (intro fills_stop [where sc = "script s1" and evs = "[EvClose sock]"])
           (auto simp: event_defs sys_close_def log_event_def)
      ultimately show ?thesis by (simp add: lift)
    next
      case True
      then obtain ok b s2 where rd: "egd_read sock chunk buf out 0 s1 = Some (ok, b, s2)"
        using eq "1.prems"(1) by (auto split: option.splits)
      have f: "fills out chunk buf s1 [] (if ok then [] else [sock]) (ok, b, s2)"
        using egd_read_fills [OF rd] c "1.prems"(2) by simp
      show ?thesis
      proof (cases ok)
        case False
        then have "res = (False, b, s2)" using eq True rd "1.prems"(1) by simp
        moreover have "fills out len buf s1 [] [sock] (False, b, s2)" using f False c unfolding fills_def by fastforce
        ultimately show ?thesis by (simp add: lift)
      next
        case ok: True
        from f ok obtain sc2 evs where
          e: "b = put out (delivered evs) buf" "s2 = s1\<lparr>script := sc2, events := events s1 @ evs\<rparr>"
          "fair_script sc2 = fair_script (script s1)"
          "length (delivered evs) = chunk" "opened evs = []" "closed evs = []" "list_all egd_request evs"
          by (auto elim!: fillsE)
        have "egd_loop sock b (out + chunk) (len - chunk) s2 = Some res" using eq True rd ok "1.prems"(1) by simp
        then have IH: "fills (out + chunk) (len - chunk) b s2 [] [sock] res"
          using "1.IH" [OF _ chunk_def w [symmetric] refl _ rd] \<open>len \<noteq> 0\<close> True ok e "1.prems"(2) c by (auto simp: length_put)
        have "fills out len buf s1 [] [sock] res"
          by (rule fills_trans [where ?e1.0 = evs and scr = sc2 and len_r = "len - chunk"])
             (use IH e c "1.prems" in auto)
        then show ?thesis by (rule lift)
      qed
    qed
  qed
qed

lemma egd_loop_returns:
  "out + len \<le> length buf \<Longrightarrow> fair_script (script s) \<Longrightarrow> \<exists>res. egd_loop sock buf out len s = Some res"
proof (induction len arbitrary: buf out s rule: less_induct)
  case (less len)
  show ?case
  proof (cases "len = 0")
    case False
    define chunk where "chunk = (if len > 255 then 255 else len)"
    have c: "0 < chunk" "chunk \<le> len" using False by (auto simp: chunk_def)
    obtain w s1 where w: "sys_write sock [2, of_nat chunk] s = (w, s1)" by fastforce
    have f1: "fair_script (script s1)" using sys_write_run [OF w] less.prems(2) by simp
    obtain ok b s2 where rd: "egd_read sock chunk buf out 0 s1 = Some (ok, b, s2)"
      using egd_read_fair [of out chunk buf s1 sock] c less.prems(1) f1 by auto
    have "fills out chunk buf s1 [] (if ok then [] else [sock]) (ok, b, s2)"
      using egd_read_fills [OF rd] c less.prems(1) by simp
    then have f2: "fair_script (script s2)" "length b = length buf"
      using f1 c less.prems(1) by (auto elim!: fillsE simp: length_put)
    obtain res where "egd_loop sock b (out + chunk) (len - chunk) s2 = Some res"
      using less.IH [of "len - chunk" "out + chunk" b s2] c f2 less.prems(1) by auto
    then have "egd_loop sock buf out len s \<noteq> None"
      using False w rd by (subst egd_loop.simps) (simp add: chunk_def [symmetric] del: not_None_eq split: bool.split)
    then show ?thesis by blast
  qed (subst egd_loop.simps, auto)
qed

lemma egd_connect_run:
  assumes "egd_connect env s = (sock, s')"
  shows "\<exists>sc evs opn cls. s' = s\<lparr>script := sc, events := events s @ evs\<rparr> \<and> fair_script sc = fair_script (script s)
    \<and> delivered evs = [] \<and> opened evs = opn \<and> closed evs = cls \<and> list_all egd_request evs
    \<and> opn = cls @ (if sock < 0 then [] else [sock])"
proof -
  define path where "path = (case egd_socket_env env of
    None \<Rightarrow> EGD_DEFAULT_SOCKET | Some p \<Rightarrow> if p = [] then EGD_DEFAULT_SOCKET else p)"
  define fd where "fd = fst (sys_socket s)"
  define c where "c = fst (sys_connect fd path (snd (sys_socket s)))"
  define evs where "evs = EvSocket fd # (if fd < 0 then []
      else if sun_path_size env \<le> length path then [EvClose fd]
      else if \<not> c then [EvConnect fd path c, EvClose fd] else [EvConnect fd path c])"
  have "sock = (if fd < 0 \<or> sun_path_size env \<le> length path \<or> \<not> c then -1 else fd)"
    "\<exists>sc. s' = s\<lparr>script := sc, events := events s @ evs\<rparr> \<and> fair_script sc = fair_script (script s)"
    using assms
    by (auto simp: egd_connect_def path_def [symmetric] fd_def c_def evs_def sys_socket_def sys_connect_def
        sys_close_def next_answer_def log_event_def split: if_splits)
  then obtain sc where sc: "s' = s\<lparr>script := sc, events := events s @ evs\<rparr>" "fair_script sc = fair_script (script s)"
    and sock: "sock = (if fd < 0 \<or> sun_path_size env \<le> length path \<or> \<not> c then -1 else fd)" by blast
  have "delivered evs = []" "list_all egd_request evs"
    "opened evs = closed evs @ (if sock < 0 then [] else [sock])"
    by (auto simp: evs_def sock event_defs)
  with sc show ?thesis by blast
qed

lemma egd_get_bytes_fills:
  assumes "egd_get_bytes env buf len s = Some res" and "len \<le> length buf"
  shows "\<exists>opn. fills 0 len buf s opn opn res"
proof -
  obtain sock s1 where c: "egd_connect env s = (sock, s1)" by fastforce
  from egd_connect_run [OF c] obtain sc evs opn cls where
    r: "s1 = s\<lparr>script := sc, events := events s @ evs\<rparr>" "fair_script sc = fair_script (script s)"
    "delivered evs = []" "opened evs = opn"
    "closed evs = cls" "list_all egd_request evs" "opn = cls @ (if sock < 0 then [] else [sock])" by blast
  show ?thesis
  proof (cases "sock < 0")
    case True
    then have "res = (False, buf, s1)" using c assms(1) by (simp add: egd_get_bytes_def)
    moreover have "fills 0 len buf s opn opn (False, buf, s1)"
      using r True by (intro fills_stop [where sc = sc and evs = evs]) auto
    ultimately show ?thesis by blast
  next
    case False
    then have l: "fills 0 len buf s1 [] [sock] res"
      using c assms egd_loop_fills [of sock buf 0 len s1 res] by (simp add: egd_get_bytes_def)
    have "fills 0 len buf s opn opn res"
      by (rule fills_trans [where ?e1.0 = evs and scr = sc and len_r = len]) (use r l False in auto)
    then show ?thesis by blast
  qed
qed

lemma egd_get_bytes_returns:
  assumes "len \<le> length buf" and "fair_script (script s)"
  shows "\<exists>res. egd_get_bytes env buf len s = Some res"
proof -
  obtain sock s1 where c: "egd_connect env s = (sock, s1)" by fastforce
  then have "fair_script (script s1)" using egd_connect_run [OF c] assms(2) by auto
  then obtain res where "egd_loop sock buf 0 len s1 = Some res"
    using assms(1) egd_loop_returns [of 0 len buf s1 sock] by auto
  then have "egd_get_bytes env buf len s \<noteq> None" using c by (simp add: egd_get_bytes_def del: not_None_eq)
  then show ?thesis by blast
qed

section \<open>The contract of an entropy source\<close>

text \<open>
  What \<open>get_random_bytes\<close> needs of a source and promises in turn. When it returns, it has written
  only the requested part of the buffer, what it wrote is the last part of what was delivered,
  success means the whole part is written, and every socket it opened is closed; and it returns
  when its calls are not interrupted for ever.
\<close>

definition source_run :: "nat \<Rightarrow> u8 list \<Rightarrow> rnd \<Rightarrow> bool \<times> u8 list \<times> rnd \<Rightarrow> bool" where
  "source_run len buf s res \<longleftrightarrow>
     (\<exists>ok s' evs pre d. res = (ok, put 0 d buf, s') \<and> events s' = events s @ evs
        \<and> delivered evs = pre @ d \<and> length d \<le> len \<and> (ok \<longrightarrow> length d = len)
        \<and> opened evs = closed evs \<and> list_all egd_request evs
        \<and> fair_script (script s') = fair_script (script s))"

locale entropy_source =
  fixes fill :: "u8 list \<Rightarrow> nat \<Rightarrow> rnd \<Rightarrow> (bool \<times> u8 list \<times> rnd) option"
  assumes run: "fill buf len s = Some res \<Longrightarrow> len \<le> length buf \<Longrightarrow> source_run len buf s res"
    and returns: "len \<le> length buf \<Longrightarrow> fair_script (script s) \<Longrightarrow> \<exists>res. fill buf len s = Some res"
begin

lemma fill_result:
  assumes "fill buf len s = Some (ok, b, s')" and "len \<le> length buf"
  obtains d evs pre where "b = put 0 d buf"
    "events s' = events s @ evs" "delivered evs = pre @ d" "length d \<le> len" "ok \<Longrightarrow> length d = len"
    "opened evs = closed evs" "list_all egd_request evs"
    "fair_script (script s') = fair_script (script s)" "length b = length buf"
proof -
  from run [OF assms] obtain d evs pre where r: "b = put 0 d buf"
    "events s' = events s @ evs" "delivered evs = pre @ d" "length d \<le> len" "ok \<longrightarrow> length d = len"
    "opened evs = closed evs" "list_all egd_request evs"
    "fair_script (script s') = fair_script (script s)" unfolding source_run_def by blast
  then have "length b = length buf" using assms(2) by (simp add: length_put)
  with r show ?thesis by (intro that) auto
qed

lemma fill_genuine:
  assumes "len \<le> length buf" and "fill buf len s = Some (True, buf', s')"
  shows "\<exists>evs. events s' = events s @ evs \<and> len \<le> length (delivered evs)
    \<and> buf' = drop (length (delivered evs) - len) (delivered evs) @ drop len buf"
  using run [OF assms(2,1)] unfolding source_run_def by (auto simp: put_def)

end

lemma fills_source_run: "fills 0 len buf s opn opn res \<Longrightarrow> source_run len buf s res"
  by (elim fillsE) (auto simp: source_run_def)

interpretation device: entropy_source "\<lambda>buf len. read_all fd buf 0 len" for fd
  by unfold_locales (rule fills_source_run [OF read_all_fills] read_all_returns; simp)+

interpretation egd: entropy_source "egd_get_bytes env" for env
  by unfold_locales (use egd_get_bytes_fills fills_source_run egd_get_bytes_returns in blast)+

text \<open>The states the file's static variables go through.\<close>

definition source_inv :: "rnd \<Rightarrow> bool" where
  "source_inv s \<longleftrightarrow> random_source s \<in> {0, 1, 2, -1} \<and> (random_source s = 1 \<longleftrightarrow> 0 \<le> random_fd s)"

lemma sys_open_run:
  assumes "sys_open path s = (fd, s')"
  shows "s' = s\<lparr>script := stl (script s), events := events s @ [EvOpen path fd]\<rparr>"
  using assms by (auto simp: sys_open_def next_answer_def log_event_def)

lemma egd_get_bytes_vars:
  assumes "egd_get_bytes env buf len s = Some (ok, b, s')" and "len \<le> length buf"
  shows "\<exists>sc evs. s' = s\<lparr>script := sc, events := events s @ evs\<rparr> \<and> fair_script sc = fair_script (script s)
    \<and> opened evs = closed evs \<and> list_all egd_request evs"
  using egd_get_bytes_fills [OF assms] by (elim exE fillsE) (metis prod.inject)

text \<open>The state in which \<open>probe_source\<close> turns to the entropy pool, or has a descriptor.\<close>

lemma probe_source_eq:
  obtains fd s1 sc evs where "s1 = s\<lparr>script := sc, events := events s @ evs\<rparr>"
    "fair_script sc = fair_script (script s)" "opened evs = closed evs" "list_all egd_request evs"
    "probe_source env s = (if 0 \<le> fd then Some (s1\<lparr>random_fd := fd, random_source := 1\<rparr>)
      else map_option (\<lambda>(ok, _, s). s\<lparr>random_source := if ok then 2 else -1\<rparr>) (egd_get_bytes env [0] 1 s1))"
proof -
  obtain fd s1 where o1: "sys_open ''/dev/urandom'' s = (fd, s1)" by fastforce
  define o2 where "o2 = (if fd < 0 then sys_open ''/dev/random'' s1 else (fd, s1))"
  obtain fd' s2 where fd': "o2 = (fd', s2)" by fastforce
  obtain sc evs where s2: "s2 = s\<lparr>script := sc, events := events s @ evs\<rparr>"
      "fair_script sc = fair_script (script s)" "opened evs = closed evs" "list_all egd_request evs"
    using sys_open_run [OF o1] sys_open_run [of "''/dev/random''" s1 fd' s2] fd'
    by (cases "fd < 0") (auto simp: o2_def event_defs)
  have "probe_source env s = (if 0 \<le> fd' then Some (s2\<lparr>random_fd := fd', random_source := 1\<rparr>)
      else map_option (\<lambda>(ok, _, s). s\<lparr>random_source := if ok then 2 else -1\<rparr>) (egd_get_bytes env [0] 1 s2))"
    using o1 fd' by (auto simp: probe_source_def o2_def split: option.splits if_splits)
  then show ?thesis by (rule that [OF s2])
qed

lemma probe_source_run:
  assumes "probe_source env s = Some s'"
  shows "\<exists>evs. events s' = events s @ evs \<and> opened evs = closed evs
     \<and> list_all egd_request evs \<and> fair_script (script s') = fair_script (script s)
     \<and> random_source s' \<in> {1, 2, -1}
     \<and> (random_source s' = 1 \<and> 0 \<le> random_fd s' \<or> random_source s' \<noteq> 1 \<and> random_fd s' = random_fd s)"
proof -
  obtain fd s1 sc evs where p: "s1 = s\<lparr>script := sc, events := events s @ evs\<rparr>"
    "fair_script sc = fair_script (script s)" "opened evs = closed evs" "list_all egd_request evs"
    "probe_source env s = (if 0 \<le> fd then Some (s1\<lparr>random_fd := fd, random_source := 1\<rparr>)
      else map_option (\<lambda>(ok, _, s). s\<lparr>random_source := if ok then 2 else -1\<rparr>) (egd_get_bytes env [0] 1 s1))"
    by (rule probe_source_eq)
  show ?thesis
  proof (cases "0 \<le> fd")
    case True
    then show ?thesis using p assms by auto
  next
    case False
    with assms p(5) obtain ok b s3 where e: "egd_get_bytes env [0] 1 s1 = Some (ok, b, s3)"
      and s': "s' = s3\<lparr>random_source := if ok then 2 else -1\<rparr>" by auto
    from egd_get_bytes_vars [OF e] obtain sc' evs' where
      "s3 = s1\<lparr>script := sc', events := events s1 @ evs'\<rparr>" "fair_script sc' = fair_script (script s1)"
      "opened evs' = closed evs'" "list_all egd_request evs'" by auto
    with p s' show ?thesis by (cases ok) (auto intro!: exI [of _ "evs @ evs'"])
  qed
qed

lemma probe_source_returns:
  assumes "fair_script (script s)"
  shows "\<exists>s'. probe_source env s = Some s'"
proof -
  obtain fd s1 sc evs where p: "s1 = s\<lparr>script := sc, events := events s @ evs\<rparr>"
    "fair_script sc = fair_script (script s)"
    "probe_source env s = (if 0 \<le> fd then Some (s1\<lparr>random_fd := fd, random_source := 1\<rparr>)
      else map_option (\<lambda>(ok, _, s). s\<lparr>random_source := if ok then 2 else -1\<rparr>) (egd_get_bytes env [0] 1 s1))"
    by (rule probe_source_eq)
  moreover obtain res where "egd_get_bytes env [0] 1 s1 = Some res"
    using egd_get_bytes_returns [of 1 "[0]" s1 env] assms p by auto
  ultimately show ?thesis by auto
qed

lemma source_run_after:
  assumes "source_run len buf s1 res" and "events s1 = events s @ evs" "opened evs = closed evs"
    "list_all egd_request evs" "fair_script (script s1) = fair_script (script s)"
  shows "source_run len buf s res"
proof -
  from assms(1) obtain ok s' evs' pre d where
    "res = (ok, put 0 d buf, s')" "events s' = events s1 @ evs'" "delivered evs' = pre @ d"
    "length d \<le> len" "ok \<longrightarrow> length d = len" "opened evs' = closed evs'" "list_all egd_request evs'"
    "fair_script (script s') = fair_script (script s1)"
    unfolding source_run_def by blast
  then show ?thesis
    unfolding source_run_def using assms(2-5)
    by (intro exI [of _ ok] exI [of _ s'] exI [of _ "evs @ evs'"] exI [of _ "delivered evs @ pre"] exI [of _ d]) auto
qed

text \<open>\<open>get_random_bytes\<close> is the probe, when there was none yet, and then the source it found.\<close>

definition from_source :: "renv \<Rightarrow> u8 list \<Rightarrow> nat \<Rightarrow> rnd \<Rightarrow> (bool \<times> u8 list \<times> rnd) option" where
  "from_source env buf len s =
     (if random_source s = 1 then read_all (random_fd s) buf 0 len s
      else if random_source s = 2 then egd_get_bytes env buf len s
      else Some (False, buf, s))"

lemma from_source_run:
  assumes "from_source env buf len s = Some res" and "len \<le> length buf"
  shows "source_run len buf s res"
proof -
  have "source_run len buf s (False, buf, s)"
    unfolding source_run_def
    by (intro exI [of _ False] exI [of _ s] exI [of _ "[]"]) (auto simp: event_defs)
  then show ?thesis
    using device.run [OF _ assms(2)] egd.run [OF _ assms(2)] assms(1)
    by (auto simp: from_source_def split: if_splits)
qed

lemma from_source_returns:
  assumes "len \<le> length buf" and "fair_script (script s)"
  shows "\<exists>res. from_source env buf len s = Some res"
  using device.returns [OF assms] egd.returns [OF assms] by (auto simp: from_source_def)

lemma get_random_bytes_probed:
  assumes "get_random_bytes env buf len s = Some res"
  obtains s1 evs where "events s1 = events s @ evs" "opened evs = closed evs" "list_all egd_request evs"
    "fair_script (script s1) = fair_script (script s)"
    "random_source s = 0 \<Longrightarrow> random_source s1 \<in> {1, 2, -1}" "random_source s \<noteq> 0 \<Longrightarrow> s1 = s"
    "source_inv s \<Longrightarrow> source_inv s1" "from_source env buf len s1 = Some res"
proof (cases "random_source s = 0")
  case True
  then obtain s1 where p: "probe_source env s = Some s1" "from_source env buf len s1 = Some res"
    using assms by (auto simp: get_random_bytes_def from_source_def split: option.splits)
  from probe_source_run [OF p(1)] obtain evs where
    "events s1 = events s @ evs" "opened evs = closed evs" "list_all egd_request evs"
    "fair_script (script s1) = fair_script (script s)" "random_source s1 \<in> {1, 2, -1}"
    "random_source s1 = 1 \<and> 0 \<le> random_fd s1 \<or> random_source s1 \<noteq> 1 \<and> random_fd s1 = random_fd s" by blast
  with True p(2) show ?thesis by (intro that [of s1 evs]) (auto simp: source_inv_def)
next
  case False
  then show ?thesis
    using assms by (intro that [of s "[]"]) (auto simp: get_random_bytes_def from_source_def event_defs)
qed

lemma get_random_bytes_run:
  assumes "get_random_bytes env buf len s = Some res" and "len \<le> length buf"
  shows "source_run len buf s res"
  by (rule get_random_bytes_probed [OF assms(1)])
     (use source_run_after from_source_run [OF _ assms(2)] in blast)

lemma get_random_bytes_returns:
  assumes "len \<le> length buf" and "fair_script (script s)"
  shows "\<exists>res. get_random_bytes env buf len s = Some res"
proof -
  obtain s1 where p: "(if random_source s = 0 then probe_source env s else Some s) = Some s1"
    "fair_script (script s1)"
    using probe_source_returns [OF assms(2)] probe_source_run [of env s] assms(2)
    by (cases "random_source s = 0") auto
  have "get_random_bytes env buf len s = from_source env buf len s1"
    unfolding get_random_bytes_def p(1) by (simp add: from_source_def)
  then show ?thesis using from_source_returns [OF assms(1) p(2)] by simp
qed

interpretation pool: entropy_source "get_random_bytes env" for env
  by unfold_locales (use get_random_bytes_run get_random_bytes_returns in blast)+

section \<open>Properties\<close>

lemma lcg_fill_total: "i + n \<le> length p \<Longrightarrow> \<exists>b st. lcg_fill n i p st0 = Some (b, st) \<and> length b = length p"
proof (induction n arbitrary: i p st0)
  case (Suc n)
  let ?st = "st0 * 1103515245 + 12345"
  show ?case
    using Suc.IH [of "Suc i" "p[i := ucast (drop_bit 16 ?st)]" ?st] Suc.prems by (auto simp: wr_def Let_def)
qed simp

lemma fallback_total:
  assumes "len \<le> length buf"
  shows "\<exists>b s'. fallback_random_bytes env buf len s = Some (b, s') \<and> length b = length buf"
  using lcg_fill_total [of 0 len buf] assms
  by (fastforce simp: fallback_random_bytes_def Let_def split: prod.splits)

text \<open>
  A source that answers every read with data or with an interruption, and one that only interrupts.
\<close>

definition answering :: "answer stream \<Rightarrow> bool" where
  "answering sc \<longleftrightarrow> (\<forall>n. sc !! n = Err EINTR \<or> (\<exists>b d. sc !! n = Data (b # d)))"

lemma answering_step:
  assumes "answering sc"
  shows "answering (stl sc)" "shd sc = Err EINTR \<or> (\<exists>b d. shd sc = Data (b # d))"
  using assms unfolding answering_def by (metis snth.simps)+

lemma read_all_answering:
  "read_all fd buf p len s = Some res \<Longrightarrow> answering (script s) \<Longrightarrow> fst res"
proof (induction fd buf p len s res rule: read_all.raw_induct [rotated, consumes 1, case_names step])
  case (step f fd buf p len s res)
  obtain r s1 where rd: "sys_read fd len s = (r, s1)" by fastforce
  have s1: "answering (script s1)"
    using sys_read_run(1) [OF rd] answering_step(1) [OF step.prems] by simp
  have "len = 0 \<or> r = Inl EINTR \<or> (\<exists>bs. r = Inr bs \<and> bs \<noteq> [])"
    using rd answering_step(2) [OF step.prems] by (auto simp: sys_read_def next_answer_def Let_def take_Cons')
  then show ?case
    using step.hyps rd by (auto split: if_splits option.splits dest!: step.IH [OF _ s1])
qed

lemma read_all_stuck:
  "read_all fd buf p len s = Some res \<Longrightarrow> script s = sconst (Err EINTR) \<Longrightarrow> len = 0"
proof (induction fd buf p len s res rule: read_all.raw_induct [rotated, consumes 1, case_names step])
  case (step f fd buf p len s res)
  have "shd (script s) = Err EINTR" "stl (script s) = script s" by (simp_all add: step.prems)
  then have "sys_read fd len s = (Inl EINTR, log_event (EvRead fd len (Inl EINTR)) s)"
    by (simp add: sys_read_def next_answer_def Let_def)
  then show ?case using step.hyps step.prems by (auto split: if_splits dest!: step.IH)
qed

text \<open>
  C11. Entropy is genuine or the call fails. Without \<open>SOLCOMPAT_ALLOW_WEAK_RANDOM\<close>, a request of at
  most 256 bytes into a large enough buffer returns unless the system interrupts for ever from some
  point on (an endless run of \<open>EINTR\<close> does keep it in its read loop for ever); when it returns, it
  returns either \<open>EIO\<close> or success with the buffer filled by exactly the last bytes that \<open>read\<close>
  delivered from the device or the entropy pool, however the reads are split or interrupted; the
  bytes after the request are untouched, every request sent to the pool is well formed and every
  socket opened is closed; and a cached device that answers every read with some data, or with
  \<open>EINTR\<close> and then data, makes the call succeed.
\<close>

theorem getentropy_genuine:
  assumes "len \<le> 256" and "len \<le> length buf" and "weak_random_env env = None"
  shows "(fair_script (script s) \<longrightarrow> getentropy env buf len s \<noteq> None)
    \<and> (\<forall>r buf' s'. getentropy env buf len s = Some (r, buf', s') \<longrightarrow>
         (\<exists>evs. events s' = events s @ evs \<and> opened evs = closed evs \<and> list_all egd_request evs
            \<and> length buf' = length buf \<and> drop len buf' = drop len buf
            \<and> (r = None \<and> (\<exists>pre. delivered evs = pre @ take len buf') \<or> r = Some EIO)))
    \<and> (random_source s = 1 \<and> fair_script (script s) \<and> answering (script s)
         \<longrightarrow> (\<exists>buf' s'. getentropy env buf len s = Some (None, buf', s')))
    \<and> (random_source s = 1 \<and> 0 < len \<and> script s = sconst (Err EINTR)
         \<longrightarrow> getentropy env buf len s = None)" (is "?ret \<and> ?safe \<and> ?succ \<and> ?stuck")
proof (intro conjI)
  have eq: "getentropy env buf len s = map_option (\<lambda>(ok, b, s'). (if ok then None else Some EIO, b, s'))
      (get_random_bytes env buf len s)"
    using assms by (auto simp: getentropy_def split: option.split)
  show ?ret
    using pool.returns [OF assms(2), of s env] by (auto simp: eq)
  show ?safe
  proof (intro allI impI)
    fix r buf' s' assume "getentropy env buf len s = Some (r, buf', s')"
    then obtain ok where g: "get_random_bytes env buf len s = Some (ok, buf', s')"
      and r: "r = (if ok then None else Some EIO)" unfolding eq by auto
    obtain d evs pre where f: "buf' = put 0 d buf" "events s' = events s @ evs" "delivered evs = pre @ d"
      "length d \<le> len" "ok \<Longrightarrow> length d = len" "opened evs = closed evs" "list_all egd_request evs"
      "length buf' = length buf"
      by (rule pool.fill_result [OF g assms(2)]) (rule that)
    have "drop len buf' = drop len buf" "ok \<Longrightarrow> take len buf' = d"
      using f(1,4,5) assms(2) by (auto simp: put_def)
    with f r show "\<exists>evs. events s' = events s @ evs \<and> opened evs = closed evs \<and> list_all egd_request evs
            \<and> length buf' = length buf \<and> drop len buf' = drop len buf
            \<and> (r = None \<and> (\<exists>pre. delivered evs = pre @ take len buf') \<or> r = Some EIO)" by auto
  qed
  have dev: "get_random_bytes env buf len s = read_all (random_fd s) buf 0 len s" if "random_source s = 1"
    using that by (simp add: get_random_bytes_def)
  show ?succ
  proof
    assume a: "random_source s = 1 \<and> fair_script (script s) \<and> answering (script s)"
    then obtain ok b s' where "read_all (random_fd s) buf 0 len s = Some (ok, b, s')"
      using device.returns [OF assms(2)] by (metis prod_cases3)
    with a dev read_all_answering show "\<exists>buf' s'. getentropy env buf len s = Some (None, buf', s')"
      by (auto simp: eq)
  qed
  show ?stuck
    using dev read_all_stuck [of "random_fd s" buf 0 len s] by (cases "read_all (random_fd s) buf 0 len s") (auto simp: eq)
qed

definition demo_env :: renv where
  "demo_env = \<lparr>egd_socket_env = None, weak_random_env = None, sun_path_size = 108, hrtime = 0,
     pid_time_addr = (0, 0, 0), stack_bytes = \<lambda>_. replicate 16 1\<rparr>"

definition demo_state :: "answer stream \<Rightarrow> int \<Rightarrow> rnd" where
  "demo_state sc src = \<lparr>script = sc, events = [], random_source = src, random_fd = -1, seeded = False,
     lcg_state = 0, arc4_state = (1, 0, 0, 0), arc4_initialized = True, arc4_count = 0\<rparr>"

definition demo_script :: "answer stream" where
  "demo_script = [Err EINTR, Data [7, 8], Err EINTR] @- sconst (Data [9])"

lemma demo_script_answers: "fair_script demo_script" "answering demo_script"
proof -
  have "demo_script !! n = Err EINTR \<or> (\<exists>b d. demo_script !! n = Data (b # d))" for n
  proof (cases "n < 3")
    case True
    then have "n \<in> {0, 1, 2}" by auto
    then show ?thesis by (auto simp: demo_script_def numeral_2_eq_2)
  next
    case False
    then obtain k where "n = Suc (Suc (Suc k))" by (metis Suc_le_D not_less numeral_3_eq_3 Suc_le_mono)
    then show ?thesis by (simp add: demo_script_def)
  qed
  then show "answering demo_script" by (simp add: answering_def)
  have "demo_script !! (n + 3) \<noteq> Err EINTR" for n by (simp add: demo_script_def numeral_3_eq_3)
  then show "fair_script demo_script" unfolding fair_script_def by (meson le_add1)
qed

lemma getentropy_genuine_witness:
  "\<exists>buf' s' evs. getentropy demo_env [0, 0, 0, 5] 3 (demo_state demo_script 1) = Some (None, buf', s')
    \<and> events s' = evs \<and> opened evs = closed evs \<and> drop 3 buf' = [5] \<and> (\<exists>pre. delivered evs = pre @ take 3 buf')"
proof -
  let ?s = "demo_state demo_script 1"
  have "script ?s = demo_script" "random_source ?s = 1" "events ?s = []" by (simp_all add: demo_state_def)
  moreover from this obtain buf' s' where "getentropy demo_env [0, 0, 0, 5] 3 ?s = Some (None, buf', s')"
    using getentropy_genuine [of 3 "[0, 0, 0, 5]" demo_env ?s] demo_script_answers by (auto simp: demo_env_def)
  ultimately show ?thesis
    using getentropy_genuine [of 3 "[0, 0, 0, 5]" demo_env ?s] by (auto simp: demo_env_def)
qed

lemma read_all_vars:
  assumes "read_all fd buf 0 len s = Some (ok, b, s')" and "len \<le> length buf"
  shows "random_source s' = random_source s" "random_fd s' = random_fd s"
  using read_all_fills [OF assms(1)] assms(2) by (auto elim!: fillsE)

lemma get_random_bytes_source:
  assumes "len \<le> length buf" and "get_random_bytes env buf len s = Some (ok, b, s')"
  shows "random_source s \<noteq> 0 \<Longrightarrow> random_source s' = random_source s \<and> random_fd s' = random_fd s"
    and "source_inv s \<Longrightarrow> source_inv s' \<and> random_source s' \<noteq> 0"
    and "ok \<Longrightarrow> random_source s' \<in> {1, 2}"
proof -
  obtain s1 where p: "random_source s = 0 \<Longrightarrow> random_source s1 \<in> {1, 2, -1}"
    "random_source s \<noteq> 0 \<Longrightarrow> s1 = s" "source_inv s \<Longrightarrow> source_inv s1"
    "from_source env buf len s1 = Some (ok, b, s')"
    by (rule get_random_bytes_probed [OF assms(2)]) (rule that)
  have v: "random_source s' = random_source s1 \<and> random_fd s' = random_fd s1"
    using read_all_vars [of "random_fd s1" buf len s1 ok b s'] egd_get_bytes_vars [of env buf len s1 ok b s']
      p(4) assms(1) by (auto simp: from_source_def split: if_splits)
  show "random_source s \<noteq> 0 \<Longrightarrow> random_source s' = random_source s \<and> random_fd s' = random_fd s"
    using v p(2) by simp
  show "source_inv s \<Longrightarrow> source_inv s' \<and> random_source s' \<noteq> 0"
    using v p(1-3) by (cases "random_source s = 0") (auto simp: source_inv_def)
  show "ok \<Longrightarrow> random_source s' \<in> {1, 2}"
    using v p(4) by (auto simp: from_source_def split: if_splits)
qed

text \<open>The public operations as steps on the static variables, with any buffer that is large enough.\<close>

inductive rnd_step :: "renv \<Rightarrow> rnd \<Rightarrow> rnd \<Rightarrow> bool" for env where
  getentropy_step: "len \<le> length buf \<Longrightarrow> getentropy env buf len s = Some (r, b, s') \<Longrightarrow> rnd_step env s s'"
| getrandom_step: "len \<le> length buf \<Longrightarrow> getrandom env buf len fl s = Some (n, b, s') \<Longrightarrow> rnd_step env s s'"
| arc4_step: "arc4random env s = Some (w, s') \<Longrightarrow> rnd_step env s s'"

definition rnd_start :: "answer stream \<Rightarrow> rnd" where
  "rnd_start sc = \<lparr>script = sc, events = [], random_source = 0, random_fd = -1, seeded = False,
     lcg_state = 0, arc4_state = (0, 0, 0, 0), arc4_initialized = False, arc4_count = 0\<rparr>"

text \<open>What a step may do to the source and the generator's counter.\<close>

definition sticky :: "rnd \<Rightarrow> rnd \<Rightarrow> bool" where
  "sticky s s' \<longleftrightarrow> (source_inv s \<longrightarrow> source_inv s')
     \<and> (random_source s \<noteq> 0 \<longrightarrow> random_source s' = random_source s \<and> random_fd s' = random_fd s)"

definition count_inv :: "rnd \<Rightarrow> bool" where
  "count_inv s \<longleftrightarrow> 0 \<le> arc4_count s \<and> arc4_count s \<le> 1600001"

lemma sticky_refl [simp]: "sticky s s"
  by (simp add: sticky_def)

lemma fallback_vars:
  "fallback_random_bytes env buf len s = Some (b, s') \<Longrightarrow>
   random_source s' = random_source s \<and> random_fd s' = random_fd s \<and> arc4_count s' = arc4_count s"
  by (auto simp: fallback_random_bytes_def Let_def split: if_splits prod.splits)

lemma get_random_bytes_count:
  assumes "len \<le> length buf" and "get_random_bytes env buf len s = Some (ok, b, s')"
  shows "arc4_count s' = arc4_count s"
proof -
  have ra: "arc4_count t' = arc4_count t" if "read_all fd buf 0 len t = Some (ok, b, t')" for t t' fd
    using read_all_fills [OF that] assms(1) by (auto elim!: fillsE)
  have eg: "arc4_count t' = arc4_count t" if "egd_get_bytes env buf len t = Some (k, b, t')" "len \<le> length buf"
    for t t' buf len k b using egd_get_bytes_vars [OF that] by auto
  have pr: "arc4_count t' = arc4_count t" if "probe_source env t = Some t'" for t t'
    using that
    by (auto simp: probe_source_def sys_open_def next_answer_def log_event_def Let_def
        split: if_splits option.splits prod.splits dest!: eg)
  show ?thesis
    using assms by (auto simp: get_random_bytes_def split: if_splits option.splits dest!: ra eg pr)
qed

lemma getentropy_sticky:
  assumes "len \<le> length buf" and "getentropy env buf len s = Some (r, b, s')"
  shows "sticky s s' \<and> arc4_count s' = arc4_count s"
proof (cases "len > 256")
  case False
  with assms(2) obtain ok b1 s1 where g: "get_random_bytes env buf len s = Some (ok, b1, s1)"
    by (auto simp: getentropy_def split: option.splits)
  have "sticky s s1 \<and> arc4_count s1 = arc4_count s"
    using get_random_bytes_source [OF assms(1) g] get_random_bytes_count [OF assms(1) g]
    by (auto simp: sticky_def)
  moreover have "random_source s' = random_source s1 \<and> random_fd s' = random_fd s1 \<and> arc4_count s' = arc4_count s1"
    using assms(2) g False by (auto simp: getentropy_def split: if_splits dest!: fallback_vars)
  ultimately show ?thesis
    unfolding sticky_def by (metis source_inv_def)
qed (use assms in \<open>auto simp: getentropy_def\<close>)

lemma getrandom_sticky:
  assumes "len \<le> length buf" and "getrandom env buf len fl s = Some (r, b, s')"
  shows "sticky s s' \<and> arc4_count s' = arc4_count s"
proof -
  from assms(2) obtain ok b1 s1 where g: "get_random_bytes env buf len s = Some (ok, b1, s1)"
    by (auto simp: getrandom_def split: option.splits)
  have "sticky s s1 \<and> arc4_count s1 = arc4_count s"
    using get_random_bytes_source [OF assms(1) g] get_random_bytes_count [OF assms(1) g]
    by (auto simp: sticky_def)
  then show ?thesis
    using assms(2) g
    by (auto simp: getrandom_def sticky_def source_inv_def split: if_splits dest!: fallback_vars)
qed

text \<open>The automatic array \<open>seed\<close> has its sixteen bytes, whatever they are.\<close>

definition wf_renv :: "renv \<Rightarrow> bool" where
  "wf_renv env \<longleftrightarrow> (\<forall>s. length (stack_bytes env s) = 16)"

lemma bzero_loop_eq: "p + n \<le> length s \<Longrightarrow> bzero_loop n p s = Some (take p s @ replicate n 0 @ drop (p + n) s)"
proof (induction n arbitrary: p s)
  case (Suc n)
  then have "bzero_loop (Suc n) p s = Some (take (p + 1) (s[p := 0]) @ replicate n 0 @ drop (p + 1 + n) (s[p := 0]))"
    by (simp add: wr_def)
  then show ?case using Suc.prems by (simp add: take_Suc_conv_app_nth)
qed simp

lemma getentropy_length:
  assumes "getentropy env buf len s = Some (r, b, s')" and "len \<le> length buf"
  shows "length b = length buf \<and> fair_script (script s') = fair_script (script s)"
proof (cases "len > 256")
  case False
  with assms(1) obtain ok b1 s1 where g: "get_random_bytes env buf len s = Some (ok, b1, s1)"
    by (auto simp: getentropy_def split: option.splits)
  have l: "length b1 = length buf" "fair_script (script s1) = fair_script (script s)"
    by (rule pool.fill_result [OF g assms(2)], simp)+
  have "length b' = length b1 \<and> script t = script s1" if "fallback_random_bytes env b1 len s1 = Some (b', t)" for b' t
    using that fallback_total [of len b1 env s1] l assms(2)
    by (auto simp: fallback_random_bytes_def Let_def split: prod.splits if_splits)
  with g l False assms(1) show ?thesis by (auto simp: getentropy_def split: if_splits)
qed (use assms in \<open>auto simp: getentropy_def\<close>)

lemma getentropy_returns:
  assumes "len \<le> length buf" and "fair_script (script s)"
  shows "\<exists>r b s'. getentropy env buf len s = Some (r, b, s')"
proof -
  obtain ok b s' where g: "get_random_bytes env buf len s = Some (ok, b, s')"
    using pool.returns [OF assms] by (metis prod_cases3)
  have "length b = length buf" by (rule pool.fill_result [OF g assms(1)])
  then show ?thesis
    using g assms(1) fallback_total [of len b env s'] by (auto simp: getentropy_def)
qed

lemma arc4_stir_result:
  assumes "wf_renv env" and "getentropy env (stack_bytes env s) 16 s = Some (r, seed, s1)"
  shows "arc4_stir env s = Some (replicate 16 0,
       s1\<lparr>arc4_state := (be32 seed 0, be32 seed 4, be32 seed 8, be32 seed 12),
          arc4_count := 0, arc4_initialized := True\<rparr>)"
proof -
  have "length seed = 16" using getentropy_length [OF assms(2)] assms(1) by (simp add: wf_renv_def)
  then have "explicit_bzero seed 16 = Some (replicate 16 0)"
    by (simp add: explicit_bzero_def bzero_loop_eq del: bzero_loop.simps)
  with assms(2) show ?thesis by (simp add: arc4_stir_def)
qed

lemma arc4random_run:
  assumes "wf_renv env" and "arc4random env s = Some (w, s')"
  shows "sticky s s' \<and> (count_inv s \<longrightarrow> count_inv s') \<and> fair_script (script s') = fair_script (script s)"
proof (cases "\<not> arc4_initialized s \<or> arc4_count s > 1600000")
  case True
  have l: "length (stack_bytes env s) = 16" using assms(1) by (simp add: wf_renv_def)
  from True assms(2) obtain r seed s1 where g: "getentropy env (stack_bytes env s) 16 s = Some (r, seed, s1)"
    by (auto simp: arc4random_def arc4_next_def arc4_stir_def split: option.splits)
  have "sticky s s1" "fair_script (script s1) = fair_script (script s)"
    using getentropy_sticky [OF _ g] getentropy_length [OF g] l by simp_all
  moreover have "random_source s' = random_source s1 \<and> random_fd s' = random_fd s1 \<and> script s' = script s1
      \<and> arc4_count s' = 1"
    using True assms(2) arc4_stir_result [OF assms(1) g]
    by (auto simp: arc4random_def arc4_next_def Let_def)
  moreover from this have "source_inv s' = source_inv s1" by (simp add: source_inv_def)
  ultimately show ?thesis by (simp add: sticky_def count_inv_def)
next
  case False
  then show ?thesis
    using assms(2) by (auto simp: arc4random_def arc4_next_def Let_def sticky_def source_inv_def count_inv_def)
qed

lemma arc4random_returns:
  assumes "wf_renv env" and "fair_script (script s)"
  shows "\<exists>w s'. arc4random env s = Some (w, s')"
proof -
  have "length (stack_bytes env s) = 16" using assms(1) by (simp add: wf_renv_def)
  then obtain r seed s1 where "getentropy env (stack_bytes env s) 16 s = Some (r, seed, s1)"
    using getentropy_returns [OF _ assms(2), of 16 "stack_bytes env s" env] by auto
  then show ?thesis
    using arc4_stir_result [OF assms(1)] by (auto simp: arc4random_def arc4_next_def Let_def)
qed

text \<open>
  C15. In every state the library can reach, \<open>random_source\<close> is one of its four documented values
  and is 1 exactly when a descriptor is cached; once probed, the source and its descriptor never
  change again; and the counter of \<open>arc4random\<close> stays within 1600001, so it cannot overflow.
\<close>

theorem random_state_invariant:
  assumes "wf_renv env" and "(rnd_step env)\<^sup>*\<^sup>* (rnd_start sc) s" and "(rnd_step env)\<^sup>*\<^sup>* s s'"
  shows "source_inv s' \<and> count_inv s'
    \<and> (random_source s \<noteq> 0 \<longrightarrow> random_source s' = random_source s \<and> random_fd s' = random_fd s)"
proof -
  have step: "sticky a b \<and> (count_inv a \<longrightarrow> count_inv b)" if "rnd_step env a b" for a b
    using that
  proof cases
    case (arc4_step w)
    then show ?thesis using arc4random_run [OF assms(1)] by auto
  qed (use getentropy_sticky getrandom_sticky in \<open>auto simp: count_inv_def\<close>)
  have star: "sticky a b \<and> (count_inv a \<longrightarrow> count_inv b)" if "(rnd_step env)\<^sup>*\<^sup>* a b" for a b
    using that by (induction rule: rtranclp_induct) (use step in \<open>auto simp: sticky_def\<close>)
  have "source_inv (rnd_start sc)" "count_inv (rnd_start sc)"
    by (auto simp: rnd_start_def source_inv_def count_inv_def)
  then show ?thesis using star [OF assms(2)] star [OF assms(3)] by (auto simp: sticky_def)
qed

lemma random_state_invariant_witness:
  "\<exists>s. rnd_step demo_env (rnd_start demo_script) s \<and> source_inv s \<and> count_inv s"
proof -
  let ?s = "rnd_start demo_script"
  obtain r b s where "getentropy demo_env [0] 1 ?s = Some (r, b, s)"
    using getentropy_returns [of 1 "[0]" ?s demo_env] demo_script_answers by (auto simp: rnd_start_def)
  then have st: "rnd_step demo_env ?s s" by (intro getentropy_step [of 1 "[0]"]) simp_all
  moreover have "wf_renv demo_env" by (simp add: wf_renv_def demo_env_def)
  ultimately show ?thesis
    using random_state_invariant [of demo_env demo_script s s] by blast
qed

text \<open>
  Without any entropy source and without the override, \<open>arc4random\<close> is seeded from the
  indeterminate contents of its stack array: \<open>arc4_stir\<close> drops the failure of \<open>getentropy\<close> and marks
  the generator as initialised.
\<close>

lemma arc4_stir_unseeded:
  assumes "wf_renv env" and "weak_random_env env = None" and "random_source s = -1"
  shows "arc4_stir env s = Some (replicate 16 0,
    s\<lparr>arc4_state := (be32 (stack_bytes env s) 0, be32 (stack_bytes env s) 4,
                    be32 (stack_bytes env s) 8, be32 (stack_bytes env s) 12),
      arc4_count := 0, arc4_initialized := True\<rparr>)"
proof -
  have "getentropy env (stack_bytes env s) 16 s = Some (Some EIO, stack_bytes env s, s)"
    using assms by (simp add: getentropy_def get_random_bytes_def)
  from arc4_stir_result [OF assms(1) this] show ?thesis .
qed

lemma arc4_stir_unseeded_witness:
  "arc4_stir demo_env (demo_state demo_script (-1)) = Some (replicate 16 0,
    (demo_state demo_script (-1))\<lparr>arc4_state :=
       (be32 (stack_bytes demo_env (demo_state demo_script (-1))) 0, be32 (stack_bytes demo_env (demo_state demo_script (-1))) 4,
        be32 (stack_bytes demo_env (demo_state demo_script (-1))) 8, be32 (stack_bytes demo_env (demo_state demo_script (-1))) 12),
      arc4_count := 0, arc4_initialized := True\<rparr>)"
  by (rule arc4_stir_unseeded) (simp_all add: wf_renv_def demo_env_def demo_state_def)

section \<open>\<open>arc4random_uniform\<close>\<close>

lemma uniform_min_eq: "0 < ub \<Longrightarrow> unat (uniform_min ub) = 2 ^ 32 mod unat ub"
proof -
  assume "0 < ub"
  then have "0 < unat ub" by (simp add: word_less_nat_alt)
  then have "unat (- ub) = 2 ^ 32 - unat ub" using unat_sub_if' [of 0 ub] by simp
  moreover have "unat ub \<le> 2 ^ 32" using unat_u32 [of ub] by simp
  then have "(2 ^ 32 - unat ub) mod unat ub = 2 ^ 32 mod unat ub" by (metis le_mod_geq)
  ultimately show ?thesis by (simp add: uniform_min_def unat_mod)
qed

lemma card_residues:
  assumes "x < (m :: nat)"
  shows "card {r. a \<le> r \<and> r < a + m * q \<and> r mod m = x} = q"
proof (induction q)
  case (Suc q)
  define b where "b = a + m * q"
  have "\<exists>!r. b \<le> r \<and> r < b + m \<and> r mod m = x"
  proof (rule ex_ex1I)
    define r where "r = b + (x + m - b mod m) mod m"
    have "r mod m = (b mod m + (x + m - b mod m)) mod m" by (simp add: r_def mod_add_left_eq mod_add_right_eq)
    also have "b mod m + (x + m - b mod m) = x + m" using assms mod_less_divisor [of m b] by linarith
    also have "(x + m) mod m = x" using assms by simp
    finally show "\<exists>r. b \<le> r \<and> r < b + m \<and> r mod m = x" using assms by (intro exI [of _ r]) (auto simp: r_def)
  next
    fix r s assume r: "b \<le> r \<and> r < b + m \<and> r mod m = x" and s: "b \<le> s \<and> s < b + m \<and> s mod m = x"
    have "u = v" if "u \<le> v" "b \<le> u" "v < b + m" "u mod m = v mod m" for u v
    proof -
      have "m dvd v - u" using mod_eq_dvd_iff_nat [of u v m] that by simp
      moreover have "v - u < m" using that by linarith
      ultimately show ?thesis using that by (auto dest: dvd_imp_le)
    qed
    from this [of r s] this [of s r] show "r = s" using r s by (cases "r \<le> s") auto
  qed
  then obtain r0 where r0: "{r. b \<le> r \<and> r < b + m \<and> r mod m = x} = {r0}" by (auto simp: set_eq_iff)
  have "{r. a \<le> r \<and> r < a + m * Suc q \<and> r mod m = x}
      = {r. a \<le> r \<and> r < a + m * q \<and> r mod m = x} \<union> {r. b \<le> r \<and> r < b + m \<and> r mod m = x}"
    by (auto simp: b_def)
  also have "card \<dots> = q + 1"
    using Suc by (subst card_Un_disjoint) (auto simp: r0 [symmetric], auto simp: b_def r0 [unfolded b_def])
  finally show ?case by simp
qed simp

text \<open>The draws of the generator from a state: the \<open>k\<close>-th value and the state after it.\<close>

primrec arc4_nth :: "renv \<Rightarrow> nat \<Rightarrow> rnd \<Rightarrow> (u32 \<times> rnd) option" where
  "arc4_nth env 0 s = arc4random env s"
| "arc4_nth env (Suc k) s = Option.bind (arc4random env s) (\<lambda>(_, s). arc4_nth env k s)"

lemma uniform_loop_first:
  assumes "arc4_nth env k s = Some (r, s')" and "m \<le> r"
    and "\<And>j t u. j < k \<Longrightarrow> arc4_nth env j s = Some (t, u) \<Longrightarrow> \<not> m \<le> t"
  shows "uniform_loop env m ub s = Some (r mod ub, s')"
  using assms
proof (induction k arbitrary: s)
  case 0
  then show ?case by (subst uniform_loop.simps) simp
next
  case (Suc k)
  from Suc.prems(1) obtain t u where t: "arc4random env s = Some (t, u)" "arc4_nth env k u = Some (r, s')"
    by (cases "arc4random env s") auto
  have "\<not> m \<le> t" using Suc.prems(3) [of 0 t u] t by simp
  moreover have "uniform_loop env m ub u = Some (r mod ub, s')"
    using Suc.prems(3) [of "Suc _"] t by (intro Suc.IH [OF t(2) Suc.prems(2)]) auto
  ultimately show ?case using t by (subst uniform_loop.simps) simp
qed

lemma uniform_accepted:
  assumes "0 < ub" and "x < ub"
  shows "card {r. uniform_min ub \<le> r \<and> r mod ub = x} = 2 ^ 32 div unat ub"
proof -
  define m where "m = unat ub"
  have m: "unat (uniform_min ub) = 2 ^ 32 mod m" using assms uniform_min_eq m_def by simp
  have "unat ` {r. uniform_min ub \<le> r \<and> r mod ub = x}
      = {r. 2 ^ 32 mod m \<le> r \<and> r < 2 ^ 32 mod m + m * (2 ^ 32 div m) \<and> r mod m = unat x}" (is "?L = ?R")
  proof (intro equalityI subsetI)
    fix n assume "n \<in> ?L"
    then obtain r where "n = unat r" "uniform_min ub \<le> r" "r mod ub = x" by blast
    then show "n \<in> ?R"
      using m unat_u32 [of r] by (auto simp: word_le_nat_alt m_def unat_mod mod_mult_div_eq)
  next
    fix n assume n: "n \<in> ?R"
    then have lt: "n < 2 ^ 32" by (simp add: mod_mult_div_eq)
    have u: "unat (of_nat n :: u32) = n" using lt by (simp add: unat_of_nat)
    then have "uniform_min ub \<le> of_nat n" "of_nat n mod ub = x"
      using n m by (auto simp: word_le_nat_alt word_unat_eq_iff unat_mod m_def)
    with u show "n \<in> ?L" by force
  qed
  moreover have "inj_on unat {r. uniform_min ub \<le> r \<and> r mod ub = x}"
    by (rule inj_onI) (erule word_unat_eq_iff [THEN iffD2])
  ultimately have "card {r. uniform_min ub \<le> r \<and> r mod ub = x} = card ?R" using card_image by force
  also have "\<dots> = 2 ^ 32 div m"
    using \<open>x < ub\<close> by (intro card_residues) (simp add: m_def word_less_nat_alt)
  finally show ?thesis by (simp add: m_def)
qed

text \<open>
  C13. \<open>arc4random_uniform\<close> returns the residue of the first draw that is not below its rejection
  bound as soon as the generator produces one; the result is below the upper bound; and the draws
  it accepts hit every residue equally often, so the result has no modulo bias.
\<close>

theorem arc4random_uniform_unbiased:
  assumes "2 \<le> ub" and "arc4_nth env k s = Some (r, s')" and "uniform_min ub \<le> r"
    and "\<And>j t u. j < k \<Longrightarrow> arc4_nth env j s = Some (t, u) \<Longrightarrow> t < uniform_min ub"
  shows "arc4random_uniform env ub s = Some (r mod ub, s') \<and> r mod ub < ub
    \<and> (\<forall>x < ub. card {r. uniform_min ub \<le> r \<and> r mod ub = x} = 2 ^ 32 div unat ub)"
proof -
  have ub: "0 < ub" "\<not> ub < 2"
    using assms(1) by (auto simp: not_less intro: less_le_trans [of 0 2])
  have "uniform_loop env (uniform_min ub) ub s = Some (r mod ub, s')"
    using assms by (intro uniform_loop_first) (auto simp: not_le)
  moreover have "r mod ub < ub" using ub by (simp add: word_mod_less_divisor)
  ultimately show ?thesis using ub uniform_accepted by (auto simp: arc4random_uniform_def)
qed

lemma arc4random_uniform_unbiased_witness:
  "arc4random_uniform demo_env 6 (demo_state demo_script 1)
     = Some (65536 mod 6, (demo_state demo_script 1)\<lparr>arc4_state := (65536, 1, 1, 0), arc4_count := 1\<rparr>)
   \<and> card {r. uniform_min 6 \<le> r \<and> r mod 6 = 5} = 2 ^ 32 div unat (6 :: u32)"
proof -
  have "arc4_nth demo_env 0 (demo_state demo_script 1)
      = Some (65536, (demo_state demo_script 1)\<lparr>arc4_state := (65536, 1, 1, 0), arc4_count := 1\<rparr>)"
    by (simp add: arc4random_def arc4_next_def demo_state_def arc4_mix_def)
  moreover have "uniform_min 6 \<le> 65536" by (simp add: uniform_min_def)
  ultimately show ?thesis
    using arc4random_uniform_unbiased [of 6 demo_env 0 "demo_state demo_script 1" 65536] by simp
qed

text \<open>
  \<open>arc4random_buf\<close> writes the requested bytes and nothing else, for every length, whether or not
  it is a multiple of four, when the calls that seed it are not interrupted for ever.
\<close>

lemma arc4random_buf_frame:
  "wf_renv env \<Longrightarrow> p + n \<le> length buf \<Longrightarrow> fair_script (script s) \<Longrightarrow>
   \<exists>d s'. arc4random_buf env buf p n s = Some (put p d buf, s') \<and> length d = n"
proof (induction env buf p n s rule: arc4random_buf.induct)
  case (1 env buf p n s)
  from arc4random_returns [OF "1.prems"(1,3)] obtain w s1 where w: "arc4random env s = Some (w, s1)" by blast
  have fair: "fair_script (script s1)" using arc4random_run [OF "1.prems"(1) w] "1.prems"(3) by simp
  have len: "length (be_bytes w) = 4" by (simp add: be_bytes_def)
  show ?case
  proof (cases "4 \<le> n")
    case True
    have m: "memcpy buf p (be_bytes w) 0 4 = Some (put p (be_bytes w) buf)"
      using memcpy_put [of p "be_bytes w" buf] len "1.prems" True by simp
    from "1.IH" [OF True w refl m] "1.prems" True len fair obtain d s' where
      d: "arc4random_buf env (put p (be_bytes w) buf) (p + 4) (n - 4) s1
           = Some (put (p + 4) d (put p (be_bytes w) buf), s')" "length d = n - 4"
      by (auto simp: length_put)
    have "put (p + 4) d (put p (be_bytes w) buf) = put p (be_bytes w @ d) buf"
      using put_put [of p "be_bytes w" buf d] len "1.prems" True by simp
    with d True w m len show ?thesis
      by (subst arc4random_buf.simps) (auto intro!: exI [of _ "be_bytes w @ d"])
  next
    case False
    have "memcpy buf p (be_bytes w) 0 n = Some (put p (take n (be_bytes w)) buf)"
      using len "1.prems" False by (simp add: memcpy_def put_def min_def)
    then show ?thesis
      using False w len "1.prems"
      by (subst arc4random_buf.simps) (auto intro!: exI [of _ "take n (be_bytes w)"])
  qed
qed

end
