(* ===== verification/Atomic_Ops.thy ===== *)
theory Atomic_Ops
  imports Prelude
begin

text \<open>
  Atomic intrinsics over stripe locks, \<open>src/src/atomic_ops.c\<close>.

  Memory is byte-addressed; one access reads or writes at most four bytes, so an eight-byte
  operation makes two accesses. An operation is the straight-line list of accesses its body makes
  between \<open>sst_stripe_lock\<close> and \<open>sst_stripe_unlock\<close>, with the value it returns. Threads run
  operations concurrently in a step relation whose steps are the single \<open>ldstub\<close>, the single read of
  the spin loop, one access, and the store that unlocks. Steps interleave; the barriers, which order
  them on the hardware, have no effect in such a model; the theory \<open>Stripe_Weak\<close> reduces runs with store buffers to it.
\<close>

unbundle bit_operations_syntax

section \<open>Memory accesses\<close>

type_synonym memory = "u32 \<Rightarrow> u8"

definition ld :: "u32 \<Rightarrow> nat \<Rightarrow> memory \<Rightarrow> u8 list" where
  "ld a n m = map (\<lambda>i. m (a + of_nat i)) [0..<n]"

fun st :: "u32 \<Rightarrow> u8 list \<Rightarrow> memory \<Rightarrow> memory" where
  "st a [] m = m"
| "st a (b # bs) m = st (a + 1) bs (m(a := b))"

text \<open>The value of a big-endian object, and the low \<open>n\<close> bytes of a value.\<close>

definition val_of :: "u8 list \<Rightarrow> u64" where
  "val_of bs = foldl (\<lambda>v b. v * 256 + ucast b) 0 bs"

primrec bytes_of :: "nat \<Rightarrow> u64 \<Rightarrow> u8 list" where
  "bytes_of 0 v = []"
| "bytes_of (Suc n) v = bytes_of n (drop_bit 8 v) @ [ucast v]"

text \<open>
  One access: a load appends to the bytes read so far; a store computes its bytes from them, or
  skips, for the conditional stores.
\<close>

datatype access = Ld u32 nat | St u32 nat "u8 list \<Rightarrow> u8 list option"

fun exec :: "access \<Rightarrow> memory \<times> u8 list \<Rightarrow> memory \<times> u8 list" where
  "exec (Ld a n) (m, r) = (m, r @ ld a n m)"
| "exec (St a n f) (m, r) = (case f r of None \<Rightarrow> (m, r) | Some bs \<Rightarrow> (st a (take n bs) m, r))"

fun run :: "access list \<Rightarrow> memory \<times> u8 list \<Rightarrow> memory \<times> u8 list" where
  "run [] c = c"
| "run (i # is) c = run is (exec i c)"

record operation =
  op_addr :: u32
  op_locked :: bool
  op_body :: "access list"
  op_ret :: "u8 list \<Rightarrow> u64"

text \<open>Loading and storing an object of \<open>w\<close> bytes, in two accesses when it has eight.\<close>

definition loads :: "nat \<Rightarrow> u32 \<Rightarrow> access list" where
  "loads w a = (if w = 8 then [Ld a 4, Ld (a + 4) 4] else [Ld a w])"

definition stores :: "nat \<Rightarrow> u32 \<Rightarrow> (u8 list \<Rightarrow> u64 option) \<Rightarrow> access list" where
  "stores w a f =
     (if w = 8 then [St a 4 (map_option (\<lambda>v. take 4 (bytes_of 8 v)) \<circ> f),
                     St (a + 4) 4 (map_option (\<lambda>v. drop 4 (bytes_of 8 v)) \<circ> f)]
      else [St a w (map_option (bytes_of w) \<circ> f)])"

section \<open>Stripe locks\<close>

definition SST_STRIPE_MASK :: u32 where
  "SST_STRIPE_MASK = 15"

definition sst_stripe_for :: "u32 \<Rightarrow> nat" where
  "sst_stripe_for p = unat (drop_bit 4 p AND SST_STRIPE_MASK)"

type_synonym stripes = "nat \<Rightarrow> u8"

text \<open>The old byte; the new one is all ones.\<close>

definition sst_ldstub :: "nat \<Rightarrow> stripes \<Rightarrow> u8 \<times> stripes" where
  "sst_ldstub i l = (l i, l(i := 0xFF))"

definition sst_stripe_unlock :: "nat \<Rightarrow> stripes \<Rightarrow> stripes" where
  "sst_stripe_unlock i l = l(i := 0)"

section \<open>The operations\<close>

definition rmw :: "nat \<Rightarrow> u32 \<Rightarrow> (u64 \<Rightarrow> u64 option) \<Rightarrow> (u64 \<Rightarrow> u64) \<Rightarrow> operation" where
  "rmw w a f g = \<lparr>op_addr = a, op_locked = True, op_body = loads w a @ stores w a (f \<circ> val_of),
                  op_ret = g \<circ> val_of\<rparr>"

definition cas :: "nat \<Rightarrow> u32 \<Rightarrow> u64 \<Rightarrow> u64 \<Rightarrow> operation" where
  "cas w target cmp newval = rmw w target (\<lambda>old. if old = cmp then Some newval else None) id"

definition cas32 :: "u32 \<Rightarrow> u32 \<Rightarrow> u32 \<Rightarrow> operation" where
  "cas32 target cmp newval = cas 4 target (ucast cmp) (ucast newval)"

definition cas64 :: "u32 \<Rightarrow> u64 \<Rightarrow> u64 \<Rightarrow> operation" where
  "cas64 target cmp newval = cas 8 target cmp newval"

text \<open>\<open>ulong_t\<close> and pointers have 32 bits.\<close>

definition caslong :: "u32 \<Rightarrow> u32 \<Rightarrow> u32 \<Rightarrow> operation" where
  "caslong target cmp newval = cas 4 target (ucast cmp) (ucast newval)"

definition casptr :: "u32 \<Rightarrow> u32 \<Rightarrow> u32 \<Rightarrow> operation" where
  "casptr target cmp newval = cas 4 target (ucast cmp) (ucast newval)"

text \<open>\<open>SST_ATOMIC_ADD\<close> for the widths 2, 4 and 8; a \<open>void\<close> function returns 0 here.\<close>

definition atomic_add :: "nat \<Rightarrow> u32 \<Rightarrow> u64 \<Rightarrow> operation" where
  "atomic_add w target delta = rmw w target (\<lambda>old. Some (old + delta)) (\<lambda>_. 0)"

text \<open>\<open>SST_ATOMIC_ADD_NV\<close>: the new value is read back before the lock is released.\<close>

definition atomic_add_nv :: "nat \<Rightarrow> u32 \<Rightarrow> u64 \<Rightarrow> operation" where
  "atomic_add_nv w target delta =
     \<lparr>op_addr = target, op_locked = True,
      op_body = loads w target @ stores w target (\<lambda>r. Some (val_of r + delta)) @ loads w target,
      op_ret = (\<lambda>r. val_of (drop w r))\<rparr>"

definition atomic_cas_uint :: "u32 \<Rightarrow> u32 \<Rightarrow> u32 \<Rightarrow> operation" where
  "atomic_cas_uint target cmp newval = cas32 target cmp newval"

definition atomic_cas_ptr :: "u32 \<Rightarrow> u32 \<Rightarrow> u32 \<Rightarrow> operation" where
  "atomic_cas_ptr target cmp newval = casptr target cmp newval"

definition swap_op :: "nat \<Rightarrow> u32 \<Rightarrow> u64 \<Rightarrow> operation" where
  "swap_op w target newval = rmw w target (\<lambda>_. Some newval) id"

definition atomic_swap_uint :: "u32 \<Rightarrow> u32 \<Rightarrow> operation" where
  "atomic_swap_uint target newval = swap_op 4 target (ucast newval)"

definition atomic_swap_ptr :: "u32 \<Rightarrow> u32 \<Rightarrow> operation" where
  "atomic_swap_ptr target newval = swap_op 4 target (ucast newval)"

definition atomic_add_int :: "u32 \<Rightarrow> u32 \<Rightarrow> operation" where
  "atomic_add_int target delta = atomic_add 4 target (ucast delta)"

definition atomic_or_uint :: "u32 \<Rightarrow> u32 \<Rightarrow> operation" where
  "atomic_or_uint target bs = rmw 4 target (\<lambda>old. Some (old OR ucast bs)) id"

definition atomic_is_lock_free :: "nat \<Rightarrow> bool" where
  "atomic_is_lock_free n \<longleftrightarrow> n = 1 \<or> n = 2 \<or> n = 4"

text \<open>The six expressions \<open>SST_FETCH_OP\<close> is instantiated with, at the widths 1, 2, 4 and 8.\<close>

datatype fetch_op = FAdd | FSub | FAnd | FOr | FXor | FNand

fun fetch_expr :: "fetch_op \<Rightarrow> u64 \<Rightarrow> u64 \<Rightarrow> u64" where
  "fetch_expr FAdd old val = old + val"
| "fetch_expr FSub old val = old - val"
| "fetch_expr FAnd old val = (old AND val)"
| "fetch_expr FOr old val = (old OR val)"
| "fetch_expr FXor old val = (old XOR val)"
| "fetch_expr FNand old val = NOT (old AND val)"

definition atomic_fetch :: "fetch_op \<Rightarrow> nat \<Rightarrow> u32 \<Rightarrow> u64 \<Rightarrow> int \<Rightarrow> operation" where
  "atomic_fetch e w ptr val memorder = rmw w ptr (\<lambda>old. Some (fetch_expr e old val)) id"

definition atomic_exchange :: "nat \<Rightarrow> u32 \<Rightarrow> u64 \<Rightarrow> int \<Rightarrow> operation" where
  "atomic_exchange w ptr val memorder = swap_op w ptr val"

text \<open>
  \<open>SST_COMPARE_EXCHANGE\<close>: \<open>*expected\<close> belongs to the caller; it is read before the lock is taken
  and written after it is released, so the operation on shared memory is the compare and swap and
  the rest computes the result and the new \<open>*expected\<close> from the value it returned.
\<close>

definition compare_exchange :: "nat \<Rightarrow> u32 \<Rightarrow> u64 \<Rightarrow> u64 \<Rightarrow> operation" where
  "compare_exchange w ptr expected desired = cas w ptr expected desired"

definition compare_exchange_result :: "u64 \<Rightarrow> u64 \<Rightarrow> bool \<times> u64" where
  "compare_exchange_result expected cur =
     (let success = (cur = expected) in (success, if \<not> success then cur else expected))"

definition atomic_load_4 :: "u32 \<Rightarrow> int \<Rightarrow> operation" where
  "atomic_load_4 ptr memorder = \<lparr>op_addr = ptr, op_locked = False, op_body = [Ld ptr 4], op_ret = val_of\<rparr>"

definition atomic_store_4 :: "u32 \<Rightarrow> u32 \<Rightarrow> int \<Rightarrow> operation" where
  "atomic_store_4 ptr val memorder =
     \<lparr>op_addr = ptr, op_locked = False, op_body = stores 4 ptr (\<lambda>_. Some (ucast val)), op_ret = (\<lambda>_. 0)\<rparr>"

definition atomic_load_8 :: "u32 \<Rightarrow> int \<Rightarrow> operation" where
  "atomic_load_8 ptr memorder = \<lparr>op_addr = ptr, op_locked = True, op_body = loads 8 ptr, op_ret = val_of\<rparr>"

definition atomic_store_8 :: "u32 \<Rightarrow> u64 \<Rightarrow> int \<Rightarrow> operation" where
  "atomic_store_8 ptr val memorder =
     \<lparr>op_addr = ptr, op_locked = True, op_body = stores 8 ptr (\<lambda>_. Some val), op_ret = (\<lambda>_. 0)\<rparr>"

definition sync_val_compare_and_swap_4 :: "u32 \<Rightarrow> u32 \<Rightarrow> u32 \<Rightarrow> operation" where
  "sync_val_compare_and_swap_4 ptr oldval newval = cas32 ptr oldval newval"

definition sync_bool_compare_and_swap_4 :: "u32 \<Rightarrow> u32 \<Rightarrow> u32 \<Rightarrow> operation" where
  "sync_bool_compare_and_swap_4 ptr oldval newval =
     (cas32 ptr oldval newval)\<lparr>op_ret := (\<lambda>r. if val_of r = ucast oldval then 1 else 0)\<rparr>"

definition sync_fetch_and :: "fetch_op \<Rightarrow> u32 \<Rightarrow> u32 \<Rightarrow> operation" where
  "sync_fetch_and e ptr val = rmw 4 ptr (\<lambda>old. Some (fetch_expr e old (ucast val))) id"

text \<open>\<open>SST_SYNC_OP_AND_FETCH\<close> is not instantiated for nand; the result has 32 bits.\<close>

definition sync_and_fetch :: "fetch_op \<Rightarrow> u32 \<Rightarrow> u32 \<Rightarrow> operation" where
  "sync_and_fetch e ptr val =
     rmw 4 ptr (\<lambda>old. Some (fetch_expr e old (ucast val))) (\<lambda>old. take_bit 32 (fetch_expr e old (ucast val)))"

definition sync_lock_test_and_set_4 :: "u32 \<Rightarrow> u32 \<Rightarrow> operation" where
  "sync_lock_test_and_set_4 ptr val = swap_op 4 ptr (ucast val)"

definition sync_lock_release_4 :: "u32 \<Rightarrow> operation" where
  "sync_lock_release_4 ptr =
     \<lparr>op_addr = ptr, op_locked = True, op_body = stores 4 ptr (\<lambda>_. Some 0), op_ret = (\<lambda>_. 0)\<rparr>"

section \<open>Threads\<close>

text \<open>
  A thread is idle, about to execute \<open>ldstub\<close>, in the inner spin loop, or has accesses left to make
  with the bytes it has read and the position of its operation in the history.
\<close>

datatype thread = Idle | Want operation | Spin operation | Busy operation nat "access list" "u8 list"

record sys =
  mem :: memory
  locks :: stripes
  pc :: "nat \<Rightarrow> thread"
  hist :: "operation list"
  rets :: "(nat \<times> u64) list"

text \<open>
  \<open>hist\<close> lists the operations in the order they entered their bodies, \<open>rets\<close> the returned values.
  \<open>adm\<close> says which operations the threads may start.
\<close>

inductive step :: "(operation \<Rightarrow> bool) \<Rightarrow> sys \<Rightarrow> sys \<Rightarrow> bool" for adm where
  start: "pc s t = Idle \<Longrightarrow> adm p \<Longrightarrow> op_locked p \<Longrightarrow> step adm s (s\<lparr>pc := (pc s)(t := Want p)\<rparr>)"
| start_plain: "pc s t = Idle \<Longrightarrow> adm p \<Longrightarrow> \<not> op_locked p \<Longrightarrow>
    step adm s (s\<lparr>pc := (pc s)(t := Busy p (length (hist s)) (op_body p) []), hist := hist s @ [p]\<rparr>)"
| lock: "pc s t = Want p \<Longrightarrow> sst_ldstub (sst_stripe_for (op_addr p)) (locks s) = (0, l) \<Longrightarrow>
    step adm s (s\<lparr>locks := l, pc := (pc s)(t := Busy p (length (hist s)) (op_body p) []), hist := hist s @ [p]\<rparr>)"
| contend: "pc s t = Want p \<Longrightarrow> sst_ldstub (sst_stripe_for (op_addr p)) (locks s) = (b, l) \<Longrightarrow> b \<noteq> 0 \<Longrightarrow>
    step adm s (s\<lparr>locks := l, pc := (pc s)(t := Spin p)\<rparr>)"
| spin: "pc s t = Spin p \<Longrightarrow> locks s (sst_stripe_for (op_addr p)) \<noteq> 0 \<Longrightarrow> step adm s s"
| retry: "pc s t = Spin p \<Longrightarrow> locks s (sst_stripe_for (op_addr p)) = 0 \<Longrightarrow>
    step adm s (s\<lparr>pc := (pc s)(t := Want p)\<rparr>)"
| access: "pc s t = Busy p n (i # is) r \<Longrightarrow> exec i (mem s, r) = (m, r') \<Longrightarrow>
    step adm s (s\<lparr>mem := m, pc := (pc s)(t := Busy p n is r')\<rparr>)"
| unlock: "pc s t = Busy p n [] r \<Longrightarrow> op_locked p \<Longrightarrow>
    step adm s (s\<lparr>locks := sst_stripe_unlock (sst_stripe_for (op_addr p)) (locks s),
                  pc := (pc s)(t := Idle), rets := rets s @ [(n, op_ret p r)]\<rparr>)"
| finish_plain: "pc s t = Busy p n [] r \<Longrightarrow> \<not> op_locked p \<Longrightarrow>
    step adm s (s\<lparr>pc := (pc s)(t := Idle), rets := rets s @ [(n, op_ret p r)]\<rparr>)"

definition sys_init :: "memory \<Rightarrow> sys" where
  "sys_init m = \<lparr>mem = m, locks = (\<lambda>_. 0), pc = (\<lambda>_. Idle), hist = [], rets = []\<rparr>"

section \<open>The sequential specification\<close>

text \<open>Each operation applied at once, in the order of the history.\<close>

fun replay :: "operation list \<Rightarrow> memory \<Rightarrow> memory \<times> u64 list" where
  "replay [] m = (m, [])"
| "replay (p # ps) m =
     (let (m', r) = run (op_body p) (m, []); (m'', vs) = replay ps m' in (m'', op_ret p r # vs))"

section \<open>Accesses stay in their stripe\<close>

fun foot :: "access \<Rightarrow> u32 list" where
  "foot (Ld a n) = map (\<lambda>i. a + of_nat i) [0..<n]"
| "foot (St a n f) = map (\<lambda>i. a + of_nat i) [0..<n]"

definition in_stripe :: "nat \<Rightarrow> access list \<Rightarrow> bool" where
  "in_stripe i body \<longleftrightarrow> list_all (\<lambda>a. list_all (\<lambda>x. sst_stripe_for x = i) (foot a)) body"

text \<open>A locked operation all of whose accesses lie in the stripe of its address.\<close>

definition striped :: "operation \<Rightarrow> bool" where
  "striped p \<longleftrightarrow> op_locked p \<and> in_stripe (sst_stripe_for (op_addr p)) (op_body p)"

definition agree :: "nat \<Rightarrow> memory \<Rightarrow> memory \<Rightarrow> bool" where
  "agree i m m' \<longleftrightarrow> (\<forall>x. sst_stripe_for x = i \<longrightarrow> m x = m' x)"

lemma agree_refl [simp]: "agree i m m"
  by (simp add: agree_def)

lemma agree_sym: "agree i m m' \<Longrightarrow> agree i m' m"
  by (simp add: agree_def)

lemma agree_trans: "agree i a b \<Longrightarrow> agree i b c \<Longrightarrow> agree i a c"
  by (simp add: agree_def)

lemma in_stripe_simps [simp]:
  "in_stripe i []"
  "in_stripe i (a # b) \<longleftrightarrow> list_all (\<lambda>x. sst_stripe_for x = i) (foot a) \<and> in_stripe i b"
  by (simp_all add: in_stripe_def)

lemma st_outside: "(\<And>i. i < length bs \<Longrightarrow> x \<noteq> a + of_nat i) \<Longrightarrow> st a bs m x = m x"
proof (induction bs arbitrary: a m)
  case (Cons b bs)
  have "x \<noteq> a" using Cons.prems [of 0] by simp
  moreover have "x \<noteq> a + 1 + of_nat i" if "i < length bs" for i
    using Cons.prems [of "Suc i"] that by (simp add: add.assoc)
  ultimately show ?case using Cons.IH by simp
qed simp

lemma st_cong: "m x = m' x \<Longrightarrow> st a bs m x = st a bs m' x"
proof (induction bs arbitrary: a m m')
  case (Cons b bs)
  from Cons.prems have "(m(a := b)) x = (m'(a := b)) x" by simp
  then have "st (a + 1) bs (m(a := b)) x = st (a + 1) bs (m'(a := b)) x" by (rule Cons.IH)
  then show ?case by simp
qed simp

lemma exec_outside:
  assumes "list_all (\<lambda>x. sst_stripe_for x = i) (foot a)" and "exec a (m, r) = (m', r')" and "i \<noteq> j"
  shows "agree j m m'"
proof (cases a)
  case (St b n f)
  have "st b (take n bs) m x = m x" if "sst_stripe_for x = j" for x bs
    using assms(1,3) that by (intro st_outside) (auto simp: St list_all_iff)
  with assms(2) St show ?thesis by (auto simp: agree_def split: option.splits)
qed (use assms in auto)

lemma exec_agree:
  assumes "list_all (\<lambda>x. sst_stripe_for x = i) (foot a)" and "agree i m1 m2"
  shows "snd (exec a (m1, r)) = snd (exec a (m2, r)) \<and> agree i (fst (exec a (m1, r))) (fst (exec a (m2, r)))"
proof (cases a)
  case (Ld b n)
  then show ?thesis using assms by (auto simp: agree_def ld_def list_all_iff)
next
  case (St b n f)
  have "agree i (st b bs m1) (st b bs m2)" for bs
    using assms(2) by (auto simp: agree_def intro: st_cong)
  then show ?thesis by (auto simp: St assms split: option.split)
qed

lemma run_agree:
  "in_stripe i body \<Longrightarrow> agree i m1 m2 \<Longrightarrow>
   snd (run body (m1, r)) = snd (run body (m2, r)) \<and> agree i (fst (run body (m1, r))) (fst (run body (m2, r)))"
proof (induction body arbitrary: m1 m2 r)
  case (Cons a body)
  then show ?case
    using exec_agree [of i a m1 m2 r] by (cases "exec a (m1, r)"; cases "exec a (m2, r)") auto
qed simp

lemma run_outside: "in_stripe i body \<Longrightarrow> i \<noteq> j \<Longrightarrow> agree j m (fst (run body (m, r)))"
proof (induction body arbitrary: m r)
  case (Cons a body)
  obtain m' r' where e: "exec a (m, r) = (m', r')" by fastforce
  then have "agree j m m'" using Cons.prems by (intro exec_outside) auto
  also have "agree j m' (fst (run body (m', r')))" using Cons by simp
  finally (agree_trans) show ?case using e by simp
qed simp

lemma replay_append:
  "replay (ps @ [p]) m =
     (fst (run (op_body p) (fst (replay ps m), [])),
      snd (replay ps m) @ [op_ret p (snd (run (op_body p) (fst (replay ps m), [])))])"
  by (induction ps arbitrary: m) (simp_all add: Let_def case_prod_unfold)

lemma length_replay: "length (snd (replay ps m)) = length ps"
  by (induction ps arbitrary: m) (auto simp: Let_def case_prod_unfold)

section \<open>The simulation\<close>

definition holds :: "sys \<Rightarrow> nat \<Rightarrow> nat \<Rightarrow> bool" where
  "holds s t i \<longleftrightarrow> (\<exists>p n body r. pc s t = Busy p n body r \<and> sst_stripe_for (op_addr p) = i)"

text \<open>
  A busy thread still has to make accesses in its own stripe which, made now, would give the memory
  and the value of the sequential execution there.
\<close>

definition thread_ok :: "memory \<Rightarrow> u64 list \<Rightarrow> operation list \<Rightarrow> memory \<Rightarrow> thread \<Rightarrow> bool" where
  "thread_ok am vs h m th = (case th of
     Idle \<Rightarrow> True
   | Want p \<Rightarrow> striped p
   | Spin p \<Rightarrow> striped p
   | Busy p n body r \<Rightarrow> striped p \<and> n < length h \<and> h ! n = p \<and>
       (let i = sst_stripe_for (op_addr p) in
        in_stripe i body \<and> agree i (fst (run body (m, r))) am \<and> op_ret p (snd (run body (m, r))) = vs ! n))"

definition simulates :: "memory \<Rightarrow> sys \<Rightarrow> bool" where
  "simulates m0 s \<longleftrightarrow> (\<exists>am vs. replay (hist s) m0 = (am, vs)
     \<and> (\<forall>t. thread_ok am vs (hist s) (mem s) (pc s t))
     \<and> (\<forall>i. locks s i = 0 \<longrightarrow> agree i (mem s) am)
     \<and> (\<forall>(n, v) \<in> set (rets s). n < length vs \<and> vs ! n = v))"

definition mutex :: "sys \<Rightarrow> bool" where
  "mutex s \<longleftrightarrow> (\<forall>i. locks s i \<noteq> 0 \<longleftrightarrow> (\<exists>t. holds s t i))
     \<and> (\<forall>t u i. holds s t i \<longrightarrow> holds s u i \<longrightarrow> t = u)"

lemma thread_okD:
  assumes "thread_ok am vs h m (Busy p n body r)" and "i = sst_stripe_for (op_addr p)"
  shows "striped p" "n < length h" "h ! n = p" "in_stripe i body"
    "agree i (fst (run body (m, r))) am" "op_ret p (snd (run body (m, r))) = vs ! n"
  using assms by (auto simp: thread_ok_def Let_def)

text \<open>What another thread does outside the stripe of a busy thread does not concern it.\<close>

lemma thread_ok_frame:
  assumes "thread_ok am vs h m th"
    and "\<And>p n body r. th = Busy p n body r \<Longrightarrow>
      agree (sst_stripe_for (op_addr p)) m m' \<and> agree (sst_stripe_for (op_addr p)) am am'"
    and "\<And>n. n < length h \<Longrightarrow> n < length h' \<and> h' ! n = h ! n \<and> vs' ! n = vs ! n"
  shows "thread_ok am' vs' h' m' th"
proof (cases th)
  case (Busy p n body r)
  let ?i = "sst_stripe_for (op_addr p)"
  note ok = thread_okD [OF assms(1) [unfolded Busy] refl]
  from assms(2) [OF Busy] have "agree ?i m m'" "agree ?i am am'" by auto
  with run_agree [OF ok(4) this(1), of r] ok assms(3) [OF ok(2)] show ?thesis
    by (auto simp: Busy thread_ok_def Let_def agree_def)
qed (use assms(1) in \<open>auto simp: thread_ok_def\<close>)

lemma mutex_other:
  assumes "mutex s" and "pc s t = Busy p n body r" and "u \<noteq> t" and "pc s u = Busy q k body' r'"
  shows "sst_stripe_for (op_addr q) \<noteq> sst_stripe_for (op_addr p)"
  using assms unfolding mutex_def holds_def by metis

lemma mutex_free:
  assumes "mutex s" and "locks s i = 0" and "pc s u = Busy q k body' r'"
  shows "sst_stripe_for (op_addr q) \<noteq> i"
  using assms unfolding mutex_def holds_def by blast

lemma holds_upd [simp]:
  "holds (s\<lparr>pc := (pc s)(t := th)\<rparr>) u i \<longleftrightarrow>
     (if u = t then (\<exists>p n body r. th = Busy p n body r \<and> sst_stripe_for (op_addr p) = i) else holds s u i)"
  "holds (s\<lparr>mem := m, pc := q\<rparr>) = holds (s\<lparr>pc := q\<rparr>)" "holds (s\<lparr>locks := l, pc := q\<rparr>) = holds (s\<lparr>pc := q\<rparr>)"
  "holds (s\<lparr>pc := q, hist := h\<rparr>) = holds (s\<lparr>pc := q\<rparr>)" "holds (s\<lparr>pc := q, rets := v\<rparr>) = holds (s\<lparr>pc := q\<rparr>)"
  "holds (s\<lparr>locks := l, pc := q, hist := h\<rparr>) = holds (s\<lparr>pc := q\<rparr>)"
  "holds (s\<lparr>locks := l, pc := q, rets := v\<rparr>) = holds (s\<lparr>pc := q\<rparr>)"
  by (auto simp: holds_def fun_eq_iff)

text \<open>A thread that holds no stripe before or after a step changes nothing of the locks.\<close>

lemma mutex_idle:
  assumes "mutex s" and "\<And>i. \<not> holds s t i" and "\<And>p n body r. th \<noteq> Busy p n body r"
    and "locks s' = locks s" and "pc s' = (pc s)(t := th)"
  shows "mutex s'"
proof -
  have "holds s' u i = holds s u i" for u i
    using assms(2,3,5) by (auto simp: holds_def)
  then show ?thesis using assms(1,4) by (simp add: mutex_def)
qed

lemma step_mutex:
  assumes "step adm s s'" and "mutex s" and "adm \<le> op_locked"
    and "\<And>t p n body r. pc s t = Busy p n body r \<Longrightarrow> op_locked p"
  shows "mutex s'"
  using assms(1)
proof cases
  case (start t p)
  show ?thesis by (rule mutex_idle [OF assms(2), of t "Want p"]) (use start in \<open>auto simp: holds_def\<close>)
next
  case (start_plain t p)
  then show ?thesis using assms(3) by auto
next
  case (lock t p l)
  let ?i = "sst_stripe_for (op_addr p)"
  have l: "locks s ?i = 0" "l = (locks s)(?i := 0xFF)" using lock by (auto simp: sst_ldstub_def)
  have free: "\<not> holds s u ?i" for u using assms(2) l unfolding mutex_def by blast
  have "holds s' u j \<longleftrightarrow> (if u = t then j = ?i else holds s u j)" for u j
    using lock by auto
  moreover have "\<not> holds s t j" for j using lock by (simp add: holds_def)
  moreover have "locks s' = l" using lock by simp
  ultimately show ?thesis using assms(2) l free unfolding mutex_def by auto metis
next
  case (contend t p b l)
  let ?i = "sst_stripe_for (op_addr p)"
  have l: "locks s ?i \<noteq> 0" "l = (locks s)(?i := 0xFF)" using contend by (auto simp: sst_ldstub_def)
  have "holds s' u j \<longleftrightarrow> holds s u j" for u j using contend by (auto simp: holds_def)
  moreover have "locks s' j \<noteq> 0 \<longleftrightarrow> locks s j \<noteq> 0" for j using contend l by auto
  ultimately show ?thesis using assms(2) unfolding mutex_def by simp
next
  case (retry t p)
  show ?thesis by (rule mutex_idle [OF assms(2), of t "Want p"]) (use retry in \<open>auto simp: holds_def\<close>)
next
  case (access t p n i "is" r m r')
  have "holds s' u j \<longleftrightarrow> holds s u j" for u j using access by (auto simp: holds_def)
  then show ?thesis using assms(2) access unfolding mutex_def by simp
next
  case (unlock t p n r)
  let ?i = "sst_stripe_for (op_addr p)"
  have t: "holds s t j \<longleftrightarrow> j = ?i" for j using unlock by (auto simp: holds_def)
  have "holds s' u j \<longleftrightarrow> u \<noteq> t \<and> holds s u j" for u j using unlock by auto
  moreover have "locks s' = (locks s)(?i := 0)" using unlock by (simp add: sst_stripe_unlock_def)
  ultimately show ?thesis using assms(2) t unfolding mutex_def by auto metis
next
  case (finish_plain t p n r)
  then show ?thesis using assms(4) by auto
qed (use assms in simp)

lemma simulatesE:
  assumes "simulates m0 s"
  obtains am vs where "replay (hist s) m0 = (am, vs)" "length vs = length (hist s)"
    "\<And>t. thread_ok am vs (hist s) (mem s) (pc s t)" "\<And>i. locks s i = 0 \<Longrightarrow> agree i (mem s) am"
    "\<And>n v. (n, v) \<in> set (rets s) \<Longrightarrow> n < length vs \<and> vs ! n = v"
  using assms length_replay [of "hist s" m0] unfolding simulates_def by fastforce

lemma simulatesI:
  assumes "replay (hist s) m0 = (am, vs)" "\<And>t. thread_ok am vs (hist s) (mem s) (pc s t)"
    "\<And>i. locks s i = 0 \<Longrightarrow> agree i (mem s) am"
    "\<And>n v. (n, v) \<in> set (rets s) \<Longrightarrow> n < length vs \<and> vs ! n = v"
  shows "simulates m0 s"
  using assms unfolding simulates_def by blast

text \<open>A step that only moves one thread between states outside the lock.\<close>

lemma simulates_move:
  assumes "simulates m0 s" and "striped p" and "s' = s\<lparr>locks := l, pc := (pc s)(t := th)\<rparr>"
    and "th = Want p \<or> th = Spin p" and "\<And>i. l i = 0 \<Longrightarrow> locks s i = 0"
  shows "simulates m0 s'"
proof -
  obtain am vs where r: "replay (hist s) m0 = (am, vs)" "\<And>t. thread_ok am vs (hist s) (mem s) (pc s t)"
    "\<And>i. locks s i = 0 \<Longrightarrow> agree i (mem s) am"
    "\<And>n v. (n, v) \<in> set (rets s) \<Longrightarrow> n < length vs \<and> vs ! n = v"
    using assms(1) by (elim simulatesE) blast
  show ?thesis
    by (rule simulatesI [of _ _ am vs])
       (use r assms(2-5) in \<open>auto simp: thread_ok_def split: thread.split\<close>)
qed

lemma simulates_lock:
  assumes "simulates m0 s" and "mutex s" and "pc s t = Want p"
    and "sst_ldstub (sst_stripe_for (op_addr p)) (locks s) = (0, l)"
    and "s' = s\<lparr>locks := l, pc := (pc s)(t := Busy p (length (hist s)) (op_body p) []), hist := hist s @ [p]\<rparr>"
  shows "simulates m0 s'"
proof -
  let ?i = "sst_stripe_for (op_addr p)"
  obtain am vs where r: "replay (hist s) m0 = (am, vs)" "length vs = length (hist s)"
    and ok: "\<And>t. thread_ok am vs (hist s) (mem s) (pc s t)"
    and free: "\<And>i. locks s i = 0 \<Longrightarrow> agree i (mem s) am"
    and rets: "\<And>n v. (n, v) \<in> set (rets s) \<Longrightarrow> n < length vs \<and> vs ! n = v"
    using assms(1) by (elim simulatesE) blast
  have st: "striped p" using ok [of t] assms(3) by (simp add: thread_ok_def)
  then have body: "in_stripe ?i (op_body p)" by (simp add: striped_def)
  have l: "locks s ?i = 0" "l = (locks s)(?i := 0xFF)" using assms(4) by (auto simp: sst_ldstub_def)
  define am' where "am' = fst (run (op_body p) (am, []))"
  define vs' where "vs' = vs @ [op_ret p (snd (run (op_body p) (am, [])))]"
  have r': "replay (hist s') m0 = (am', vs')"
    by (simp add: assms(5) replay_append r am'_def vs'_def)
  have out: "agree j am am'" if "j \<noteq> ?i" for j
    unfolding am'_def by (rule run_outside [OF body that [symmetric]])
  have "thread_ok am' vs' (hist s') (mem s') (pc s' u)" for u
  proof (cases "u = t")
    case True
    then show ?thesis
      using run_agree [OF body free [OF l(1)], of "[]"] st body r(2)
      by (simp add: assms(5) thread_ok_def am'_def vs'_def nth_append)
  next
    case False
    have "thread_ok am' vs' (hist s @ [p]) (mem s) (pc s u)"
      by (rule thread_ok_frame [OF ok [of u]])
         (use mutex_free [OF assms(2) l(1)] out r(2) in \<open>auto simp: vs'_def nth_append\<close>)
    then show ?thesis using False by (simp add: assms(5))
  qed
  moreover have "agree j (mem s') am'" if "locks s' j = 0" for j
    using that l agree_trans [OF free out, of j] by (auto simp: assms(5) split: if_splits)
  moreover have "n < length vs' \<and> vs' ! n = v" if "(n, v) \<in> set (rets s)" for n v
    using rets [OF that] by (simp add: vs'_def nth_append)
  ultimately show ?thesis using r' by (intro simulatesI [of _ _ am' vs']) (auto simp: assms(5))
qed

lemma simulates_access:
  assumes "simulates m0 s" and "mutex s" and "pc s t = Busy p n (i # is) r"
    and "exec i (mem s, r) = (m, r')" and "s' = s\<lparr>mem := m, pc := (pc s)(t := Busy p n is r')\<rparr>"
  shows "simulates m0 s'"
proof -
  let ?i = "sst_stripe_for (op_addr p)"
  obtain am vs where r: "replay (hist s) m0 = (am, vs)"
    and ok: "\<And>t. thread_ok am vs (hist s) (mem s) (pc s t)"
    and free: "\<And>i. locks s i = 0 \<Longrightarrow> agree i (mem s) am"
    and rets: "\<And>n v. (n, v) \<in> set (rets s) \<Longrightarrow> n < length vs \<and> vs ! n = v"
    using assms(1) by (elim simulatesE) blast
  note okt = thread_okD [OF ok [of t, unfolded assms(3)] refl]
  have out: "agree j (mem s) m" if "j \<noteq> ?i" for j
    using exec_outside [OF _ assms(4)] okt(4) that by auto
  have "thread_ok am vs (hist s) m (pc s' u)" for u
  proof (cases "u = t")
    case True
    then show ?thesis using okt assms(4) by (simp add: assms(5) thread_ok_def)
  next
    case False
    have "thread_ok am vs (hist s) m (pc s u)"
      by (rule thread_ok_frame [OF ok [of u]])
         (use mutex_other [OF assms(2,3) False] out in auto)
    then show ?thesis using False by (simp add: assms(5))
  qed
  moreover have "agree j m am" if "locks s j = 0" for j
    using mutex_free [OF assms(2) that assms(3)] agree_trans [OF agree_sym [OF out] free [OF that]] by auto
  ultimately show ?thesis
    using r rets by (intro simulatesI [of _ _ am vs]) (auto simp: assms(5))
qed

lemma simulates_unlock:
  assumes "simulates m0 s" and "mutex s" and "pc s t = Busy p n [] r"
    and "s' = s\<lparr>locks := sst_stripe_unlock (sst_stripe_for (op_addr p)) (locks s),
                pc := (pc s)(t := Idle), rets := rets s @ [(n, op_ret p r)]\<rparr>"
  shows "simulates m0 s'"
proof -
  obtain am vs where r: "replay (hist s) m0 = (am, vs)" "length vs = length (hist s)"
    "\<And>t. thread_ok am vs (hist s) (mem s) (pc s t)"
    "\<And>i. locks s i = 0 \<Longrightarrow> agree i (mem s) am"
    "\<And>n v. (n, v) \<in> set (rets s) \<Longrightarrow> n < length vs \<and> vs ! n = v"
    using assms(1) by (elim simulatesE) blast
  note okt = thread_okD [OF r(3) [of t, unfolded assms(3)] refl]
  show ?thesis
    by (rule simulatesI [of _ _ am vs])
       (use r okt in \<open>auto simp: assms(4) thread_ok_def sst_stripe_unlock_def split: if_splits\<close>)
qed

lemma simulates_striped:
  assumes "simulates m0 s" and "pc s t = Want p \<or> pc s t = Spin p \<or> pc s t = Busy p n body r"
  shows "striped p"
  using assms unfolding simulates_def by (auto simp: thread_ok_def dest!: spec [of _ t])

lemma step_simulates:
  assumes "step striped s s'" and "simulates m0 s" and "mutex s"
  shows "simulates m0 s'"
  using assms(1)
proof cases
  case (start t p)
  have "simulates m0 s'" if "s' = s\<lparr>locks := locks s, pc := (pc s)(t := Want p)\<rparr>"
    by (rule simulates_move [OF assms(2) start(3) that]) auto
  then show ?thesis using start by simp
next
  case (start_plain t p)
  then show ?thesis by (simp add: striped_def)
next
  case (lock t p l)
  then show ?thesis by (intro simulates_lock [OF assms(2,3)])
next
  case (contend t p b l)
  have "striped p" using simulates_striped [OF assms(2)] contend by blast
  then show ?thesis
    by (rule simulates_move [OF assms(2) _ contend(1)]) (use contend in \<open>auto simp: sst_ldstub_def split: if_splits\<close>)
next
  case (retry t p)
  have "striped p" using simulates_striped [OF assms(2)] retry by blast
  have "simulates m0 s'" if "s' = s\<lparr>locks := locks s, pc := (pc s)(t := Want p)\<rparr>"
    by (rule simulates_move [OF assms(2) \<open>striped p\<close> that]) auto
  then show ?thesis using retry by simp
next
  case (access t p n i "is" r m r')
  then show ?thesis by (intro simulates_access [OF assms(2,3)])
next
  case (unlock t p n r)
  then show ?thesis by (intro simulates_unlock [OF assms(2,3)])
next
  case (finish_plain t p n r)
  then show ?thesis using simulates_striped [OF assms(2), of t p n "[]" r] by (simp add: striped_def)
qed (use assms in simp)

lemma reachable_inv:
  assumes "(step striped)\<^sup>*\<^sup>* (sys_init m0) s"
  shows "simulates m0 s \<and> mutex s"
  using assms
proof (induction rule: rtranclp_induct)
  case base
  show ?case by (auto simp: sys_init_def simulates_def mutex_def holds_def thread_ok_def)
next
  case (step s s')
  then have i: "simulates m0 s" "mutex s" by auto
  have "op_locked p" if "pc s t = Busy p n body r" for t p n body r
    using simulates_striped [OF i(1), of t p n body r] that by (simp add: striped_def)
  with i step(2) show ?case
    using step_simulates [OF step(2) i] step_mutex [OF step(2) i(2)] by (auto simp: striped_def le_fun_def)
qed

section \<open>What one operation does\<close>

lemma stripe_nat: "sst_stripe_for p = unat p div 16 mod 16"
proof -
  have "drop_bit 4 p AND SST_STRIPE_MASK = take_bit 4 (drop_bit 4 p)"
    by (simp add: SST_STRIPE_MASK_def take_bit_eq_mask mask_eq_exp_minus_1)
  then show ?thesis
    by (simp add: sst_stripe_for_def take_bit_eq_mod drop_bit_eq_div unat_mod unat_div)
qed

definition widths :: "nat list" where
  "widths = [1, 2, 4, 8]"

definition aligned :: "nat \<Rightarrow> u32 \<Rightarrow> bool" where
  "aligned w a \<longleftrightarrow> w \<in> set widths \<and> unat a mod w = 0"

text \<open>A naturally aligned object lies within one stripe.\<close>

lemma aligned_stripe:
  assumes "aligned w a" and "i < w"
  shows "sst_stripe_for (a + of_nat i) = sst_stripe_for a"
proof -
  have w: "w dvd 16" "w \<le> 8" using assms(1) by (auto simp: aligned_def widths_def)
  then obtain c where c: "16 = w * c" unfolding dvd_def by blast
  obtain k where k: "unat a = w * k" using assms(1) by (auto simp: aligned_def mod_eq_0_iff_dvd dvd_def)
  have "(w * k + i) div (w * c) = w * k div (w * c)"
    using assms(2) by (simp add: div_mult2_eq)
  then have d: "(unat a + i) div 16 = unat a div 16" unfolding c k .
  have "unat a div 16 < 2 ^ 28" using unat_u32 [of a] by (simp add: less_mult_imp_div_less)
  with d have "(unat a + i) div 16 < 2 ^ 28" by simp
  then have "unat a + i < 2 ^ 32" by (simp add: div_less_iff_less_mult)
  then have "unat (a + of_nat i) = unat a + i" using w assms(2) by (simp add: unat_word_ariths unat_of_nat)
  with d show ?thesis by (simp add: stripe_nat)
qed

lemma length_ld [simp]: "length (ld a n m) = n"
  by (simp add: ld_def)

lemma length_bytes_of [simp]: "length (bytes_of n v) = n"
  by (induction n arbitrary: v) auto

lemma st_append: "st a (xs @ ys) m = st (a + of_nat (length xs)) ys (st a xs m)"
  by (induction xs arbitrary: a m) (simp_all add: add.assoc)

lemma ld_split: "ld a (j + k) m = ld a j m @ ld (a + of_nat j) k m"
  by (auto simp: ld_def list_eq_iff_nth_eq nth_append add.assoc)

lemma run_append: "run (xs @ ys) c = run ys (run xs c)"
  by (induction xs arbitrary: c) auto

lemma run_loads: "run (loads w a) (m, r) = (m, r @ ld a w m)"
  using ld_split [of a 4 4 m] by (simp add: loads_def)

lemma run_stores:
  "run (stores w a f) (m, r) = (case f r of None \<Rightarrow> m | Some v \<Rightarrow> st a (bytes_of w v) m, r)"
proof (cases "w = 8")
  case True
  have "st (a + 4) (drop 4 (bytes_of 8 v)) (st a (take 4 (bytes_of 8 v)) m) = st a (bytes_of 8 v) m" for v
    using st_append [of a "take 4 (bytes_of 8 v)" "drop 4 (bytes_of 8 v)" m] by simp
  then show ?thesis using True by (simp add: stores_def split: option.split)
qed (simp add: stores_def split: option.split)

lemma run_rmw:
  "run (op_body (rmw w a f g)) (m, []) =
     (case f (val_of (ld a w m)) of None \<Rightarrow> m | Some v \<Rightarrow> st a (bytes_of w v) m, ld a w m)"
  by (simp add: rmw_def run_append run_loads run_stores)

lemma val_of_snoc: "val_of (bs @ [b]) = val_of bs * 256 + ucast b"
  by (simp add: val_of_def)

text \<open>Encoding and decoding an object of at most eight bytes.\<close>

lemma val_of_bytes_of: "val_of (bytes_of n v) = take_bit (8 * n) v"
proof (induction n arbitrary: v)
  case (Suc n)
  have "take_bit (8 * Suc n) v = take_bit (8 * n) (drop_bit 8 v) * 256 + take_bit 8 v"
  proof (rule bit_word_eqI)
    fix k assume "k < LENGTH(64)"
    have "take_bit (8 * n) (drop_bit 8 v) * 256 + take_bit 8 v
        = push_bit 8 (take_bit (8 * n) (drop_bit 8 v)) + take_bit 8 v"
      by (simp add: push_bit_eq_mult)
    also have "\<dots> = push_bit 8 (take_bit (8 * n) (drop_bit 8 v)) OR take_bit 8 v"
      by (subst disjunctive_add) (auto simp: bit_simps)
    finally have "take_bit (8 * n) (drop_bit 8 v) * 256 + take_bit 8 v
        = push_bit 8 (take_bit (8 * n) (drop_bit 8 v)) OR take_bit 8 v" .
    then show "bit (take_bit (8 * Suc n) v) k = bit (take_bit (8 * n) (drop_bit 8 v) * 256 + take_bit 8 v) k"
      using \<open>k < LENGTH(64)\<close> by (auto simp: bit_simps)
  qed
  moreover have "ucast (ucast v :: u8) = take_bit 8 v"
    by (rule bit_word_eqI) (auto simp: bit_simps)
  ultimately show ?case using Suc by (simp add: val_of_snoc)
qed (simp add: val_of_def)

lemma ld_st:
  assumes "length bs \<le> 8"
  shows "ld a (length bs) (st a bs m) = bs"
proof -
  have ne: "b \<noteq> b + 1 + of_nat j" if "j < 8" for b :: u32 and j
  proof
    assume "b = b + 1 + of_nat j"
    then have "b + 0 = b + of_nat (Suc j)" by (simp add: add.assoc)
    then have "(of_nat (Suc j) :: u32) = 0" by (metis add_left_cancel)
    then show False using that by (auto simp: word_of_nat_eq_0_iff simp del: of_nat_Suc dest: dvd_imp_le)
  qed
  show ?thesis
    using assms
  proof (induction bs arbitrary: a m)
    case (Cons b bs)
    have "st (a + 1) bs (m(a := b)) a = b"
      using st_outside [of bs a "a + 1" "m(a := b)"] ne [of _ a] Cons.prems by (simp add: less_trans)
    moreover have "ld (a + 1) (length bs) (st (a + 1) bs (m(a := b))) = bs" using Cons by simp
    moreover have "ld a (Suc (length bs)) x = x a # ld (a + 1) (length bs) x" for x
      using ld_split [of a 1 "length bs" x] by (simp add: ld_def)
    ultimately show ?case by simp
  qed (simp add: ld_def)
qed

text \<open>The value of the object of \<open>w\<close> bytes at an address.\<close>

definition obj :: "nat \<Rightarrow> u32 \<Rightarrow> memory \<Rightarrow> u64" where
  "obj w a m = val_of (ld a w m)"

text \<open>A memory that differs from another at most in the object of \<open>w\<close> bytes at an address.\<close>

definition same_outside :: "nat \<Rightarrow> u32 \<Rightarrow> memory \<Rightarrow> memory \<Rightarrow> bool" where
  "same_outside w a m m' \<longleftrightarrow> (\<forall>x. (\<forall>i < w. x \<noteq> a + of_nat i) \<longrightarrow> m' x = m x)"

lemma rmw_spec:
  assumes "w \<le> 8" and "run (op_body (rmw w a f g)) (m, []) = (m', r)"
  shows "obj w a m' = (case f (obj w a m) of None \<Rightarrow> obj w a m | Some v \<Rightarrow> take_bit (8 * w) v)"
    and "same_outside w a m m'" and "op_ret (rmw w a f g) r = g (obj w a m)"
proof -
  have m': "m' = (case f (obj w a m) of None \<Rightarrow> m | Some v \<Rightarrow> st a (bytes_of w v) m)" and r: "r = ld a w m"
    using assms(2) by (auto simp: run_rmw obj_def)
  show "obj w a m' = (case f (obj w a m) of None \<Rightarrow> obj w a m | Some v \<Rightarrow> take_bit (8 * w) v)"
    using ld_st [of "bytes_of w v" for v] assms(1)
    by (simp add: m' obj_def [of w a "st _ _ _"] val_of_bytes_of split: option.split)
  show "same_outside w a m m'"
    by (auto simp: m' same_outside_def intro!: st_outside split: option.split)
  show "op_ret (rmw w a f g) r = g (obj w a m)" by (simp add: r rmw_def obj_def)
qed

lemma linearizable:
  assumes "(step striped)\<^sup>*\<^sup>* (sys_init m0) s"
  shows "(\<forall>(n, v) \<in> set (rets s). n < length (hist s) \<and> snd (replay (hist s) m0) ! n = v)
    \<and> ((\<forall>t. pc s t = Idle) \<longrightarrow> mem s = fst (replay (hist s) m0))"
proof -
  from reachable_inv [OF assms] have "simulates m0 s" "mutex s" by auto
  then obtain am vs where r: "replay (hist s) m0 = (am, vs)" "length vs = length (hist s)"
    "\<And>i. locks s i = 0 \<Longrightarrow> agree i (mem s) am"
    "\<And>n v. (n, v) \<in> set (rets s) \<Longrightarrow> n < length vs \<and> vs ! n = v"
    by (elim simulatesE) blast
  have "mem s = am" if idle: "\<forall>t. pc s t = Idle"
  proof
    fix x
    have "locks s (sst_stripe_for x) = 0"
      using \<open>mutex s\<close> idle by (simp add: mutex_def holds_def)
    then show "mem s x = am x" using r(3) by (simp add: agree_def)
  qed
  with r show ?thesis by auto
qed

section \<open>Properties\<close>

text \<open>
  C2. Operations under stripe locks are linearizable: however the threads interleave, every value
  returned so far is the value the operation returns when the operations are executed one after the
  other, each at once, in the order in which they took their locks; and whenever no thread is inside
  an operation the memory is the memory of that sequential execution.
\<close>

theorem stripe_ops_linearizable:
  assumes "(step striped)\<^sup>*\<^sup>* (sys_init m0) s"
  shows "(\<forall>(n, v) \<in> set (rets s). n < length (hist s) \<and> snd (replay (hist s) m0) ! n = v)
    \<and> ((\<forall>t. pc s t = Idle) \<longrightarrow> mem s = fst (replay (hist s) m0))"
  by (rule linearizable [OF assms])

text \<open>
  Stripe locks exclude: in every reachable state two different threads are never inside
  operations on the same stripe, and a lock byte is set exactly when some thread is inside.
\<close>

lemma stripe_mutual_exclusion:
  assumes "(step striped)\<^sup>*\<^sup>* (sys_init m0) s"
  shows "(\<forall>t u p n b r q k c w. pc s t = Busy p n b r \<and> pc s u = Busy q k c w
      \<and> sst_stripe_for (op_addr p) = sst_stripe_for (op_addr q) \<longrightarrow> t = u)
    \<and> (\<forall>i. locks s i \<noteq> 0 \<longleftrightarrow> (\<exists>t p n b r. pc s t = Busy p n b r \<and> sst_stripe_for (op_addr p) = i))"
  using reachable_inv [OF assms] unfolding mutex_def holds_def by blast

definition execute :: "operation \<Rightarrow> memory \<Rightarrow> memory \<times> u64" where
  "execute p m = (let (m', r) = run (op_body p) (m, []) in (m', op_ret p r))"

lemma rmw_execute:
  assumes "w \<in> set widths" and "execute (rmw w a f g) m = (m', v)"
  shows "v = g (obj w a m)" "same_outside w a m m'"
    "obj w a m' = (case f (obj w a m) of None \<Rightarrow> obj w a m | Some v \<Rightarrow> take_bit (8 * w) v)"
proof -
  have w: "w \<le> 8" using assms(1) by (auto simp: widths_def)
  obtain m1 r where r: "run (op_body (rmw w a f g)) (m, []) = (m1, r)" by fastforce
  then have "m' = m1" "v = op_ret (rmw w a f g) r" using assms(2) by (auto simp: execute_def)
  then show "v = g (obj w a m)" "same_outside w a m m'"
    "obj w a m' = (case f (obj w a m) of None \<Rightarrow> obj w a m | Some v \<Rightarrow> take_bit (8 * w) v)"
    using rmw_spec [OF w r] by auto
qed

lemma add_nv_execute:
  assumes "w \<in> set widths"
  shows "execute (atomic_add_nv w a d) m
     = (st a (bytes_of w (obj w a m + d)) m, take_bit (8 * w) (obj w a m + d))"
proof -
  have w: "w \<le> 8" using assms by (auto simp: widths_def)
  show ?thesis
    using ld_st [of "bytes_of w (obj w a m + d)" a m] w
    by (simp add: execute_def atomic_add_nv_def run_append run_loads run_stores obj_def val_of_bytes_of)
qed

text \<open>
  What each fetch operation is for, bit by bit or as a residue, without the table \<open>fetch_expr\<close>.
\<close>

fun op_result :: "fetch_op \<Rightarrow> nat \<Rightarrow> u64 \<Rightarrow> u64 \<Rightarrow> u64 \<Rightarrow> bool" where
  "op_result FAdd w old val new \<longleftrightarrow> uint new = (uint old + uint val) mod 2 ^ (8 * w)"
| "op_result FSub w old val new \<longleftrightarrow> uint new = (uint old - uint val) mod 2 ^ (8 * w)"
| "op_result FAnd w old val new \<longleftrightarrow> (\<forall>i < 8 * w. bit new i \<longleftrightarrow> bit old i \<and> bit val i)"
| "op_result FOr w old val new \<longleftrightarrow> (\<forall>i < 8 * w. bit new i \<longleftrightarrow> bit old i \<or> bit val i)"
| "op_result FXor w old val new \<longleftrightarrow> (\<forall>i < 8 * w. bit new i \<longleftrightarrow> bit old i \<noteq> bit val i)"
| "op_result FNand w old val new \<longleftrightarrow> (\<forall>i < 8 * w. bit new i \<longleftrightarrow> \<not> (bit old i \<and> bit val i))"

lemma uint_take_bit_arith:
  fixes a b :: u64
  assumes "n \<le> 64"
  shows "uint (take_bit n (a + b)) = (uint a + uint b) mod 2 ^ n"
    and "uint (take_bit n (a - b)) = (uint a - uint b) mod 2 ^ n"
proof -
  have "take_bit n (z mod 2 ^ 64) = z mod 2 ^ n" for z :: int
    using assms by (metis min.absorb1 take_bit_eq_mod take_bit_take_bit)
  then show "uint (take_bit n (a + b)) = (uint a + uint b) mod 2 ^ n"
    "uint (take_bit n (a - b)) = (uint a - uint b) mod 2 ^ n"
    by (simp_all add: unsigned_take_bit_eq uint_word_ariths)
qed

lemma fetch_expr_result:
  assumes "w \<in> set widths"
  shows "op_result e w old val (take_bit (8 * w) (fetch_expr e old val))"
proof -
  have w: "8 * w \<le> 64" using assms by (auto simp: widths_def)
  show ?thesis
    using w by (cases e) (auto simp: uint_take_bit_arith bit_take_bit_iff bit_simps)
qed

text \<open>
  C23. Values and widths: at every width the code instantiates, the fetch operations return the old
  value and leave the operator applied to it, truncated to the width: the sum or the difference
  modulo the width, or each bit the conjunction, disjunction, difference or negated conjunction of
  the bits of the operands; compare-and-swap stores only
  if the old value is the expected one and always returns the old value; the \<open>_nv\<close> additions return
  the wrapped sum they stored; and none of them changes a byte outside its object.
\<close>

theorem atomic_values:
  assumes "w \<in> set widths"
  shows "(\<forall>m' v. execute (atomic_fetch e w a x mo) m = (m', v) \<longrightarrow>
       v = obj w a m \<and> obj w a m' = take_bit (8 * w) (fetch_expr e (obj w a m) x)
       \<and> op_result e w (obj w a m) x (obj w a m') \<and> same_outside w a m m')
    \<and> (\<forall>m' v. execute (cas w a c x) m = (m', v) \<longrightarrow>
       v = obj w a m \<and> obj w a m' = (if obj w a m = c then take_bit (8 * w) x else obj w a m)
       \<and> same_outside w a m m')
    \<and> (\<forall>m' v. execute (atomic_add_nv w a x) m = (m', v) \<longrightarrow>
       v = take_bit (8 * w) (obj w a m + x) \<and> obj w a m' = v \<and> same_outside w a m m')"
proof (intro conjI allI impI)
  fix m' v
  show "v = obj w a m" "obj w a m' = take_bit (8 * w) (fetch_expr e (obj w a m) x)" "same_outside w a m m'"
    "op_result e w (obj w a m) x (obj w a m')" if "execute (atomic_fetch e w a x mo) m = (m', v)"
    using rmw_execute [OF assms that [unfolded atomic_fetch_def]] fetch_expr_result [OF assms] by simp_all
  show "v = obj w a m" "obj w a m' = (if obj w a m = c then take_bit (8 * w) x else obj w a m)"
    "same_outside w a m m'" if "execute (cas w a c x) m = (m', v)"
    using rmw_execute [OF assms that [unfolded cas_def]] by (simp_all split: if_splits)
  have w: "w \<le> 8" using assms by (auto simp: widths_def)
  assume "execute (atomic_add_nv w a x) m = (m', v)"
  then have r: "m' = st a (bytes_of w (obj w a m + x)) m" "v = take_bit (8 * w) (obj w a m + x)"
    using add_nv_execute [OF assms, of a x m] by auto
  show "v = take_bit (8 * w) (obj w a m + x)" by (rule r)
  show "obj w a m' = v"
    using ld_st [of "bytes_of w (obj w a m + x)" a m] w by (simp add: r obj_def [of w a "st _ _ _"] val_of_bytes_of)
  show "same_outside w a m m'" by (auto simp: r(1) same_outside_def intro!: st_outside)
qed

lemma atomic_values_witness:
  "2 \<in> set widths \<and> (\<exists>m' v. execute (atomic_fetch FAdd 2 6 0xFFFF 0) (\<lambda>_. 1) = (m', v)
       \<and> v = obj 2 6 (\<lambda>_. 1) \<and> obj 2 6 m' = take_bit (8 * 2) (fetch_expr FAdd (obj 2 6 (\<lambda>_. 1)) 0xFFFF)
       \<and> same_outside 2 6 (\<lambda>_. 1) m')"
proof -
  have w: "2 \<in> set widths" by (simp add: widths_def)
  obtain m' v where e: "execute (atomic_fetch FAdd 2 6 0xFFFF 0) (\<lambda>_. 1) = (m', v)" by fastforce
  with atomic_values [OF w, of FAdd 6 "0xFFFF" 0 "\<lambda>_. 1"] w show ?thesis by blast
qed

lemma loads_striped: "aligned w a \<Longrightarrow> in_stripe (sst_stripe_for a) (loads w a)"
proof -
  assume al: "aligned w a"
  have "sst_stripe_for (a + 4 + of_nat i) = sst_stripe_for a" if "w = 8" "i < 4" for i
    using aligned_stripe [OF al, of "4 + i"] that by (simp add: add.assoc)
  then show ?thesis using aligned_stripe [OF al] by (auto simp: loads_def list_all_iff)
qed

lemma stores_striped: "aligned w a \<Longrightarrow> in_stripe (sst_stripe_for a) (stores w a f)"
proof -
  assume al: "aligned w a"
  have "sst_stripe_for (a + 4 + of_nat i) = sst_stripe_for a" if "w = 8" "i < 4" for i
    using aligned_stripe [OF al, of "4 + i"] that by (simp add: add.assoc)
  then show ?thesis using aligned_stripe [OF al] by (auto simp: stores_def list_all_iff)
qed

lemma in_stripe_append [simp]: "in_stripe i (a @ b) \<longleftrightarrow> in_stripe i a \<and> in_stripe i b"
  by (simp add: in_stripe_def)

lemma rmw_striped: "aligned w a \<Longrightarrow> striped (rmw w a f g)"
  by (simp add: rmw_def striped_def loads_striped stores_striped)

lemmas operation_defs =
  cas_def cas32_def cas64_def caslong_def casptr_def atomic_add_def swap_op_def atomic_swap_uint_def
  atomic_swap_ptr_def atomic_add_int_def atomic_or_uint_def atomic_cas_uint_def atomic_cas_ptr_def
  atomic_fetch_def atomic_exchange_def compare_exchange_def sync_val_compare_and_swap_4_def
  sync_fetch_and_def sync_and_fetch_def sync_lock_test_and_set_4_def

text \<open>
  Every locking operation on a naturally aligned object makes all its accesses within the stripe
  it locks, at every width; and two aligned objects of any widths that share a byte lie in the same
  stripe, so overlapping operations of different widths exclude each other.
\<close>

lemma aligned_operations_striped:
  assumes "aligned w a"
  shows "striped (atomic_fetch e w a x mo) \<and> striped (atomic_exchange w a x mo)
    \<and> striped (compare_exchange w a c x) \<and> striped (atomic_add w a x) \<and> striped (atomic_add_nv w a x)
    \<and> (w = 8 \<longrightarrow> striped (cas64 a c x) \<and> striped (atomic_load_8 a mo) \<and> striped (atomic_store_8 a x mo))
    \<and> (w = 4 \<longrightarrow> striped (cas32 a c4 x4) \<and> striped (caslong a c4 x4) \<and> striped (casptr a c4 x4)
         \<and> striped (sync_fetch_and e a x4) \<and> striped (sync_and_fetch e a x4)
         \<and> striped (sync_bool_compare_and_swap_4 a c4 x4) \<and> striped (sync_lock_release_4 a))
    \<and> (\<forall>w' a' i j. aligned w' a' \<longrightarrow> i < w \<longrightarrow> j < w' \<longrightarrow> a + of_nat i = a' + of_nat j \<longrightarrow>
         sst_stripe_for a = sst_stripe_for a')"
  using assms loads_striped [OF assms] stores_striped [OF assms] aligned_stripe [OF assms]
    aligned_stripe [of w' a' j for w' a' j]
  apply (intro conjI impI allI)
  apply (simp_all add: operation_defs rmw_striped)
  apply (simp_all add: striped_def atomic_add_nv_def atomic_load_8_def atomic_store_8_def rmw_def
      sync_bool_compare_and_swap_4_def operation_defs sync_lock_release_4_def)
  apply metis
  done

lemma aligned_operations_striped_witness: "aligned 8 24 \<and> striped (atomic_store_8 24 7 0)"
  using aligned_operations_striped [of 8 24] by (simp add: aligned_def widths_def)

text \<open>The step relation, executed: thread \<open>t\<close> makes its next step, starting \<open>p\<close> when it is idle.\<close>

definition sched :: "nat \<times> operation \<Rightarrow> sys \<Rightarrow> sys" where
  "sched tp s = (case tp of (t, p) \<Rightarrow> case pc s t of
     Idle \<Rightarrow> if op_locked p then s\<lparr>pc := (pc s)(t := Want p)\<rparr>
             else s\<lparr>pc := (pc s)(t := Busy p (length (hist s)) (op_body p) []), hist := hist s @ [p]\<rparr>
   | Want q \<Rightarrow> (case sst_ldstub (sst_stripe_for (op_addr q)) (locks s) of (b, l) \<Rightarrow>
       if b = 0
       then s\<lparr>locks := l, pc := (pc s)(t := Busy q (length (hist s)) (op_body q) []), hist := hist s @ [q]\<rparr>
       else s\<lparr>locks := l, pc := (pc s)(t := Spin q)\<rparr>)
   | Spin q \<Rightarrow> if locks s (sst_stripe_for (op_addr q)) \<noteq> 0 then s else s\<lparr>pc := (pc s)(t := Want q)\<rparr>
   | Busy q n [] r \<Rightarrow>
       if op_locked q then s\<lparr>locks := sst_stripe_unlock (sst_stripe_for (op_addr q)) (locks s),
                             pc := (pc s)(t := Idle), rets := rets s @ [(n, op_ret q r)]\<rparr>
       else s\<lparr>pc := (pc s)(t := Idle), rets := rets s @ [(n, op_ret q r)]\<rparr>
   | Busy q n (i # is) r \<Rightarrow>
       (case exec i (mem s, r) of (m, r') \<Rightarrow> s\<lparr>mem := m, pc := (pc s)(t := Busy q n is r')\<rparr>))"

lemma sched_step: "adm p \<Longrightarrow> step adm s (sched (t, p) s)"
  by (auto simp: sched_def split: thread.split list.split prod.split intro: step.intros)

lemma sched_run: "list_all (adm \<circ> snd) tps \<Longrightarrow> (step adm)\<^sup>*\<^sup>* s (fold sched tps s)"
proof (induction tps arbitrary: s)
  case (Cons tp tps)
  have "step adm s (sched tp s)" using sched_step [of adm "snd tp" s "fst tp"] Cons.prems by simp
  then show ?case using Cons by (auto intro: converse_rtranclp_into_rtranclp)
qed simp

text \<open>Two threads add to the same word; the second finds the stripe locked and spins.\<close>

definition two_adds :: "(nat \<times> operation) list" where
  "two_adds = (let p = sync_fetch_and FAdd 8 1; q = sync_fetch_and FAdd 8 2 in
     [(0, p), (1, q), (0, p), (1, q), (0, p), (1, q), (0, p), (0, p),
      (1, q), (1, q), (1, q), (1, q), (1, q)])"

lemma two_adds_reachable: "(step striped)\<^sup>*\<^sup>* (sys_init m) (fold sched two_adds (sys_init m))"
proof (rule sched_run)
  have "aligned 4 8" by (simp add: aligned_def widths_def)
  then show "list_all (striped \<circ> snd) two_adds"
    by (simp add: two_adds_def Let_def sync_fetch_and_def rmw_striped)
qed

lemma stripe_ops_linearizable_witness:
  "\<exists>v. (1, v) \<in> set (rets (fold sched two_adds (sys_init (\<lambda>_. 0))))
     \<and> snd (replay (hist (fold sched two_adds (sys_init (\<lambda>_. 0)))) (\<lambda>_. 0)) ! 1 = v"
proof -
  let ?s = "fold sched two_adds (sys_init (\<lambda>_. 0))"
  have "1 \<in> fst ` set (rets ?s)"
    by (simp add: two_adds_def sched_def sys_init_def sync_fetch_and_def rmw_def loads_def stores_def
        sst_ldstub_def sst_stripe_unlock_def stripe_nat Let_def)
  then obtain v where v: "(1, v) \<in> set (rets ?s)" by force
  with stripe_ops_linearizable [OF two_adds_reachable, of "\<lambda>_. 0", THEN conjunct1]
  have "snd (replay (hist ?s) (\<lambda>_. 0)) ! 1 = v" by fast
  with v show ?thesis by blast
qed

lemma stripe_mutual_exclusion_witness:
  "locks (fold sched two_adds (sys_init (\<lambda>_. 0))) 3 \<noteq> 0 \<longleftrightarrow>
   (\<exists>t p n b r. pc (fold sched two_adds (sys_init (\<lambda>_. 0))) t = Busy p n b r \<and> sst_stripe_for (op_addr p) = 3)"
  by (rule stripe_mutual_exclusion [OF two_adds_reachable, THEN conjunct2, THEN spec])

text \<open>A busy thread can always run to the end of its operation, without the help of any other.\<close>

lemma busy_finishes:
  "pc s t = Busy p n body r \<Longrightarrow> op_locked p \<Longrightarrow>
   \<exists>s'. (step adm)\<^sup>*\<^sup>* s s' \<and> pc s' t = Idle \<and> (\<forall>u. u \<noteq> t \<longrightarrow> pc s' u = pc s u)
      \<and> (\<forall>i. locks s' i = (if i = sst_stripe_for (op_addr p) then 0 else locks s i))"
proof (induction body arbitrary: s r)
  case Nil
  from step.unlock [OF Nil] show ?case
    by (intro exI conjI, rule r_into_rtranclp) (auto simp: sst_stripe_unlock_def)
next
  case (Cons i body)
  obtain m r' where e: "exec i (mem s, r) = (m, r')" by fastforce
  let ?s = "s\<lparr>mem := m, pc := (pc s)(t := Busy p n body r')\<rparr>"
  from Cons.IH [of ?s r'] Cons.prems obtain s' where s': "(step adm)\<^sup>*\<^sup>* ?s s'" "pc s' t = Idle" "\<forall>u. u \<noteq> t \<longrightarrow> pc s' u = pc s u"
    "\<forall>i. locks s' i = (if i = sst_stripe_for (op_addr p) then 0 else locks s i)" by auto
  have "(step adm)\<^sup>*\<^sup>* s s'"
    by (rule converse_rtranclp_into_rtranclp [OF step.access [OF Cons.prems(1) e] s'(1)])
  with s' show ?case by blast
qed

lemma want_finishes:
  assumes "pc s t = Want p" and "locks s (sst_stripe_for (op_addr p)) = 0" and "op_locked p"
  shows "\<exists>s'. (step adm)\<^sup>*\<^sup>* s s' \<and> pc s' t = Idle"
proof -
  let ?i = "sst_stripe_for (op_addr p)"
  let ?s = "s\<lparr>locks := (locks s)(?i := 0xFF), pc := (pc s)(t := Busy p (length (hist s)) (op_body p) []),
      hist := hist s @ [p]\<rparr>"
  have "step adm s ?s" using assms(1,2) by (intro step.lock) (auto simp: sst_ldstub_def)
  moreover obtain s' where "(step adm)\<^sup>*\<^sup>* ?s s'" "pc s' t = Idle"
    using busy_finishes [of ?s t p "length (hist s)" "op_body p" "[]" adm] assms(3) by auto
  ultimately show ?thesis by (meson converse_rtranclp_into_rtranclp)
qed

lemma waiting_finishes:
  assumes "pc s t = Want p \<or> pc s t = Spin p" and "locks s (sst_stripe_for (op_addr p)) = 0" and "op_locked p"
  shows "\<exists>s'. (step adm)\<^sup>*\<^sup>* s s' \<and> pc s' t = Idle"
  using assms(1)
proof
  assume sp: "pc s t = Spin p"
  let ?s = "s\<lparr>pc := (pc s)(t := Want p)\<rparr>"
  have "step adm s ?s" using sp assms(2) by (rule step.retry)
  moreover obtain s' where "(step adm)\<^sup>*\<^sup>* ?s s'" "pc s' t = Idle"
    using want_finishes [of ?s t p adm] assms by auto
  ultimately show ?thesis by (meson converse_rtranclp_into_rtranclp)
qed (use want_finishes assms in blast)

text \<open>
  C18. No deadlock: from every reachable state, whatever operations are in progress, each thread's
  operation can be driven to completion; a thread that waits for a stripe needs only its holder to
  finish.
\<close>

theorem stripe_ops_can_complete:
  assumes "(step striped)\<^sup>*\<^sup>* (sys_init m0) s"
  shows "\<exists>s'. (step striped)\<^sup>*\<^sup>* s s' \<and> pc s' t = Idle"
proof -
  have inv: "simulates m0 s" "mutex s" using reachable_inv [OF assms] by auto
  note lk = simulates_striped [OF inv(1), unfolded striped_def, THEN conjunct1]
  have wait: ?thesis if w: "pc s t = Want p \<or> pc s t = Spin p" for p
  proof (cases "locks s (sst_stripe_for (op_addr p)) = 0")
    case True
    then show ?thesis using waiting_finishes [of s t p striped] w lk [of t p] by blast
  next
    case False
    then obtain u q n body r where u: "pc s u = Busy q n body r" "sst_stripe_for (op_addr q) = sst_stripe_for (op_addr p)"
      using inv(2) unfolding mutex_def holds_def by blast
    obtain s1 where s1: "(step striped)\<^sup>*\<^sup>* s s1" "\<forall>v. v \<noteq> u \<longrightarrow> pc s1 v = pc s v"
      "\<forall>i. locks s1 i = (if i = sst_stripe_for (op_addr q) then 0 else locks s i)"
      using busy_finishes [of s u q n body r striped] u(1) lk [of u q n body r] by blast
    have "t \<noteq> u" using u(1) w by auto
    then have "pc s1 t = Want p \<or> pc s1 t = Spin p" "locks s1 (sst_stripe_for (op_addr p)) = 0"
      using s1 u w by auto
    then obtain s2 where "(step striped)\<^sup>*\<^sup>* s1 s2" "pc s2 t = Idle"
      using waiting_finishes [of s1 t p striped] w lk [of t p] by blast
    then show ?thesis using s1(1) by (meson rtranclp_trans)
  qed
  show ?thesis
  proof (cases "pc s t")
    case (Busy p n body r)
    then show ?thesis using busy_finishes [of s t p n body r striped] lk [of t p n body r] by blast
  qed (use wait in blast)+
qed

lemma stripe_ops_can_complete_witness:
  "\<exists>s'. (step striped)\<^sup>*\<^sup>* (fold sched two_adds (sys_init (\<lambda>_. 0))) s' \<and> pc s' 1 = Idle"
  by (rule stripe_ops_can_complete [OF two_adds_reachable])

text \<open>One thread adds 1 to a word while another stores 5 to it with the plain \<open>__atomic_store_4\<close>.\<close>

definition add_and_store :: "(nat \<times> operation) list" where
  "add_and_store = (let p = sync_fetch_and FAdd 8 1; q = atomic_store_4 8 5 0 in
     [(0, p), (0, p), (0, p), (1, q), (1, q), (1, q), (0, p), (0, p)])"

text \<open>
  C40. \<open>__atomic_store_4\<close> takes no stripe lock, so it is not atomic with respect to the locked
  operations: there is a run of one fetch-and-add and one such store on the same word in which both
  complete and the store is lost, a result that neither sequential order of the two operations gives.
\<close>

theorem atomic_store_4_lost:
  "\<exists>s. (step (\<lambda>_. True))\<^sup>*\<^sup>* (sys_init (\<lambda>_. 0)) s \<and> pc s 0 = Idle \<and> pc s 1 = Idle
     \<and> set (hist s) = {sync_fetch_and FAdd 8 1, atomic_store_4 8 5 0} \<and> length (rets s) = 2
     \<and> obj 4 8 (mem s) = 1
     \<and> obj 4 8 (fst (replay [sync_fetch_and FAdd 8 1, atomic_store_4 8 5 0] (\<lambda>_. 0))) = 5
     \<and> obj 4 8 (fst (replay [atomic_store_4 8 5 0, sync_fetch_and FAdd 8 1] (\<lambda>_. 0))) = 6"
proof (intro exI conjI)
  let ?s = "fold sched add_and_store (sys_init (\<lambda>_. 0))"
  show "(step (\<lambda>_. True))\<^sup>*\<^sup>* (sys_init (\<lambda>_. 0)) ?s" by (rule sched_run) (simp add: list_all_iff)
  note eval = add_and_store_def sched_def sys_init_def sync_fetch_and_def atomic_store_4_def rmw_def loads_def
    stores_def sst_ldstub_def sst_stripe_unlock_def stripe_nat Let_def
  have zero: "val_of (ld 8 4 (\<lambda>_. 0)) = 0" by code_simp
  have obj: "obj 4 8 (st 8 (bytes_of 4 v) m) = take_bit 32 v" for v m
    using ld_st [of "bytes_of 4 v" 8 m] by (simp add: obj_def val_of_bytes_of)
  have m: "mem ?s = st 8 (bytes_of 4 1) (st 8 (bytes_of 4 5) (\<lambda>_. 0))" by (simp add: eval zero)
  show "pc ?s 0 = Idle" "pc ?s 1 = Idle" "length (rets ?s) = 2" by (simp_all add: eval)
  have "hist ?s = [sync_fetch_and FAdd 8 1, atomic_store_4 8 5 0]" by (simp add: eval)
  then show "set (hist ?s) = {sync_fetch_and FAdd 8 1, atomic_store_4 8 5 0}" by simp
  show "obj 4 8 (mem ?s) = 1" by (simp add: m obj)
  show "obj 4 8 (fst (replay [sync_fetch_and FAdd 8 1, atomic_store_4 8 5 0] (\<lambda>_. 0))) = 5" by code_simp
  show "obj 4 8 (fst (replay [atomic_store_4 8 5 0, sync_fetch_and FAdd 8 1] (\<lambda>_. 0))) = 6" by code_simp
qed

end
