(* ===== verification/Cxa_Atexit.thy ===== *)
theory Cxa_Atexit
  imports Prelude
begin

text \<open>
  Per-object destructors, \<open>src/src/cxa_atexit.c\<close>: the table of \<open>__cxa_atexit\<close> and the reverse walk
  of \<open>__cxa_finalize\<close>.

  A destructor is code of the program: it is a parameter, and may register further destructors.
  The walk releases the mutex around the call, so it sees the table the destructor left. The list of
  calls made is recorded in the state.
\<close>

section \<open>The table\<close>

record cxa_entry =
  destructor_func :: u32
  object_arg :: u32
  dso_handle :: u32
  in_use :: bool

record cxa =
  cxa_atexit_table :: "cxa_entry list"
  cxa_atexit_count :: nat
  cxa_finalize_registered :: bool
  calls :: "(u32 \<times> u32) list"

definition CXA_ATEXIT_MAX :: nat where
  "CXA_ATEXIT_MAX = 1024"

definition no_entry :: cxa_entry where
  "no_entry = \<lparr>destructor_func = 0, object_arg = 0, dso_handle = 0, in_use = False\<rparr>"

definition cxa_init :: cxa where
  "cxa_init = \<lparr>cxa_atexit_table = replicate CXA_ATEXIT_MAX no_entry, cxa_atexit_count = 0,
               cxa_finalize_registered = False, calls = []\<rparr>"

definition cxa_atexit :: "u32 \<Rightarrow> u32 \<Rightarrow> u32 \<Rightarrow> cxa \<Rightarrow> int \<times> cxa" where
  "cxa_atexit f arg dso s =
     (let s = (if \<not> cxa_finalize_registered s then s\<lparr>cxa_finalize_registered := True\<rparr> else s)
      in if cxa_atexit_count s < CXA_ATEXIT_MAX
         then (0, s\<lparr>cxa_atexit_table := (cxa_atexit_table s)[cxa_atexit_count s :=
                      \<lparr>destructor_func = f, object_arg = arg, dso_handle = dso, in_use = True\<rparr>],
                    cxa_atexit_count := cxa_atexit_count s + 1\<rparr>)
         else (-1, s))"

text \<open>A destructor with its argument, as a transformation of the state.\<close>

type_synonym dtor = "u32 \<Rightarrow> u32 \<Rightarrow> cxa \<Rightarrow> cxa"

definition selected :: "u32 \<Rightarrow> cxa_entry \<Rightarrow> bool" where
  "selected h e \<longleftrightarrow> in_use e \<and> \<not> (h \<noteq> 0 \<and> dso_handle e \<noteq> h)"

text \<open>The loop body for the entry at index \<open>i\<close>.\<close>

definition finalize_entry :: "dtor \<Rightarrow> u32 \<Rightarrow> nat \<Rightarrow> cxa \<Rightarrow> cxa" where
  "finalize_entry dtor h i s =
     (let entry = cxa_atexit_table s ! i
      in if \<not> selected h entry then s
         else let s = s\<lparr>cxa_atexit_table := (cxa_atexit_table s)[i := entry\<lparr>in_use := False\<rparr>],
                        calls := calls s @ [(destructor_func entry, object_arg entry)]\<rparr>
              in dtor (destructor_func entry) (object_arg entry) s)"

fun finalize_loop :: "dtor \<Rightarrow> u32 \<Rightarrow> nat \<Rightarrow> cxa \<Rightarrow> cxa" where
  "finalize_loop dtor h 0 s = s"
| "finalize_loop dtor h (Suc i) s = finalize_loop dtor h i (finalize_entry dtor h i s)"

definition cxa_finalize :: "dtor \<Rightarrow> u32 \<Rightarrow> cxa \<Rightarrow> cxa" where
  "cxa_finalize dtor h s = finalize_loop dtor h (cxa_atexit_count s) s"

definition cxa_atexit_cleanup :: "dtor \<Rightarrow> cxa \<Rightarrow> cxa" where
  "cxa_atexit_cleanup dtor s = cxa_finalize dtor 0 s"

section \<open>Well-formedness\<close>

definition wf_cxa :: "cxa \<Rightarrow> bool" where
  "wf_cxa s \<longleftrightarrow> length (cxa_atexit_table s) = CXA_ATEXIT_MAX \<and> cxa_atexit_count s \<le> CXA_ATEXIT_MAX
     \<and> (\<forall>i < CXA_ATEXIT_MAX. cxa_atexit_count s \<le> i \<longrightarrow> \<not> in_use (cxa_atexit_table s ! i))"

text \<open>
  What the walk relies on: a destructor keeps the table well formed, never lowers the count and
  leaves the entries that were there before as they are.
\<close>

definition appends :: "cxa \<Rightarrow> cxa \<Rightarrow> bool" where
  "appends s s' \<longleftrightarrow> cxa_atexit_count s \<le> cxa_atexit_count s' \<and> calls s' = calls s
     \<and> (\<forall>i < cxa_atexit_count s. cxa_atexit_table s' ! i = cxa_atexit_table s ! i)"

text \<open>
  The specification: the registrations that have not run, oldest first, each with its destructor, its
  argument and its handle.
\<close>

type_synonym registration = "u32 \<times> u32 \<times> u32"

definition live :: "cxa_entry list \<Rightarrow> registration list" where
  "live es = [(destructor_func e, object_arg e, dso_handle e). e \<leftarrow> es, in_use e]"

definition pending :: "cxa \<Rightarrow> registration list" where
  "pending s = live (take (cxa_atexit_count s) (cxa_atexit_table s))"

text \<open>Those of the handle, or all for the null handle, and the others.\<close>

definition of_dso :: "u32 \<Rightarrow> registration list \<Rightarrow> registration list" where
  "of_dso h rs = [(f, a, d) \<leftarrow> rs. h = 0 \<or> d = h]"

definition not_of_dso :: "u32 \<Rightarrow> registration list \<Rightarrow> registration list" where
  "not_of_dso h rs = [(f, a, d) \<leftarrow> rs. h \<noteq> 0 \<and> d \<noteq> h]"

definition call_of :: "registration \<Rightarrow> u32 \<times> u32" where
  "call_of = (\<lambda>(f, a, d). (f, a))"

lemma live_simps [simp]:
  "live [] = []" "live (es @ es') = live es @ live es'"
  "live (e # es) = (if in_use e then [(destructor_func e, object_arg e, dso_handle e)] else []) @ live es"
  by (simp_all add: live_def)

lemma dso_simps [simp]:
  "of_dso h [] = []" "not_of_dso h [] = []" "call_of (f, a, d) = (f, a)"
  "of_dso h (rs @ rs') = of_dso h rs @ of_dso h rs'" "not_of_dso h (rs @ rs') = not_of_dso h rs @ not_of_dso h rs'"
  "of_dso h ((f, a, d) # rs) = (if h = 0 \<or> d = h then [(f, a, d)] else []) @ of_dso h rs"
  "not_of_dso h ((f, a, d) # rs) = (if h = 0 \<or> d = h then [] else [(f, a, d)]) @ not_of_dso h rs"
  by (simp_all add: of_dso_def not_of_dso_def call_of_def)

text \<open>
  What the walk relies on: a destructor keeps the table well formed, leaves the entries that were there
  before as they are, and adds what it registers, as far as the table has room.
\<close>

locale destructors =
  fixes dtor :: dtor and regs :: "u32 \<Rightarrow> u32 \<Rightarrow> registration list"
  assumes dtor_wf: "wf_cxa s \<Longrightarrow> wf_cxa (dtor f a s)"
    and dtor_appends: "wf_cxa s \<Longrightarrow> appends s (dtor f a s)"
    and dtor_pending: "wf_cxa s \<Longrightarrow>
      pending (dtor f a s) = pending s @ take (CXA_ATEXIT_MAX - cxa_atexit_count s) (regs f a)
      \<and> cxa_atexit_count (dtor f a s) = min CXA_ATEXIT_MAX (cxa_atexit_count s + length (regs f a))"
begin

text \<open>The loop body at index \<open>i\<close>, and the registrations from there on.\<close>

lemma entry_effect:
  fixes h :: u32
  assumes "wf_cxa s" and "i < cxa_atexit_count s"
  defines "e \<equiv> cxa_atexit_table s ! i" and "s' \<equiv> finalize_entry dtor h i s"
  defines "due \<equiv> of_dso h (live [e])"
  shows "wf_cxa s'" and "calls s' = calls s @ map call_of due"
    and "take i (cxa_atexit_table s') = take i (cxa_atexit_table s)"
    and "live (drop i (take (cxa_atexit_count s') (cxa_atexit_table s')))
       = not_of_dso h (live [e]) @ live (drop (Suc i) (take (cxa_atexit_count s) (cxa_atexit_table s)))
         @ take (CXA_ATEXIT_MAX - cxa_atexit_count s) (concat (map (\<lambda>(f, a, d). regs f a) due))"
    and "cxa_atexit_count s' = min CXA_ATEXIT_MAX (cxa_atexit_count s + length (concat (map (\<lambda>(f, a, d). regs f a) due)))"
    and "i \<le> cxa_atexit_count s'"
proof -
  let ?t = "cxa_atexit_table s" and ?n = "cxa_atexit_count s"
  let ?s = "s\<lparr>cxa_atexit_table := ?t[i := e\<lparr>in_use := False\<rparr>], calls := calls s @ [(destructor_func e, object_arg e)]\<rparr>"
  have len: "length ?t = CXA_ATEXIT_MAX" "?n \<le> CXA_ATEXIT_MAX" "i < length (take ?n ?t)"
    using assms(1,2) by (auto simp: wf_cxa_def)
  have wf: "wf_cxa ?s" using assms(1,2) by (auto simp: wf_cxa_def nth_list_update e_def)
  note app = dtor_appends [OF wf, unfolded appends_def] and pen = dtor_pending [OF wf]
  have split: "take ?n ?t = take i ?t @ e # drop (Suc i) (take ?n ?t)"
    using id_take_nth_drop [OF len(3)] assms(2) by (simp add: e_def min_def)
  have ps: "pending s = live (take i ?t) @ live [e] @ live (drop (Suc i) (take ?n ?t))"
    unfolding pending_def by (subst split) simp
  have upd: "pending ?s = live (take i ?t) @ live (drop (Suc i) (take ?n ?t))"
    using upd_conv_take_nth_drop [OF len(3), of "e\<lparr>in_use := False\<rparr>"] assms(2)
    by (simp add: pending_def take_update_swap min_def)
  show "wf_cxa s'" using wf assms(1) by (auto simp: s'_def finalize_entry_def e_def [symmetric] Let_def intro: dtor_wf)
  show "calls s' = calls s @ map call_of due"
    using app by (auto simp: s'_def finalize_entry_def e_def [symmetric] Let_def selected_def due_def)
  show prefix: "take i (cxa_atexit_table s') = take i ?t"
  proof (rule nth_equalityI)
    show "length (take i (cxa_atexit_table s')) = length (take i ?t)"
      using \<open>wf_cxa s'\<close> len(1) by (simp add: wf_cxa_def)
  next
    fix j assume "j < length (take i (cxa_atexit_table s'))"
    then have "j < i" by simp
    then show "take i (cxa_atexit_table s') ! j = take i ?t ! j"
      using app assms(2) by (auto simp: s'_def finalize_entry_def e_def [symmetric] Let_def)
  qed
  show cnt: "cxa_atexit_count s' = min CXA_ATEXIT_MAX (?n + length (concat (map (\<lambda>(f, a, d). regs f a) due)))"
    using pen len(2) by (auto simp: s'_def finalize_entry_def e_def [symmetric] Let_def selected_def due_def)
  show "i \<le> cxa_atexit_count s'" using cnt len(2) assms(2) by simp
  have "live (take i ?t) @ live (drop i (take (cxa_atexit_count s') (cxa_atexit_table s'))) = pending s'"
    unfolding prefix [symmetric] live_simps(2) [symmetric] pending_def
    using \<open>i \<le> cxa_atexit_count s'\<close> append_take_drop_id [of i "take (cxa_atexit_count s') (cxa_atexit_table s')"] by (simp add: min_def)
  also have "pending s' = live (take i ?t) @ not_of_dso h (live [e]) @ live (drop (Suc i) (take ?n ?t))
      @ take (CXA_ATEXIT_MAX - ?n) (concat (map (\<lambda>(f, a, d). regs f a) due))"
    using pen upd ps by (auto simp: s'_def finalize_entry_def e_def [symmetric] Let_def selected_def due_def)
  finally show "live (drop i (take (cxa_atexit_count s') (cxa_atexit_table s')))
       = not_of_dso h (live [e]) @ live (drop (Suc i) (take ?n ?t))
         @ take (CXA_ATEXIT_MAX - ?n) (concat (map (\<lambda>(f, a, d). regs f a) due))" by simp
qed

text \<open>The walk over the first \<open>n\<close> entries.\<close>

lemma loop_effect:
  fixes h :: u32
  assumes "wf_cxa s" and "n \<le> cxa_atexit_count s"
  defines "s' \<equiv> finalize_loop dtor h n s" and "rs \<equiv> live (take n (cxa_atexit_table s))"
  shows "wf_cxa s' \<and> calls s' = calls s @ map call_of (rev (of_dso h rs))
    \<and> pending s' = not_of_dso h rs @ live (drop n (take (cxa_atexit_count s) (cxa_atexit_table s)))
        @ take (CXA_ATEXIT_MAX - cxa_atexit_count s) (concat (map (\<lambda>(f, a, d). regs f a) (rev (of_dso h rs))))"
  using assms(1,2) unfolding s'_def rs_def
proof (induction n arbitrary: s)
  case 0
  then show ?case by (simp add: pending_def)
next
  case (Suc n)
  have n: "n < cxa_atexit_count s" "n < length (cxa_atexit_table s)" using Suc.prems by (auto simp: wf_cxa_def)
  define L where "L = live [cxa_atexit_table s ! n]"
  note e = entry_effect [OF Suc.prems(1) n(1), of h, folded L_def]
  define s1 where "s1 = finalize_entry dtor h n s"
  define new where "new = concat (map (\<lambda>(f, a, d). regs f a) (of_dso h L))"
  have L: "live (take (Suc n) (cxa_atexit_table s)) = live (take n (cxa_atexit_table s)) @ L" "rev (of_dso h L) = of_dso h L"
    using take_Suc_conv_app_nth [OF n(2)] by (simp_all add: L_def)
  have room: "take (CXA_ATEXIT_MAX - cxa_atexit_count s) new @ take (CXA_ATEXIT_MAX - cxa_atexit_count s1) more
      = take (CXA_ATEXIT_MAX - cxa_atexit_count s) (new @ more)" for more
    using e(5) Suc.prems by (auto simp: s1_def new_def min_def)
  show ?case
    using Suc.IH [OF e(1,6)] e(2,3,4)
    by (simp add: L s1_def [symmetric] new_def [symmetric] room [symmetric] del: take_append)
qed

lemma finalize_effect:
  fixes h :: u32
  assumes "wf_cxa s"
  defines "s' \<equiv> cxa_finalize dtor h s" and "due \<equiv> rev (of_dso h (pending s))"
  shows "wf_cxa s' \<and> calls s' = calls s @ map call_of due
    \<and> pending s' = not_of_dso h (pending s)
        @ take (CXA_ATEXIT_MAX - cxa_atexit_count s) (concat (map (\<lambda>(f, a, d). regs f a) due))"
  using loop_effect [OF assms(1) order_refl, of h] unfolding s'_def due_def cxa_finalize_def pending_def by simp

end

lemma cxa_atexit_wf: "wf_cxa s \<Longrightarrow> wf_cxa (snd (cxa_atexit f a d s))"
  by (auto simp: cxa_atexit_def wf_cxa_def Let_def nth_list_update)

lemma cxa_atexit_appends: "wf_cxa s \<Longrightarrow> appends s (snd (cxa_atexit f a d s))"
  by (auto simp: cxa_atexit_def appends_def Let_def wf_cxa_def)

lemma appends_trans: "appends a b \<Longrightarrow> appends b c \<Longrightarrow> appends a c"
  by (auto simp: appends_def)

lemma cxa_atexit_pending:
  assumes "wf_cxa s"
  shows "pending (snd (cxa_atexit f a d s)) = pending s @ take (CXA_ATEXIT_MAX - cxa_atexit_count s) [(f, a, d)]"
    and "cxa_atexit_count (snd (cxa_atexit f a d s)) = min CXA_ATEXIT_MAX (cxa_atexit_count s + 1)"
proof -
  let ?n = "cxa_atexit_count s" and ?t = "cxa_atexit_table s"
  have "take (Suc ?n) (?t[?n := e]) = take ?n ?t @ [e]" if "?n < CXA_ATEXIT_MAX" for e
    using assms that by (simp add: wf_cxa_def take_Suc_conv_app_nth)
  then show "pending (snd (cxa_atexit f a d s)) = pending s @ take (CXA_ATEXIT_MAX - ?n) [(f, a, d)]"
    by (auto simp: pending_def cxa_atexit_def Let_def)
  show "cxa_atexit_count (snd (cxa_atexit f a d s)) = min CXA_ATEXIT_MAX (?n + 1)"
    using assms by (auto simp: cxa_atexit_def Let_def wf_cxa_def)
qed

text \<open>Destructors that register further destructors, each a fixed list.\<close>

definition registering :: "(u32 \<Rightarrow> u32 \<Rightarrow> registration list) \<Rightarrow> dtor" where
  "registering regs f a s = foldl (\<lambda>s (g, b, d). snd (cxa_atexit g b d s)) s (regs f a)"

lemma registering_effect:
  fixes l :: "registration list"
  assumes "wf_cxa s"
  defines "s' \<equiv> foldl (\<lambda>s (g, b, d). snd (cxa_atexit g b d s)) s l"
  shows "wf_cxa s' \<and> appends s s' \<and> pending s' = pending s @ take (CXA_ATEXIT_MAX - cxa_atexit_count s) l
    \<and> cxa_atexit_count s' = min CXA_ATEXIT_MAX (cxa_atexit_count s + length l)"
  using assms(1) unfolding s'_def
proof (induction l arbitrary: s)
  case Nil
  then show ?case by (simp add: appends_def wf_cxa_def)
next
  case (Cons r l)
  obtain g b d where r: "r = (g, b, d)" by (cases r)
  let ?s = "snd (cxa_atexit g b d s)"
  have w: "wf_cxa ?s" by (rule cxa_atexit_wf [OF Cons.prems])
  have "take (CXA_ATEXIT_MAX - cxa_atexit_count s) [(g, b, d)] @ take (CXA_ATEXIT_MAX - cxa_atexit_count ?s) l
      = take (CXA_ATEXIT_MAX - cxa_atexit_count s) ((g, b, d) # l)"
    using cxa_atexit_pending(2) [OF Cons.prems, of g b d] by (cases "CXA_ATEXIT_MAX - cxa_atexit_count s") (auto simp: min_def Suc_diff_Suc diff_Suc)
  with Cons.IH [OF w] cxa_atexit_pending [OF Cons.prems, of g b d] show ?case
    by (auto simp: r intro: appends_trans [OF cxa_atexit_appends [OF Cons.prems, of g b d]])
qed

interpretation reg: destructors "registering regs" regs for regs
  using registering_effect by unfold_locales (auto simp: registering_def)

section \<open>Properties\<close>

lemma wf_cxa_init: "wf_cxa cxa_init"
  by (simp add: wf_cxa_def cxa_init_def no_entry_def)

text \<open>
  C36. The table is a list of registrations that have not run. \<open>__cxa_atexit\<close> adds one at its end, or
  fails with \<open>-1\<close> when the 1024 entries are used up. \<open>__cxa_finalize\<close> calls the destructors that were registered
  for the handle when it began (all of them for a null handle), each once and last registered first, removes
  them and keeps the others. What the destructors register meanwhile is added at the end and is not called
  by this call, whatever its handle: it waits for a later call, and is lost at exit, where there is none.
\<close>

theorem cxa_finalize_runs_once:
  fixes regs :: "u32 \<Rightarrow> u32 \<Rightarrow> registration list" and h :: u32
  assumes "wf_cxa s"
  defines "s' \<equiv> cxa_finalize (registering regs) h s" and "due \<equiv> rev [(f, a, d) \<leftarrow> pending s. h = 0 \<or> d = h]"
  shows "(case cxa_atexit f a d s of (r, s1) \<Rightarrow> wf_cxa s1 \<and> calls s1 = calls s \<and>
        (if cxa_atexit_count s < 1024 then r = 0 \<and> pending s1 = pending s @ [(f, a, d)] else r = -1 \<and> pending s1 = pending s))
    \<and> wf_cxa s' \<and> calls s' = calls s @ map (\<lambda>(f, a, d). (f, a)) due
    \<and> pending s' = [(f, a, d) \<leftarrow> pending s. h \<noteq> 0 \<and> d \<noteq> h]
        @ take (1024 - cxa_atexit_count s) (concat (map (\<lambda>(f, a, d). regs f a) due))"
proof -
  have "case cxa_atexit f a d s of (r, s1) \<Rightarrow> wf_cxa s1 \<and> calls s1 = calls s \<and>
      (if cxa_atexit_count s < 1024 then r = 0 \<and> pending s1 = pending s @ [(f, a, d)] else r = -1 \<and> pending s1 = pending s)"
    using cxa_atexit_pending(1) [OF assms(1), of f a d] cxa_atexit_wf [OF assms(1), of f a d] cxa_atexit_appends [OF assms(1), of f a d]
    by (auto simp: appends_def cxa_atexit_def CXA_ATEXIT_MAX_def Let_def)
  moreover have "wf_cxa s' \<and> calls s' = calls s @ map (\<lambda>(f, a, d). (f, a)) due
      \<and> pending s' = [(f, a, d) \<leftarrow> pending s. h \<noteq> 0 \<and> d \<noteq> h]
          @ take (1024 - cxa_atexit_count s) (concat (map (\<lambda>(f, a, d). regs f a) due))"
    using reg.finalize_effect [OF assms(1), of regs h]
    unfolding s'_def due_def of_dso_def not_of_dso_def call_of_def CXA_ATEXIT_MAX_def .
  ultimately show ?thesis by blast
qed

lemma cxa_finalize_runs_once_witness:
  "calls (cxa_finalize (registering (\<lambda>_ _. [(3, 4, 7)])) 7 (snd (cxa_atexit 1 2 7 cxa_init))) = [(1, 2)]"
proof -
  let ?s = "snd (cxa_atexit 1 2 7 cxa_init)"
  have "pending ?s = [(1, 2, 7)]" "calls ?s = []"
    using cxa_atexit_pending(1) [OF wf_cxa_init, of 1 2 7]
    by (simp_all add: pending_def cxa_init_def cxa_atexit_def CXA_ATEXIT_MAX_def Let_def)
  then show ?thesis
    using cxa_finalize_runs_once [where regs = "\<lambda>_ _. [(3, 4, 7)]" and h = 7, OF cxa_atexit_wf [OF wf_cxa_init, of 1 2 7]] by simp
qed

text \<open>
  A destructor registered by a destructor during the walk is not run by it: one call of
  \<open>cxa_atexit_cleanup\<close>, which is all that runs at exit, leaves it registered.
\<close>

lemma cxa_late_registration_missed:
  "\<exists>regs s. let s' = cxa_atexit_cleanup (registering regs) s in
     wf_cxa s \<and> calls s' = [(1, 2)] \<and> cxa_atexit_count s' = 2 \<and> in_use (cxa_atexit_table s' ! 1)
     \<and> destructor_func (cxa_atexit_table s' ! 1) = 3"
proof -
  let ?regs = "\<lambda>f a :: u32. if f = (1 :: u32) then [(3, 4, 7)] else []"
  let ?s = "snd (cxa_atexit 1 2 7 cxa_init)"
  have "wf_cxa ?s" by (rule cxa_atexit_wf [OF wf_cxa_init])
  then show ?thesis
    by (intro exI [of _ ?regs] exI [of _ ?s])
       (simp add: cxa_atexit_cleanup_def cxa_finalize_def finalize_entry_def registering_def cxa_atexit_def
          cxa_init_def CXA_ATEXIT_MAX_def selected_def Let_def numeral_eq_Suc [of "Num.Bit0 Num.One"])
qed

end
