(* ===== verification/Clock.thy ===== *)
theory Clock
  imports Prelude "HOL-Library.Signed_Division"
begin

text \<open>
  Clocks and waiting: \<open>solcompat_clock_gettime\<close>, \<open>solcompat_clock_getres\<close>, \<open>clock_nanosleep\<close> and
  \<open>_solcompat_timespec_get\<close> of \<open>src/src/clock.c\<close>, \<open>ppoll\<close> and \<open>pselect\<close> of \<open>src/src/poll.c\<close>.

  \<open>time_t\<close>, \<open>long\<close> and \<open>int\<close> have 32 bits; where the code does arithmetic on a caller's value the
  result is wrapped by \<open>i32\<close>, as the target does. Division truncates towards zero (\<open>sdiv\<close>, \<open>smod\<close>).
  What the system calls answer is a parameter.
\<close>

section \<open>Reading a clock\<close>

record timespec =
  tv_sec :: int
  tv_nsec :: int

record timeval =
  sec :: int
  usec :: int

definition i32 :: "int \<Rightarrow> int" where
  "i32 n = (n + 2 ^ 31) mod 2 ^ 32 - 2 ^ 31"

text \<open>\<open>gettimeofday\<close>, \<open>gethrtime\<close> and the user and system times of \<open>getrusage\<close>; \<open>Inl\<close> is \<open>errno\<close>.\<close>

record clock_os =
  os_gettimeofday :: "errno + timeval"
  os_gethrtime :: int
  os_getrusage :: "errno + timeval \<times> timeval"

definition cpu_time :: "errno + timeval \<times> timeval \<Rightarrow> errno + timespec" where
  "cpu_time ru = (case ru of
     Inl e \<Rightarrow> Inl e
   | Inr (ut, st) \<Rightarrow>
       let s = i32 (sec ut + sec st); n = i32 ((usec ut + usec st) * 1000)
       in if n \<ge> 1000000000 then Inr \<lparr>tv_sec = i32 (s + 1), tv_nsec = n - 1000000000\<rparr>
          else Inr \<lparr>tv_sec = s, tv_nsec = n\<rparr>)"

definition clock_gettime :: "clock_os \<Rightarrow> int \<Rightarrow> errno + timespec" where
  "clock_gettime os clk_id =
     (if clk_id = 0 then
        (case os_gettimeofday os of
           Inl e \<Rightarrow> Inl e
         | Inr tv \<Rightarrow> Inr \<lparr>tv_sec = sec tv, tv_nsec = i32 (usec tv * 1000)\<rparr>)
      else if clk_id = 4 then
        Inr \<lparr>tv_sec = i32 (os_gethrtime os sdiv 1000000000), tv_nsec = i32 (os_gethrtime os smod 1000000000)\<rparr>
      else if clk_id = 5 then cpu_time (os_getrusage os)
      else if clk_id = 2 then cpu_time (os_getrusage os)
      else Inl EINVAL)"

text \<open>\<open>res\<close> may be null; the resolution is the value stored, if any.\<close>

definition clock_getres :: "int \<Rightarrow> timespec ptr \<Rightarrow> errno + timespec ptr" where
  "clock_getres clk_id res =
     (let store = (\<lambda>n. case res of NULL \<Rightarrow> NULL | Ptr _ \<Rightarrow> Ptr \<lparr>tv_sec = 0, tv_nsec = n\<rparr>)
      in if clk_id = 0 then Inr (store 1000)
         else if clk_id = 4 then Inr (store 1)
         else if clk_id = 5 \<or> clk_id = 2 then Inr (store 1000)
         else Inl EINVAL)"

definition timespec_get :: "clock_os \<Rightarrow> timespec \<Rightarrow> int \<Rightarrow> int \<times> timespec" where
  "timespec_get os ts base =
     (if base \<noteq> 1 then (0, ts)
      else case clock_gettime os 0 of Inl _ \<Rightarrow> (0, ts) | Inr ts' \<Rightarrow> (base, ts'))"

section \<open>\<open>clock_nanosleep\<close>\<close>

text \<open>The relative time to sleep; none when the absolute time has passed.\<close>

definition relative_time :: "timespec \<Rightarrow> timespec \<Rightarrow> timespec option" where
  "relative_time request now =
     (let s = i32 (tv_sec request - tv_sec now); n = i32 (tv_nsec request - tv_nsec now);
          (s, n) = (if n < 0 then (i32 (s - 1), i32 (n + 1000000000)) else (s, n))
      in if s < 0 then None else Some \<lparr>tv_sec = s, tv_nsec = n\<rparr>)"

definition select_time :: "timespec \<Rightarrow> timeval" where
  "select_time req =
     (let us = tv_nsec req sdiv 1000
      in \<lparr>sec = tv_sec req,
          usec = if tv_nsec req smod 1000 \<noteq> 0 \<and> us < 999999 then us + 1 else us\<rparr>)"

text \<open>The time left after an interrupted sleep; the arithmetic is 64 bits wide.\<close>

definition remain_time :: "timespec \<Rightarrow> timeval \<Rightarrow> timeval \<Rightarrow> timespec" where
  "remain_time req start stop =
     (let elapsed_us = i32 (sec stop - sec start) * 1000000 + (usec stop - usec start);
          requested_us = tv_sec req * 1000000 + tv_nsec req sdiv 1000;
          remain_us = requested_us - elapsed_us;
          remain_us = (if remain_us < 0 then 0 else remain_us)
      in \<lparr>tv_sec = i32 (remain_us sdiv 1000000), tv_nsec = i32 (remain_us smod 1000000 * 1000)\<rparr>)"

text \<open>
  What \<open>select\<close> answers for a time (none, or its \<open>errno\<close>) and the clock before and after it. The
  result is the return value, the time given to \<open>select\<close> if it was called, and \<open>*remain\<close>.
\<close>

record sleep_os =
  clock :: clock_os
  os_select :: "timeval \<Rightarrow> errno option"
  before :: timeval
  after :: timeval

definition sleep_for :: "sleep_os \<Rightarrow> timespec \<Rightarrow> timespec ptr \<Rightarrow> errno option \<times> timeval option \<times> timespec ptr" where
  "sleep_for os req remain =
     (let tv = select_time req
      in case os_select os tv of
           Some e \<Rightarrow>
             (Some e, Some tv,
              case remain of NULL \<Rightarrow> NULL
              | Ptr r \<Rightarrow> Ptr (if e = EINTR then remain_time req (before os) (after os) else r))
         | None \<Rightarrow>
             (None, Some tv, case remain of NULL \<Rightarrow> NULL | Ptr _ \<Rightarrow> Ptr \<lparr>tv_sec = 0, tv_nsec = 0\<rparr>))"

definition clock_nanosleep ::
    "sleep_os \<Rightarrow> int \<Rightarrow> bool \<Rightarrow> timespec \<Rightarrow> timespec ptr \<Rightarrow> errno option \<times> timeval option \<times> timespec ptr" where
  "clock_nanosleep os clk_id abstime request remain =
     (if abstime then
        (case clock_gettime (clock os) clk_id of
           Inl e \<Rightarrow> (Some e, None, remain)
         | Inr now \<Rightarrow>
             (case relative_time request now of
                None \<Rightarrow> (None, None, remain)
              | Some req \<Rightarrow> sleep_for os req remain))
      else sleep_for os request remain)"

section \<open>\<open>ppoll\<close> and \<open>pselect\<close>\<close>

definition timeout_ms :: "timespec ptr \<Rightarrow> int" where
  "timeout_ms tmo = (case tmo of
     NULL \<Rightarrow> -1
   | Ptr t \<Rightarrow> let ms = i32 (i32 (tv_sec t * 1000) + tv_nsec t sdiv 1000000) in if ms < 0 then 0 else ms)"

text \<open>
  The thread's signal mask is the state. \<open>poll\<close> and \<open>select\<close> run under a mask and return their
  result; \<open>m\<close> stands for the type of masks.
\<close>

definition with_mask :: "'m ptr \<Rightarrow> ('m \<Rightarrow> 'r) \<Rightarrow> 'm \<Rightarrow> 'r \<times> 'm" where
  "with_mask sigmask f cur = (case sigmask of
     NULL \<Rightarrow> (f cur, cur)
   | Ptr m \<Rightarrow> let origmask = cur; cur = m; ret = f cur in (ret, origmask))"

definition ppoll :: "(int \<Rightarrow> 'm \<Rightarrow> 'r) \<Rightarrow> timespec ptr \<Rightarrow> 'm ptr \<Rightarrow> 'm \<Rightarrow> 'r \<times> 'm" where
  "ppoll poll tmo_p sigmask cur = with_mask sigmask (poll (timeout_ms tmo_p)) cur"

definition pselect_time :: "timespec ptr \<Rightarrow> timeval ptr" where
  "pselect_time timeout = (case timeout of
     NULL \<Rightarrow> NULL | Ptr t \<Rightarrow> Ptr \<lparr>sec = tv_sec t, usec = tv_nsec t sdiv 1000\<rparr>)"

definition pselect :: "(timeval ptr \<Rightarrow> 'm \<Rightarrow> 'r) \<Rightarrow> timespec ptr \<Rightarrow> 'm ptr \<Rightarrow> 'm \<Rightarrow> 'r \<times> 'm" where
  "pselect select timeout sigmask cur = with_mask sigmask (select (pselect_time timeout)) cur"

section \<open>Arithmetic\<close>

definition wf_ts :: "timespec \<Rightarrow> bool" where
  "wf_ts t \<longleftrightarrow> - (2 ^ 31) \<le> tv_sec t \<and> tv_sec t < 2 ^ 31 \<and> 0 \<le> tv_nsec t \<and> tv_nsec t < 1000000000"

definition wf_tv :: "timeval \<Rightarrow> bool" where
  "wf_tv t \<longleftrightarrow> 0 \<le> sec t \<and> sec t < 2 ^ 31 \<and> 0 \<le> usec t \<and> usec t < 1000000"

definition ns :: "timespec \<Rightarrow> int" where
  "ns t = tv_sec t * 1000000000 + tv_nsec t"

definition tv_ns :: "timeval \<Rightarrow> int" where
  "tv_ns t = (sec t * 1000000 + usec t) * 1000"

lemma i32_id: "- (2 ^ 31) \<le> n \<Longrightarrow> n < 2 ^ 31 \<Longrightarrow> i32 n = n"
  by (simp add: i32_def)

lemma sdiv_pos: "0 \<le> a \<Longrightarrow> 0 < b \<Longrightarrow> a sdiv b = a div b" "0 \<le> a \<Longrightarrow> 0 < b \<Longrightarrow> a smod b = a mod (b :: int)"
  by (simp_all add: signed_divide_int_def signed_modulo_int_def sgn_if abs_if minus_mult_div_eq_mod)

lemma sdivs [simp]:
  "0 \<le> a \<Longrightarrow> a sdiv 1000 = a div 1000" "0 \<le> a \<Longrightarrow> a smod 1000 = a mod 1000"
  "0 \<le> a \<Longrightarrow> a sdiv 1000000 = a div 1000000" "0 \<le> a \<Longrightarrow> a smod 1000000 = a mod 1000000"
  "0 \<le> a \<Longrightarrow> a sdiv 1000000000 = a div 1000000000" "0 \<le> a \<Longrightarrow> a smod 1000000000 = a mod (1000000000 :: int)"
  by (simp_all add: sdiv_pos)

lemma clock_realtime:
  assumes "os_gettimeofday os = Inr tv" and "wf_tv tv"
  shows "clock_gettime os 0 = Inr \<lparr>tv_sec = sec tv, tv_nsec = usec tv * 1000\<rparr>"
  using assms by (simp add: clock_gettime_def wf_tv_def i32_id)

lemma split_ns:
  assumes "t = n + s * 1000000000" and "0 \<le> n" and "n < 1000000000"
  shows "t div 1000000000 = s" "t mod 1000000000 = n" "t < 0 \<longleftrightarrow> s < (0 :: int)"
  using assms by auto

text \<open>A difference of two times, as \<open>clock_nanosleep\<close> computes it.\<close>

lemma relative_time_eq:
  assumes "wf_ts r" and "wf_ts n" and "0 \<le> tv_sec r" and "0 \<le> tv_sec n"
  shows "relative_time r n = (if ns r < ns n then None
      else Some \<lparr>tv_sec = (ns r - ns n) div 1000000000, tv_nsec = (ns r - ns n) mod 1000000000\<rparr>)"
proof -
  let ?s = "tv_sec r - tv_sec n" and ?n = "tv_nsec r - tv_nsec n"
  have b: "- (2 ^ 31) < ?s" "?s < 2 ^ 31" "- 1000000000 < ?n" "?n < 1000000000"
    using assms by (auto simp: wf_ts_def)
  have d: "ns r - ns n = ?n + ?s * 1000000000" by (simp add: ns_def algebra_simps)
  have i: "i32 ?s = ?s" "i32 ?n = ?n" using b by (auto intro: i32_id)
  define c where "c = (if ?n < 0 then 1 else 0 :: int)"
  have c: "0 \<le> ?n + c * 1000000000" "?n + c * 1000000000 < 1000000000" using b by (auto simp: c_def)
  have "relative_time r n = (if ?s - c < 0 then None else Some \<lparr>tv_sec = ?s - c, tv_nsec = ?n + c * 1000000000\<rparr>)"
    using b i32_id [of "?s - 1"] i32_id [of "?n + 1000000000"] by (simp add: relative_time_def i c_def Let_def)
  moreover have "ns r - ns n = (?n + c * 1000000000) + (?s - c) * 1000000000" using d by (simp add: algebra_simps)
  note sp = split_ns [OF this c]
  moreover have "ns r < ns n \<longleftrightarrow> ?s - c < 0" using sp(3) by linarith
  ultimately show ?thesis by simp
qed

text \<open>The time given to \<open>select\<close>, in nanoseconds.\<close>

lemma select_time_ns:
  assumes "0 \<le> tv_nsec req"
  shows "tv_ns (select_time req) = ns req - tv_nsec req mod 1000
     + (if tv_nsec req mod 1000 \<noteq> 0 \<and> tv_nsec req div 1000 < 999999 then 1000 else 0)"
  using assms minus_mod_eq_div_mult [of "tv_nsec req" 1000]
  by (simp add: select_time_def tv_ns_def ns_def Let_def)

lemma remain_time_ns:
  assumes "0 \<le> tv_sec req" "tv_sec req < 2 ^ 31" "0 \<le> tv_nsec req" "tv_nsec req < 1000000000"
    and "wf_tv b" "wf_tv a" "tv_ns b \<le> tv_ns a"
  shows "ns (remain_time req b a) = max 0 (ns req div 1000 * 1000 - (tv_ns a - tv_ns b))"
proof -
  define el where "el = (sec a * 1000000 + usec a) - (sec b * 1000000 + usec b)"
  define rq where "rq = tv_sec req * 1000000 + tv_nsec req div 1000"
  define rm where "rm = max 0 (rq - el)"
  have el0: "0 \<le> el" using assms(7) by (simp add: tv_ns_def el_def)
  have e: "i32 (sec a - sec b) * 1000000 + (usec a - usec b) = el"
    using assms(5,6) by (subst i32_id) (auto simp: wf_tv_def el_def)
  have rq: "ns req div 1000 = rq" "rq < 2 ^ 31 * 1000000" "0 \<le> rq"
    using assms(1-4) by (auto simp: ns_def rq_def)
  have rm: "0 \<le> rm" "rm < 2 ^ 31 * 1000000" using rq el0 by (auto simp: rm_def)
  have "i32 (rm div 1000000) = rm div 1000000" using rm by (intro i32_id) auto
  moreover have "i32 (rm mod 1000000 * 1000) = rm mod 1000000 * 1000" using rm
    by (intro i32_id) (auto intro: order_trans [OF _ pos_mod_sign])
  moreover have "remain_time req b a = \<lparr>tv_sec = i32 (rm sdiv 1000000), tv_nsec = i32 (rm smod 1000000 * 1000)\<rparr>"
    using assms(3) by (simp add: remain_time_def e rq_def [symmetric] Let_def rm_def)
  ultimately have "ns (remain_time req b a) = rm * 1000"
    using rm by (simp add: ns_def) (use minus_mod_eq_div_mult [of rm 1000000] in linarith)
  moreover have "tv_ns a - tv_ns b = el * 1000" by (simp add: tv_ns_def el_def)
  ultimately show ?thesis using rq by (simp add: rm_def max_def)
qed

text \<open>Sleeping for a relative time.\<close>

lemma sleep_for_waits:
  assumes "0 \<le> tv_sec req" "tv_sec req < 2 ^ 31" "0 \<le> tv_nsec req" "tv_nsec req < 1000000000"
    and "wf_tv (before os)" "wf_tv (after os)" "tv_ns (before os) \<le> tv_ns (after os)"
    and "tv_nsec req div 1000 < 999999"
    and "sleep_for os req (Ptr r) = (res, slept, rem)"
  shows "\<exists>tv. slept = Some tv \<and> ns req \<le> tv_ns tv \<and> tv_ns tv < ns req + 1000 \<and> res = os_select os tv
    \<and> (res = Some EINTR \<longrightarrow> (\<exists>t. rem = Ptr t
          \<and> ns t = max 0 (ns req div 1000 * 1000 - (tv_ns (after os) - tv_ns (before os)))))"
proof -
  let ?tv = "select_time req"
  have "0 \<le> tv_nsec req mod 1000" "tv_nsec req mod 1000 < 1000" by auto
  then have "ns req \<le> tv_ns ?tv" "tv_ns ?tv < ns req + 1000"
    using select_time_ns [OF assms(3)] assms(8) by (auto split: if_splits)
  moreover have "slept = Some ?tv" "res = os_select os ?tv"
    using assms(9) by (auto simp: sleep_for_def Let_def split: option.splits)
  moreover have "rem = Ptr (remain_time req (before os) (after os))" if "res = Some EINTR"
    using assms(9) that by (auto simp: sleep_for_def Let_def split: option.splits)
  ultimately show ?thesis using remain_time_ns [OF assms(1-7)] by auto
qed

section \<open>Properties\<close>

text \<open>
  \<open>clock_nanosleep\<close> to an absolute time of the real-time clock returns at once when that time
  has passed; otherwise \<open>select\<close> is given at least the time left and less than a microsecond more,
  except when the time left has 999999 whole microseconds in its last second; after an interruption
  the reported remainder is the whole microseconds of the time left less the time elapsed, or zero.
\<close>

lemma clock_nanosleep_waits:
  assumes "wf_ts req" "0 \<le> tv_sec req" and "os_gettimeofday (clock os) = Inr now" "wf_tv now"
    and "wf_tv (before os)" "wf_tv (after os)" "tv_ns (before os) \<le> tv_ns (after os)"
    and "ns req - tv_ns now = d" and "d mod 1000000000 div 1000 \<noteq> 999999"
    and "clock_nanosleep os 0 True req (Ptr r) = (res, slept, rem)"
  shows "(d < 0 \<longrightarrow> res = None \<and> slept = None)
    \<and> (0 \<le> d \<longrightarrow> (\<exists>tv. slept = Some tv \<and> d \<le> tv_ns tv \<and> tv_ns tv < d + 1000 \<and> res = os_select os tv
        \<and> (res = Some EINTR \<longrightarrow> (\<exists>t. rem = Ptr t
             \<and> ns t = max 0 (d div 1000 * 1000 - (tv_ns (after os) - tv_ns (before os)))))))"
proof -
  let ?now = "\<lparr>tv_sec = sec now, tv_nsec = usec now * 1000\<rparr>"
  let ?rel = "\<lparr>tv_sec = d div 1000000000, tv_nsec = d mod 1000000000\<rparr>"
  have now: "wf_ts ?now" "ns ?now = tv_ns now" "0 \<le> tv_sec ?now"
    using assms(4) by (auto simp: wf_ts_def wf_tv_def ns_def tv_ns_def)
  have rel: "relative_time req ?now = (if d < 0 then None else Some ?rel)"
    using relative_time_eq [OF assms(1) now(1) assms(2) now(3)] assms(8) now(2) by auto
  have call: "(res, slept, rem) = (if d < 0 then (None, None, Ptr r) else sleep_for os ?rel (Ptr r))"
    using assms(10) clock_realtime [OF assms(3,4)] by (simp add: clock_nanosleep_def rel split: if_splits)
  have "d < 2 ^ 31 * 1000000000"
    using assms(1,4,8) by (auto simp: wf_ts_def wf_tv_def ns_def tv_ns_def)
  moreover have "d mod 1000000000 div 1000 < 1000000" by (simp add: div_less_iff_less_mult)
  ultimately show ?thesis
    using call assms(9) sleep_for_waits [OF _ _ _ _ assms(5-7), of ?rel r res slept rem]
    by (auto simp: ns_def)
qed

definition demo_os :: sleep_os where
  "demo_os = \<lparr>clock = \<lparr>os_gettimeofday = Inr \<lparr>sec = 10, usec = 5\<rparr>, os_gethrtime = 0,
                      os_getrusage = Inl EIO\<rparr>,
              os_select = (\<lambda>_. Some EINTR), before = \<lparr>sec = 10, usec = 5\<rparr>, after = \<lparr>sec = 10, usec = 7\<rparr>\<rparr>"

lemma clock_nanosleep_waits_witness:
  "\<exists>res tv rem. clock_nanosleep demo_os 0 True \<lparr>tv_sec = 11, tv_nsec = 1\<rparr> (Ptr \<lparr>tv_sec = 0, tv_nsec = 0\<rparr>)
     = (res, Some tv, rem) \<and> 999995001 \<le> tv_ns tv \<and> tv_ns tv < 999995001 + 1000
   \<and> (\<exists>t. rem = Ptr t \<and> ns t = max 0 (999995001 div 1000 * 1000 - (tv_ns (after demo_os) - tv_ns (before demo_os))))"
proof -
  obtain res slept rem where c: "clock_nanosleep demo_os 0 True \<lparr>tv_sec = 11, tv_nsec = 1\<rparr>
      (Ptr \<lparr>tv_sec = 0, tv_nsec = 0\<rparr>) = (res, slept, rem)" by (cases rule: prod_cases3)
  show ?thesis
    using clock_nanosleep_waits [OF _ _ _ _ _ _ _ refl _ c, of "\<lparr>sec = 10, usec = 5\<rparr>"] c
    by (auto simp: wf_ts_def wf_tv_def demo_os_def ns_def tv_ns_def)
qed

text \<open>
  The rounding of \<open>clock_nanosleep\<close> does not carry into the seconds: every request with 999999
  whole microseconds and a remainder of nanoseconds gives \<open>select\<close> less time than was asked for.
\<close>

lemma clock_nanosleep_undersleeps:
  assumes "999999000 < tv_nsec req" and "tv_nsec req < 1000000000"
  shows "\<exists>res tv rem. clock_nanosleep os clk False req r = (res, Some tv, rem) \<and> tv_ns tv < ns req"
proof -
  define k where "k = tv_nsec req - 999999000"
  have k: "0 < k" "k < 1000" "tv_nsec req = k + 999999 * 1000" using assms by (auto simp: k_def)
  have "tv_nsec req mod 1000 = k" using mod_mult_self1 [of k 999999 1000] k by simp
  moreover have "tv_nsec req div 1000 = 999999" using k by simp
  ultimately have m: "tv_nsec req div 1000 = 999999" "0 < tv_nsec req mod 1000" using k by simp_all
  have "tv_ns (select_time req) < ns req" using select_time_ns [of req] assms m by simp
  then show ?thesis
    by (cases "os_select os (select_time req)") (auto simp: clock_nanosleep_def sleep_for_def Let_def)
qed

lemma clock_nanosleep_undersleeps_witness:
  "\<exists>res tv rem. clock_nanosleep demo_os 0 False \<lparr>tv_sec = 0, tv_nsec = 999999500\<rparr> NULL = (res, Some tv, rem)
     \<and> tv_ns tv < ns \<lparr>tv_sec = 0, tv_nsec = 999999500\<rparr>"
  by (rule clock_nanosleep_undersleeps) simp_all

text \<open>Every clock the library knows gives normalised times.\<close>

lemma clock_gettime_normalised:
  assumes "clock_gettime os clk = Inr t" and "0 \<le> os_gethrtime os"
    and "\<And>tv. os_gettimeofday os = Inr tv \<Longrightarrow> wf_tv tv"
    and "\<And>u s. os_getrusage os = Inr (u, s) \<Longrightarrow> wf_tv u \<and> wf_tv s"
  shows "0 \<le> tv_nsec t \<and> tv_nsec t < 1000000000"
proof -
  have cpu: "0 \<le> tv_nsec t \<and> tv_nsec t < 1000000000" if c: "cpu_time (os_getrusage os) = Inr t"
  proof -
    obtain u s where r: "os_getrusage os = Inr (u, s)"
      using c by (cases "os_getrusage os") (auto simp: cpu_time_def)
    have "i32 ((usec u + usec s) * 1000) = (usec u + usec s) * 1000"
      using assms(4) [OF r] by (intro i32_id) (auto simp: wf_tv_def)
    then show ?thesis
      using c r assms(4) [OF r] by (auto simp: cpu_time_def Let_def wf_tv_def split: if_splits)
  qed
  consider "clk = 0" | "clk = 4" | "clk = 5 \<or> clk = 2" using assms(1) by (auto simp: clock_gettime_def split: if_splits)
  then show ?thesis
  proof cases
    case 1
    then obtain tv where "os_gettimeofday os = Inr tv" using assms(1)
      by (cases "os_gettimeofday os") (auto simp: clock_gettime_def)
    then show ?thesis using clock_realtime [of os tv] assms(1,3) 1 by (auto simp: wf_tv_def)
  next
    case 2
    have "i32 (os_gethrtime os mod 1000000000) = os_gethrtime os mod 1000000000"
      by (rule i32_id) (auto intro: order_trans [OF _ pos_mod_sign] less_trans [OF pos_mod_bound])
    then show ?thesis using 2 assms(1,2) by (auto simp: clock_gettime_def)
  next
    case 3
    then show ?thesis using cpu assms(1) by (auto simp: clock_gettime_def)
  qed
qed

text \<open>\<open>ppoll\<close> and \<open>pselect\<close> wait under the given mask and restore the caller's.\<close>

lemma ppoll_mask:
  "ppoll poll tmo NULL cur = (poll (timeout_ms tmo) cur, cur)"
  "ppoll poll tmo (Ptr m) cur = (poll (timeout_ms tmo) m, cur)"
  "pselect sel tmo (Ptr m) cur = (sel (pselect_time tmo) m, cur)"
  by (simp_all add: ppoll_def pselect_def with_mask_def Let_def)

lemma timeout_ms_exact:
  assumes "0 \<le> tv_sec t" "tv_sec t < 2147483" "0 \<le> tv_nsec t" "tv_nsec t < 1000000000"
  shows "timeout_ms (Ptr t) = ns t div 1000000"
proof -
  have q: "0 \<le> tv_nsec t div 1000000" "tv_nsec t div 1000000 < 1000" using assms by auto
  have "ns t div 1000000 = tv_sec t * 1000 + tv_nsec t div 1000000" by (simp add: ns_def)
  then show ?thesis using assms q by (simp add: timeout_ms_def i32_id Let_def)
qed

text \<open>The milliseconds are computed in 32 bits: seven weeks and a half become 0.704 seconds.\<close>

lemma timeout_ms_wraps: "timeout_ms (Ptr \<lparr>tv_sec = 4294968, tv_nsec = 0\<rparr>) = 704"
  by (simp add: timeout_ms_def i32_def signed_divide_int_def)

end
