(* ===== verification/Fenv.thy ===== *)
theory Fenv
  imports Prelude
begin

text \<open>
  The floating-point environment, \<open>src/src/fenv.c\<close>: the functions of \<open><fenv.h>\<close> on the SPARC
  floating-point status register, a 32-bit word that each function reads and writes.
\<close>

unbundle bit_operations_syntax

section \<open>The register\<close>

definition FE_INVALID :: u32 where "FE_INVALID = 0x10"
definition FE_OVERFLOW :: u32 where "FE_OVERFLOW = 0x08"
definition FE_UNDERFLOW :: u32 where "FE_UNDERFLOW = 0x04"
definition FE_DIVBYZERO :: u32 where "FE_DIVBYZERO = 0x02"
definition FE_INEXACT :: u32 where "FE_INEXACT = 0x01"

definition FE_ALL_EXCEPT :: u32 where
  "FE_ALL_EXCEPT = FE_INVALID OR FE_DIVBYZERO OR FE_OVERFLOW OR FE_UNDERFLOW OR FE_INEXACT"

definition FSR_AEXC :: "u32 \<Rightarrow> u32" where
  "FSR_AEXC fsr = (drop_bit 5 fsr AND 0x1F)"

definition FSR_CLEAR_AEXC :: "u32 \<Rightarrow> u32 \<Rightarrow> u32" where
  "FSR_CLEAR_AEXC fsr m = (fsr AND NOT (push_bit 5 (m AND 0x1F)))"

definition FSR_SET_AEXC :: "u32 \<Rightarrow> u32 \<Rightarrow> u32" where
  "FSR_SET_AEXC fsr m = (fsr OR push_bit 5 (m AND 0x1F))"

definition FSR_RD :: "u32 \<Rightarrow> u32" where
  "FSR_RD fsr = (drop_bit 30 fsr AND 0x3)"

definition FSR_SET_RD :: "u32 \<Rightarrow> u32 \<Rightarrow> u32" where
  "FSR_SET_RD fsr d = ((fsr AND NOT (push_bit 30 0x3)) OR push_bit 30 (d AND 0x3))"

section \<open>The operations\<close>

text \<open>Each takes the register and returns the result with the new register.\<close>

definition feclearexcept :: "u32 \<Rightarrow> u32 \<Rightarrow> int \<times> u32" where
  "feclearexcept ex fsr =
     (if ex AND NOT FE_ALL_EXCEPT \<noteq> 0 then (-1, fsr)
      else (0, FSR_CLEAR_AEXC fsr ex AND NOT (ex AND 0x1F)))"

definition feraiseexcept :: "u32 \<Rightarrow> u32 \<Rightarrow> int \<times> u32" where
  "feraiseexcept ex fsr =
     (if ex AND NOT FE_ALL_EXCEPT \<noteq> 0 then (-1, fsr) else (0, FSR_SET_AEXC fsr ex))"

definition fetestexcept :: "u32 \<Rightarrow> u32 \<Rightarrow> u32" where
  "fetestexcept ex fsr = (FSR_AEXC fsr AND ex)"

definition fegetexceptflag :: "u32 \<Rightarrow> u32 \<Rightarrow> u32" where
  "fegetexceptflag ex fsr = (FSR_AEXC fsr AND ex)"

definition fesetexceptflag :: "u32 \<Rightarrow> u32 \<Rightarrow> u32 \<Rightarrow> u32" where
  "fesetexceptflag flag ex fsr = FSR_SET_AEXC (FSR_CLEAR_AEXC fsr ex) (flag AND ex)"

definition fegetround :: "u32 \<Rightarrow> u32" where
  "fegetround fsr = FSR_RD fsr"

definition fesetround :: "int \<Rightarrow> u32 \<Rightarrow> int \<times> u32" where
  "fesetround d fsr = (if d < 0 \<or> d > 3 then (-1, fsr) else (0, FSR_SET_RD fsr (of_int d)))"

definition fegetenv :: "u32 \<Rightarrow> u32" where
  "fegetenv fsr = fsr"

text \<open>The argument is the saved environment, or the constant \<open>FE_DFL_ENV\<close>.\<close>

datatype envarg = FE_DFL_ENV | Env u32

definition fesetenv :: "envarg \<Rightarrow> u32 \<Rightarrow> u32" where
  "fesetenv e fsr = (case e of FE_DFL_ENV \<Rightarrow> 0 | Env v \<Rightarrow> v)"

text \<open>The environment stored for the caller and the new register.\<close>

definition feholdexcept :: "u32 \<Rightarrow> u32 \<times> u32" where
  "feholdexcept fsr =
     (fsr, ((FSR_CLEAR_AEXC fsr FE_ALL_EXCEPT) AND NOT 0x1F) AND NOT (push_bit 23 0x1F))"

definition feupdateenv :: "envarg \<Rightarrow> u32 \<Rightarrow> u32" where
  "feupdateenv e fsr =
     (let raised = FSR_AEXC fsr; fsr = fesetenv e fsr
      in if raised \<noteq> 0 then snd (feraiseexcept raised fsr) else fsr)"

section \<open>The abstract environment\<close>

text \<open>The accrued exceptions as a set of flag numbers, and the rounding direction.\<close>

definition flags :: "u32 \<Rightarrow> nat set" where
  "flags fsr = {i. i < 5 \<and> bit fsr (i + 5)}"

definition bits :: "u32 \<Rightarrow> nat set" where
  "bits ex = {i. bit ex i}"

definition round_of :: "u32 \<Rightarrow> nat" where
  "round_of fsr = unat (drop_bit 30 fsr)"

lemma mask5: "(0x1F :: u32) = Bit_Operations.mask 5" "(0x3 :: u32) = Bit_Operations.mask 2"
  by (simp_all add: mask_eq_exp_minus_1)

lemma FE_ALL_EXCEPT_mask: "FE_ALL_EXCEPT = Bit_Operations.mask 5"
  by (simp add: FE_ALL_EXCEPT_def FE_INVALID_def FE_OVERFLOW_def FE_UNDERFLOW_def FE_DIVBYZERO_def
      FE_INEXACT_def mask_eq_exp_minus_1)

lemmas fenv_bits = flags_def bits_def FSR_AEXC_def FSR_CLEAR_AEXC_def FSR_SET_AEXC_def mask5
  FE_ALL_EXCEPT_mask bit_simps

text \<open>A request is accepted exactly when it names exceptions only.\<close>

lemma supported_iff: "ex AND NOT FE_ALL_EXCEPT = 0 \<longleftrightarrow> bits ex \<subseteq> {..<5}"
proof -
  have "ex AND NOT FE_ALL_EXCEPT = 0 \<longleftrightarrow> (\<forall>i. \<not> bit (ex AND NOT FE_ALL_EXCEPT) i)"
    by (metis bit_0_eq bit_eqI bot_apply bot_bool_def)
  moreover have "i < 32" if "bit ex i" for i using bit_imp_le_length [OF that] by simp
  ultimately show ?thesis
    by (auto simp: bits_def bit_simps FE_ALL_EXCEPT_mask)
qed

lemma flags_clear: "flags (FSR_CLEAR_AEXC fsr m) = flags fsr - bits m"
  by (auto simp: fenv_bits)

lemma flags_set: "flags (FSR_SET_AEXC fsr m) = flags fsr \<union> (bits m \<inter> {..<5})"
  by (auto simp: fenv_bits)

lemma bits_aexc: "bits (FSR_AEXC fsr) = flags fsr"
  by (auto simp: fenv_bits add.commute)

lemma flags_low: "flags (fsr AND NOT (m AND 0x1F)) = flags fsr"
  by (auto simp: fenv_bits)

lemma bits_eq_empty: "bits w = {} \<longleftrightarrow> w = 0"
  by (metis bit_0_eq bit_eqI bits_def bot_apply bot_bool_def empty_Collect_eq)

text \<open>The rounding direction is above the flags.\<close>

lemma drop_30_eqI: "bit a 30 = bit b 30 \<Longrightarrow> bit a 31 = bit b 31 \<Longrightarrow> drop_bit 30 (a :: u32) = drop_bit 30 b"
proof (rule bit_word_eqI)
  fix n assume ab: "bit a 30 = bit b 30" "bit a 31 = bit b 31" and "n < LENGTH(32)"
  consider "n = 0" | "n = 1" | "\<not> 30 + n < 32" by linarith
  then show "bit (drop_bit 30 a) n = bit (drop_bit 30 b) n"
  proof cases
    case 3
    then have "\<not> bit a (30 + n)" "\<not> bit b (30 + n)"
      using bit_imp_le_length [of a "30 + n"] bit_imp_le_length [of b "30 + n"] by auto
    then show ?thesis by (simp add: bit_drop_bit_eq)
  qed (use ab in \<open>simp_all add: bit_drop_bit_eq\<close>)
qed

lemma round_eqI: "bit a 30 = bit b 30 \<Longrightarrow> bit a 31 = bit b 31 \<Longrightarrow> round_of a = round_of b"
  unfolding round_of_def by (rule arg_cong [OF drop_30_eqI])

lemma round_same:
  "round_of (FSR_CLEAR_AEXC fsr m) = round_of fsr" "round_of (FSR_SET_AEXC fsr m) = round_of fsr"
  "round_of (fsr AND NOT (m AND 0x1F)) = round_of fsr"
  by (rule round_eqI, simp_all add: fenv_bits)+

lemma feclearexcept_eq:
  "feclearexcept ex r = (if bits ex \<subseteq> {..<5} then (0, FSR_CLEAR_AEXC r ex AND NOT (ex AND 0x1F)) else (-1, r))"
  unfolding feclearexcept_def supported_iff [symmetric] by auto

lemma feraiseexcept_eq:
  "feraiseexcept ex r = (if bits ex \<subseteq> {..<5} then (0, FSR_SET_AEXC r ex) else (-1, r))"
  by (simp add: feraiseexcept_def supported_iff)

section \<open>The contract of exception flags\<close>

text \<open>
  What C99 promises of raising, clearing and testing, for an environment whose raised exceptions are
  a set of flag numbers.
\<close>

locale exception_flags =
  fixes raise clear :: "u32 \<Rightarrow> 's \<Rightarrow> int \<times> 's" and test :: "u32 \<Rightarrow> 's \<Rightarrow> u32"
    and raised :: "'s \<Rightarrow> nat set"
  assumes raise_spec: "bits ex \<subseteq> {..<5} \<Longrightarrow> fst (raise ex s) = 0 \<and> raised (snd (raise ex s)) = raised s \<union> bits ex"
    and clear_spec: "bits ex \<subseteq> {..<5} \<Longrightarrow> fst (clear ex s) = 0 \<and> raised (snd (clear ex s)) = raised s - bits ex"
    and test_spec: "bits (test ex s) = raised s \<inter> bits ex"
begin

lemma test_raised: "bits ex \<subseteq> {..<5} \<Longrightarrow> bits (test ex (snd (raise ex s))) = bits ex"
  by (auto simp: test_spec raise_spec)

lemma test_cleared: "bits ex \<subseteq> {..<5} \<Longrightarrow> test ex (snd (clear ex s)) = 0"
  by (simp add: bits_eq_empty [symmetric] test_spec clear_spec Diff_Int_distrib2)

end

interpretation fsr: exception_flags feraiseexcept feclearexcept fetestexcept flags
proof
  fix ex s :: u32
  assume ok: "bits ex \<subseteq> {..<5}"
  then show "fst (feraiseexcept ex s) = 0 \<and> flags (snd (feraiseexcept ex s)) = flags s \<union> bits ex"
    by (auto simp: feraiseexcept_eq flags_set)
  show "fst (feclearexcept ex s) = 0 \<and> flags (snd (feclearexcept ex s)) = flags s - bits ex"
    unfolding feclearexcept_eq if_P [OF ok] fst_conv snd_conv flags_low flags_clear by simp
next
  fix ex s :: u32
  show "bits (fetestexcept ex s) = flags s \<inter> bits ex"
    using bits_aexc [of s] by (auto simp: fetestexcept_def bits_def bit_simps)
qed

section \<open>Properties\<close>

text \<open>
  C33. The flag functions implement sets of exceptions: for a valid request raising adds exactly the
  named flags, clearing removes exactly them, testing returns the named ones that are raised, and
  none of them touches the rounding direction; any other request is refused and changes nothing.
\<close>

theorem fenv_flags_refine:
  "(bits ex \<subseteq> {..<5} \<longrightarrow>
     fst (feraiseexcept ex r) = 0 \<and> flags (snd (feraiseexcept ex r)) = flags r \<union> bits ex
     \<and> fst (feclearexcept ex r) = 0 \<and> flags (snd (feclearexcept ex r)) = flags r - bits ex
     \<and> fetestexcept ex (snd (feclearexcept ex r)) = 0
     \<and> bits (fetestexcept ex (snd (feraiseexcept ex r))) = bits ex)
   \<and> (\<not> bits ex \<subseteq> {..<5} \<longrightarrow> feraiseexcept ex r = (-1, r) \<and> feclearexcept ex r = (-1, r))
   \<and> round_of (snd (feraiseexcept ex r)) = round_of r \<and> round_of (snd (feclearexcept ex r)) = round_of r"
proof (intro conjI impI)
  assume ok: "bits ex \<subseteq> {..<5}"
  show "fst (feraiseexcept ex r) = 0" "flags (snd (feraiseexcept ex r)) = flags r \<union> bits ex"
    "fst (feclearexcept ex r) = 0" "flags (snd (feclearexcept ex r)) = flags r - bits ex"
    using fsr.raise_spec [OF ok] fsr.clear_spec [OF ok] by blast+
  show "fetestexcept ex (snd (feclearexcept ex r)) = 0" by (rule fsr.test_cleared [OF ok])
  show "bits (fetestexcept ex (snd (feraiseexcept ex r))) = bits ex" by (rule fsr.test_raised [OF ok])
next
  assume no: "\<not> bits ex \<subseteq> {..<5}"
  show "feraiseexcept ex r = (-1, r)" "feclearexcept ex r = (-1, r)"
    unfolding feraiseexcept_eq feclearexcept_eq if_not_P [OF no] by (rule refl)+
next
  show "round_of (snd (feraiseexcept ex r)) = round_of r" by (simp add: feraiseexcept_eq round_same)
  have "round_of (FSR_CLEAR_AEXC r ex AND NOT (ex AND 0x1F)) = round_of r"
    unfolding round_same by (rule refl)
  then show "round_of (snd (feclearexcept ex r)) = round_of r"
    unfolding feclearexcept_eq by (cases "bits ex \<subseteq> {..<5}") (simp_all only: if_True if_False snd_conv)
qed

lemma fenv_flags_refine_witness:
  "bits 0x11 \<subseteq> {..<5} \<and> flags (snd (feraiseexcept 0x11 0)) = flags 0 \<union> bits 0x11"
proof -
  have "bits 0x11 \<subseteq> {..<5}"
    by (subst supported_iff [symmetric]) (simp add: FE_ALL_EXCEPT_mask mask_eq_exp_minus_1)
  then show ?thesis using fenv_flags_refine [of "0x11" 0] by simp
qed

text \<open>
  \<open>feholdexcept\<close> clears every flag and trap enable and keeps the rounding direction; the matching
  \<open>feupdateenv\<close> restores the saved environment with the flags raised in between added to the saved
  ones, whatever register contents it finds.
\<close>

lemma feholdexcept_feupdateenv:
  "flags (snd (feholdexcept r)) = {} \<and> round_of (snd (feholdexcept r)) = round_of r
   \<and> take_bit 5 (drop_bit 23 (snd (feholdexcept r))) = 0
   \<and> flags (feupdateenv (Env (fst (feholdexcept r))) r') = flags r \<union> flags r'
   \<and> round_of (feupdateenv (Env (fst (feholdexcept r))) r') = round_of r"
proof (intro conjI)
  let ?h = "feholdexcept r"
  show "flags (snd ?h) = {}" by (auto simp: feholdexcept_def fenv_bits)
  show "round_of (snd ?h) = round_of r" by (rule round_eqI) (simp_all add: feholdexcept_def fenv_bits)
  show "take_bit 5 (drop_bit 23 (snd ?h)) = 0"
    by (rule bit_word_eqI) (auto simp: feholdexcept_def fenv_bits)
  have ok: "bits (FSR_AEXC r') \<subseteq> {..<5}" by (auto simp: bits_aexc flags_def)
  have none: "flags r' = {}" if "FSR_AEXC r' = 0"
    using that bits_aexc [of r'] bits_eq_empty [of "FSR_AEXC r'"] by simp
  show "flags (feupdateenv (Env (fst ?h)) r') = flags r \<union> flags r'"
    using fsr.raise_spec [OF ok, of r] none
    by (auto simp: feupdateenv_def fesetenv_def feholdexcept_def bits_aexc Let_def)
  show "round_of (feupdateenv (Env (fst ?h)) r') = round_of r"
    by (simp add: feupdateenv_def fesetenv_def feholdexcept_def feraiseexcept_def round_same Let_def)
qed

text \<open>Setting and reading back the rounding direction and saved flags.\<close>

lemma fegetround_fesetround:
  assumes "0 \<le> d" "d \<le> 3"
  shows "fst (fesetround d r) = 0" "fegetround (snd (fesetround d r)) = of_int d"
    "flags (snd (fesetround d r)) = flags r"
proof -
  have "FSR_RD (FSR_SET_RD r e) = (e AND 3)" for e
    by (rule bit_word_eqI) (auto simp: FSR_RD_def FSR_SET_RD_def mask5 bit_simps)
  moreover have "(of_int d :: u32) AND 3 = of_int d"
  proof -
    have "d = 0 \<or> d = 1 \<or> d = 2 \<or> d = 3" using assms by linarith
    then show ?thesis by auto
  qed
  ultimately show "fst (fesetround d r) = 0" "fegetround (snd (fesetround d r)) = of_int d"
    using assms by (simp_all add: fesetround_def fegetround_def)
  show "flags (snd (fesetround d r)) = flags r"
    by (auto simp: fesetround_def FSR_SET_RD_def flags_def mask5 bit_simps)
qed

lemma fesetexceptflag_fegetexceptflag:
  "flags (fesetexceptflag (fegetexceptflag ex r) ex r') = (flags r' - bits ex) \<union> (flags r \<inter> bits ex)"
proof -
  have "bits (fegetexceptflag ex r AND ex) = flags r \<inter> bits ex"
    unfolding bits_aexc [symmetric] by (auto simp: fegetexceptflag_def bits_def bit_simps)
  moreover have "flags r \<subseteq> {..<5}" by (auto simp: flags_def)
  ultimately show ?thesis by (auto simp: fesetexceptflag_def flags_set flags_clear)
qed

end
