(* ===== verification/Memstream.thy ===== *)
theory Memstream
  imports Prelude
begin

text \<open>
  Memory streams, \<open>src/src/memstream.c\<close>: \<open>fmemopen\<close>, \<open>open_memstream\<close> and the interposed
  \<open>fclose\<close> and \<open>fflush\<close>.

  Standard I/O is modelled as far as the file uses it: an open stream has its contents and a
  position, which is what \<open>ftell\<close> reports, except that for a stream on the null device with a
  redirected buffer the answer of \<open>ftell\<close> is a parameter. Caller and heap objects, the caller's \<open>char *\<close> and \<open>size_t\<close> variables and the registry
  are parts of one state; a pointer is a number, 0 is null. The answers of \<open>open\<close>, \<open>tmpfile\<close> and
  \<open>malloc\<close> are parameters of the operation that calls them. The registry mutex makes each
  registry operation one step and is not represented.
\<close>

section \<open>Streams and memory\<close>

type_synonym addr = nat

record stream =
  contents :: string
  pos :: nat
  dev_tell :: "int option"

definition ftell :: "stream \<Rightarrow> int" where
  "ftell f = (case dev_tell f of None \<Rightarrow> int (pos f) | Some t \<Rightarrow> t)"

record entry =
  fp :: nat
  ptr_cell :: addr
  sizeloc :: addr
  fixed_buf :: addr
  fixed_size :: nat

record mstate =
  streams :: "nat \<rightharpoonup> stream"
  objs :: "addr \<rightharpoonup> string"
  ptrs :: "addr \<Rightarrow> addr"
  sizes :: "addr \<Rightarrow> nat"
  memstream_list :: "entry list"
  bufendtab :: "nat \<Rightarrow> addr"
  fds :: "nat \<Rightarrow> nat"

text \<open>Writing at the position, as \<open>fwrite\<close>, \<open>fputs\<close> and \<open>fprintf\<close> do.\<close>

definition write_at :: "string \<Rightarrow> stream \<Rightarrow> stream" where
  "write_at bs f = f\<lparr>contents := take (pos f) (contents f) @ bs @ drop (pos f + length bs) (contents f),
                     pos := pos f + length bs\<rparr>"

definition fwrite :: "nat \<Rightarrow> string \<Rightarrow> mstate \<Rightarrow> mstate" where
  "fwrite f bs s = s\<lparr>streams := (streams s)(f := map_option (write_at bs) (streams s f))\<rparr>"

definition real_fclose :: "nat \<Rightarrow> mstate \<Rightarrow> mstate" where
  "real_fclose f s = s\<lparr>streams := (streams s)(f := None)\<rparr>"

section \<open>The registry\<close>

fun memstream_remove :: "nat \<Rightarrow> entry list \<Rightarrow> entry option \<times> entry list" where
  "memstream_remove f [] = (None, [])"
| "memstream_remove f (e # es) =
     (if fp e = f then (Some e, es) else let (r, es') = memstream_remove f es in (r, e # es'))"

fun memstream_find :: "nat \<Rightarrow> entry list \<Rightarrow> entry option" where
  "memstream_find f [] = None"
| "memstream_find f (e # es) = (if fp e = f then Some e else memstream_find f es)"

definition make_entry :: "bool \<Rightarrow> nat \<Rightarrow> addr \<Rightarrow> addr \<Rightarrow> addr \<Rightarrow> nat \<Rightarrow> mstate \<Rightarrow> bool \<times> mstate" where
  "make_entry malloc_ok f ptr szl buf n s =
     (if \<not> malloc_ok then (False, s)
      else (True, s\<lparr>memstream_list :=
        \<lparr>fp = f, ptr_cell = ptr, sizeloc = szl, fixed_buf = buf, fixed_size = n\<rparr> # memstream_list s\<rparr>))"

text \<open>
  \<open>memstream_sync\<close>: the number of bytes is what \<open>ftell\<close> reports; the stream is read from its start
  and left at that position. \<open>mem\<close> is what \<open>malloc\<close> returns. \<open>None\<close> is an access outside an object
  or through a null pointer.
\<close>

definition sync_fixed :: "nat \<Rightarrow> entry \<Rightarrow> stream \<Rightarrow> mstate \<Rightarrow> mstate option" where
  "sync_fixed byte_count e f s =
     (let copy_bytes = min byte_count (fixed_size e); data = take copy_bytes (contents f)
      in case objs s (fixed_buf e) of
           None \<Rightarrow> None
         | Some b \<Rightarrow>
             (case memcpy b 0 data 0 (length data) of
                None \<Rightarrow> None
              | Some b \<Rightarrow>
                  map_option (\<lambda>b. s\<lparr>objs := (objs s)(fixed_buf e \<mapsto> b)\<rparr>)
                    (if copy_bytes < fixed_size e then wr b copy_bytes NUL else Some b)))"

definition sync_dynamic :: "addr \<Rightarrow> nat \<Rightarrow> entry \<Rightarrow> stream \<Rightarrow> mstate \<Rightarrow> mstate option" where
  "sync_dynamic mem byte_count e f s =
     (if mem = 0 then Some s
      else if ptr_cell e = 0 then None
      else let new_buf = take byte_count (contents f) @ [NUL]
           in Some (s\<lparr>objs := ((objs s)(ptrs s (ptr_cell e) := None))(mem \<mapsto> new_buf),
                      ptrs := (ptrs s)(ptr_cell e := mem),
                      sizes := (sizes s)(sizeloc e := byte_count)\<rparr>))"

definition memstream_sync :: "addr \<Rightarrow> nat \<Rightarrow> entry \<Rightarrow> mstate \<Rightarrow> mstate option" where
  "memstream_sync mem f e s =
     (case streams s f of
        None \<Rightarrow> None
      | Some st \<Rightarrow>
          if ftell st < 0 then Some s
          else if fixed_buf e \<noteq> 0 then sync_fixed (nat (ftell st)) e st s
          else sync_dynamic mem (nat (ftell st)) e st s)"

section \<open>The operations\<close>

definition NFILE :: nat where
  "NFILE = 20"

text \<open>
  \<open>fmemopen\<close>: \<open>dev\<close> is what \<open>open("/dev/null")\<close> and \<open>fdopen\<close> give (a descriptor, a stream and what
  \<open>ftell\<close> says of it), \<open>tmp\<close> what \<open>tmpfile\<close> gives. The result is the stream or the error; an error of a system call keeps
  its own \<open>errno\<close> and is \<open>Inl None\<close>.
\<close>

definition fmemopen ::
    "(nat \<times> nat \<times> int) option \<Rightarrow> nat option \<Rightarrow> bool \<Rightarrow> addr \<Rightarrow> nat \<Rightarrow> string ptr \<Rightarrow> mstate
     \<Rightarrow> ((errno option + nat) \<times> mstate) option" where
  "fmemopen dev tmp malloc_ok buf n mode s =
     (case mode of
        NULL \<Rightarrow> Some (Inl (Some EINVAL), s)
      | Ptr m \<Rightarrow>
          if buf = 0 \<or> n = 0 then Some (Inl (Some EINVAL), s)
          else if cat m 0 = Some CHR ''r'' then
            (case dev of
               None \<Rightarrow> Some (Inl None, s)
             | Some (fd, f, tell) \<Rightarrow>
                 (case objs s buf of
                    None \<Rightarrow> None
                  | Some b \<Rightarrow>
                      let s = s\<lparr>streams := (streams s)(f \<mapsto> \<lparr>contents = take n b, pos = 0, dev_tell = Some tell\<rparr>),
                                fds := (fds s)(f := fd)\<rparr>;
                          s = (if fd < NFILE then s\<lparr>bufendtab := (bufendtab s)(fd := buf + n)\<rparr> else s);
                          (ok, s) = make_entry malloc_ok f 0 0 0 0 s
                      in if ok then Some (Inr f, s) else Some (Inl None, real_fclose f s)))
          else if cat m 0 = Some CHR ''w'' \<or> cat m 0 = Some CHR ''a'' then
            (case tmp of
               None \<Rightarrow> Some (Inl None, s)
             | Some f \<Rightarrow>
                 let s = s\<lparr>streams := (streams s)(f \<mapsto> \<lparr>contents = [], pos = 0, dev_tell = None\<rparr>)\<rparr>;
                     (ok, s) = make_entry malloc_ok f 0 0 buf n s
                 in if \<not> ok then Some (Inl None, real_fclose f s)
                    else if cat m 0 = Some CHR ''w'' then
                      (case objs s buf of
                         None \<Rightarrow> None
                       | Some b \<Rightarrow> map_option (\<lambda>b. (Inr f, s\<lparr>objs := (objs s)(buf \<mapsto> b)\<rparr>)) (memset b 0 NUL n))
                    else Some (Inr f, s))
          else Some (Inl (Some EINVAL), s))"

definition open_memstream ::
    "nat option \<Rightarrow> bool \<Rightarrow> addr \<Rightarrow> addr \<Rightarrow> mstate \<Rightarrow> (errno option + nat) \<times> mstate" where
  "open_memstream tmp malloc_ok ptr szl s =
     (if ptr = 0 \<or> szl = 0 then (Inl (Some EINVAL), s)
      else case tmp of
             None \<Rightarrow> (Inl None, s)
           | Some f \<Rightarrow>
               let s = s\<lparr>streams := (streams s)(f \<mapsto> \<lparr>contents = [], pos = 0, dev_tell = None\<rparr>)\<rparr>;
                   s = s\<lparr>ptrs := (ptrs s)(ptr := 0), sizes := (sizes s)(szl := 0)\<rparr>;
                   (ok, s) = make_entry malloc_ok f ptr szl 0 0 s
               in if ok then (Inr f, s) else (Inl None, real_fclose f s))"

definition fclose :: "addr \<Rightarrow> nat \<Rightarrow> mstate \<Rightarrow> mstate option" where
  "fclose mem f s =
     (case memstream_remove f (memstream_list s) of
        (None, _) \<Rightarrow> Some (real_fclose f s)
      | (Some e, es) \<Rightarrow>
          let s = s\<lparr>memstream_list := es\<rparr>
          in map_option (real_fclose f)
               (if fixed_buf e = 0 \<and> ptr_cell e = 0 then
                  Some (if fds s f < NFILE then s\<lparr>bufendtab := (bufendtab s)(fds s f := 0)\<rparr> else s)
                else memstream_sync mem f e s))"

text \<open>The argument is null for a flush of every stream.\<close>

definition fflush :: "addr \<Rightarrow> nat ptr \<Rightarrow> mstate \<Rightarrow> mstate option" where
  "fflush mem fptr s = (case fptr of
     NULL \<Rightarrow> Some s
   | Ptr f \<Rightarrow> (case memstream_find f (memstream_list s) of
       None \<Rightarrow> Some s
     | Some e \<Rightarrow> memstream_sync mem f e s))"

section \<open>Sequences of operations\<close>

text \<open>What a program does with an open stream: write, or flush with what \<open>malloc\<close> then returns.\<close>

datatype action = Write string | Flush addr

fun act :: "nat \<Rightarrow> action \<Rightarrow> mstate \<Rightarrow> mstate option" where
  "act f (Write bs) s = Some (fwrite f bs s)"
| "act f (Flush mem) s = fflush mem (Ptr f) s"

fun acts :: "nat \<Rightarrow> action list \<Rightarrow> mstate \<Rightarrow> mstate option" where
  "acts f [] s = Some s"
| "acts f (a # as) s = (case act f a s of None \<Rightarrow> None | Some s \<Rightarrow> acts f as s)"

fun written :: "action list \<Rightarrow> string" where
  "written [] = []"
| "written (Write bs # as) = bs @ written as"
| "written (Flush _ # as) = written as"

text \<open>The allocator gives an address that is not null and not in use.\<close>

definition fresh :: "mstate \<Rightarrow> addr \<Rightarrow> bool" where
  "fresh s a \<longleftrightarrow> a \<noteq> 0 \<and> objs s a = None"

fun fresh_acts :: "nat \<Rightarrow> action list \<Rightarrow> mstate \<Rightarrow> bool" where
  "fresh_acts f [] s = True"
| "fresh_acts f (Write bs # as) s = fresh_acts f as (fwrite f bs s)"
| "fresh_acts f (Flush mem # as) s =
     (fresh s mem \<and> (case fflush mem (Ptr f) s of None \<Rightarrow> True | Some s \<Rightarrow> fresh_acts f as s))"

lemma write_at_end:
  "write_at bs \<lparr>contents = t, pos = length t, dev_tell = None\<rparr>
     = \<lparr>contents = t @ bs, pos = length (t @ bs), dev_tell = None\<rparr>"
  by (simp add: write_at_def)

text \<open>
  A dynamic stream that has the text \<open>t\<close>, was opened in \<open>s0\<close>, and whose caller's pointer is null or
  owns the only object allocated since.
\<close>

definition dynamic_open :: "mstate \<Rightarrow> nat \<Rightarrow> addr \<Rightarrow> addr \<Rightarrow> string \<Rightarrow> mstate \<Rightarrow> bool" where
  "dynamic_open s0 f ptr szl t s \<longleftrightarrow>
     streams s = (streams s0)(f \<mapsto> \<lparr>contents = t, pos = length t, dev_tell = None\<rparr>)
     \<and> memstream_list s = \<lparr>fp = f, ptr_cell = ptr, sizeloc = szl, fixed_buf = 0, fixed_size = 0\<rparr> # memstream_list s0
     \<and> ptr \<noteq> 0 \<and> objs s0 (ptrs s ptr) = None \<and> (objs s)(ptrs s ptr := None) = objs s0"

lemma dynamic_write:
  "dynamic_open s0 f ptr szl t s \<Longrightarrow> dynamic_open s0 f ptr szl (t @ bs) (fwrite f bs s)"
  by (simp add: dynamic_open_def fwrite_def write_at_end)

lemma dynamic_sync:
  assumes "dynamic_open s0 f ptr szl t s" and "fresh s mem"
    and "e = \<lparr>fp = f, ptr_cell = ptr, sizeloc = szl, fixed_buf = 0, fixed_size = 0\<rparr>"
  obtains s' where "memstream_sync mem f e s = Some s'"
    "streams s' = streams s" "memstream_list s' = memstream_list s"
    "objs s' = (objs s0)(mem \<mapsto> t @ [NUL])" "ptrs s' ptr = mem" "sizes s' szl = length t"
    "objs s0 mem = None"
proof -
  let ?s' = "s\<lparr>objs := ((objs s)(ptrs s ptr := None))(mem \<mapsto> t @ [NUL]), ptrs := (ptrs s)(ptr := mem),
      sizes := (sizes s)(szl := length t)\<rparr>"
  have o: "(objs s)(ptrs s ptr := None) = objs s0" "ptr \<noteq> 0" using assms(1) by (auto simp: dynamic_open_def)
  have "memstream_sync mem f e s = Some ?s'"
    using assms by (simp add: memstream_sync_def dynamic_open_def ftell_def sync_dynamic_def fresh_def Let_def)
  moreover have "objs s0 mem = None" using assms(2) o(1) unfolding fresh_def by (metis fun_upd_apply)
  ultimately show ?thesis using o by (intro that [of ?s']) simp_all
qed

lemma dynamic_flush:
  assumes "dynamic_open s0 f ptr szl t s" and "fresh s mem"
  shows "\<exists>s'. fflush mem (Ptr f) s = Some s' \<and> dynamic_open s0 f ptr szl t s'"
proof -
  obtain s' where s': "memstream_sync mem f \<lparr>fp = f, ptr_cell = ptr, sizeloc = szl, fixed_buf = 0, fixed_size = 0\<rparr> s
      = Some s'" "streams s' = streams s" "memstream_list s' = memstream_list s"
    "objs s' = (objs s0)(mem \<mapsto> t @ [NUL])" "ptrs s' ptr = mem" "objs s0 mem = None"
    by (rule dynamic_sync [OF assms refl])
  have "dynamic_open s0 f ptr szl t s'" using assms(1) s' by (auto simp: dynamic_open_def fun_eq_iff)
  moreover have "fflush mem (Ptr f) s = Some s'" using assms(1) s'(1) by (simp add: fflush_def dynamic_open_def)
  ultimately show ?thesis by blast
qed

lemma dynamic_acts:
  "dynamic_open s0 f ptr szl t s \<Longrightarrow> fresh_acts f as s \<Longrightarrow>
   \<exists>s'. acts f as s = Some s' \<and> dynamic_open s0 f ptr szl (t @ written as) s'"
proof (induction f as s arbitrary: t rule: fresh_acts.induct)
  case (2 f bs as s)
  then show ?case using "2.IH" [OF dynamic_write [of s0 f ptr szl t s bs]] by simp
next
  case (3 f mem as s)
  with dynamic_flush [of s0 f ptr szl t s mem] obtain s' where
    "fflush mem (Ptr f) s = Some s'" "dynamic_open s0 f ptr szl t s'" by auto
  then show ?case using 3 by simp
qed simp

section \<open>Properties\<close>

text \<open>
  C24. \<open>open_memstream\<close>: after any sequence of writes and flushes, \<open>fclose\<close> leaves the caller's pointer
  at a terminated copy of exactly what was written and its size; the stream is closed, its registry
  entry is gone, and no buffer of an earlier flush is left: of all objects only that copy is new.
\<close>

theorem open_memstream_round_trip:
  assumes "ptr \<noteq> 0" "szl \<noteq> 0" and "objs s 0 = None" and "streams s f = None"
    and "open_memstream (Some f) True ptr szl s = (r, s1)"
    and "fresh_acts f as s1" and "acts f as s1 = Some s2" and "fresh s2 mem"
  shows "\<exists>s3. r = Inr f \<and> fclose mem f s2 = Some s3
    \<and> ptrs s3 ptr = mem \<and> objs s3 = (objs s)(mem \<mapsto> written as @ [NUL]) \<and> sizes s3 szl = length (written as)
    \<and> streams s3 = streams s \<and> memstream_list s3 = memstream_list s"
proof -
  let ?e = "\<lparr>fp = f, ptr_cell = ptr, sizeloc = szl, fixed_buf = 0, fixed_size = 0\<rparr>"
  have s1: "dynamic_open s f ptr szl [] s1" "r = Inr f"
    using assms(1-5) by (auto simp: open_memstream_def make_entry_def dynamic_open_def Let_def)
  have s2: "dynamic_open s f ptr szl (written as) s2"
    using dynamic_acts [OF s1(1) assms(6)] assms(7) by simp
  let ?s = "s2\<lparr>memstream_list := memstream_list s\<rparr>"
  obtain s3 where s3: "memstream_sync mem f ?e s2 = Some s3"
    "streams s3 = streams s2" "memstream_list s3 = memstream_list s2"
    "objs s3 = (objs s)(mem \<mapsto> written as @ [NUL])" "ptrs s3 ptr = mem" "sizes s3 szl = length (written as)"
    by (rule dynamic_sync [OF s2 assms(8) refl])
  have sync: "memstream_sync mem f ?e ?s = Some (s3\<lparr>memstream_list := memstream_list s\<rparr>)"
    using s3(1) s2 by (auto simp: memstream_sync_def dynamic_open_def ftell_def sync_dynamic_def Let_def)
  have "fclose mem f s2 = Some (real_fclose f (s3\<lparr>memstream_list := memstream_list s\<rparr>))"
    using s2 sync by (simp add: fclose_def dynamic_open_def Let_def)
  then show ?thesis
    using s1(2) s2 s3 assms(4) by (auto simp: real_fclose_def dynamic_open_def fun_eq_iff)
qed

definition empty_state :: mstate where
  "empty_state = \<lparr>streams = Map.empty, objs = Map.empty, ptrs = (\<lambda>_. 0), sizes = (\<lambda>_. 0),
     memstream_list = [], bufendtab = (\<lambda>_. 0), fds = (\<lambda>_. 0)\<rparr>"

lemmas memstream_eval = empty_state_def open_memstream_def make_entry_def Let_def fwrite_def write_at_def
  fflush_def memstream_sync_def ftell_def sync_dynamic_def sync_fixed_def fresh_def memcpy_def wr_def

lemma open_memstream_round_trip_witness:
  "\<exists>s1 s2 s3. open_memstream (Some 3) True 100 200 empty_state = (Inr 3, s1)
     \<and> acts 3 [Write ''ab'', Flush 7, Write ''c''] s1 = Some s2 \<and> fclose 8 3 s2 = Some s3
     \<and> objs s3 = [8 \<mapsto> ''abc'' @ [NUL]] \<and> sizes s3 200 = 3"
proof -
  let ?as = "[Write ''ab'', Flush 7, Write ''c'']"
  obtain r s1 where o: "open_memstream (Some 3) True 100 200 empty_state = (r, s1)" by fastforce
  have fr: "fresh_acts 3 ?as s1" "\<exists>s2. acts 3 ?as s1 = Some s2 \<and> fresh s2 8"
    using o by (auto simp: memstream_eval)
  from fr(2) obtain s2 where s2: "acts 3 ?as s1 = Some s2" "fresh s2 8" by blast
  have "objs empty_state 0 = None" "streams empty_state 3 = None" by (simp_all add: empty_state_def)
  from open_memstream_round_trip [OF _ _ this o fr(1) s2] o s2 show ?thesis
    by (auto simp: empty_state_def)
qed

text \<open>A fixed-buffer stream with the text \<open>t\<close>, opened in \<open>s0\<close>.\<close>

definition fixed_open :: "mstate \<Rightarrow> nat \<Rightarrow> addr \<Rightarrow> nat \<Rightarrow> string \<Rightarrow> mstate \<Rightarrow> bool" where
  "fixed_open s0 f buf n t s \<longleftrightarrow>
     streams s = (streams s0)(f \<mapsto> \<lparr>contents = t, pos = length t, dev_tell = None\<rparr>)
     \<and> memstream_list s = \<lparr>fp = f, ptr_cell = 0, sizeloc = 0, fixed_buf = buf, fixed_size = n\<rparr> # memstream_list s0"

definition fixed_result :: "nat \<Rightarrow> string \<Rightarrow> string \<Rightarrow> string" where
  "fixed_result n t b =
     (if length t < n then t @ NUL # drop (length t + 1) b else take n t @ drop n b)"

lemma sync_fixed_result:
  assumes "streams s f = Some \<lparr>contents = t, pos = length t, dev_tell = None\<rparr>" and "buf \<noteq> 0"
    and "objs s buf = Some b" and "n \<le> length b"
    and "e = \<lparr>fp = f, ptr_cell = 0, sizeloc = 0, fixed_buf = buf, fixed_size = n\<rparr>"
  shows "memstream_sync mem f e s = Some (s\<lparr>objs := (objs s)(buf \<mapsto> fixed_result n t b)\<rparr>)"
proof (cases "length t < n")
  case True
  have "wr (t @ drop (length t) b) (length t) NUL = Some (t @ NUL # drop (length t + 1) b)"
    using True assms(4) by (auto simp: wr_def list_update_append Cons_nth_drop_Suc [symmetric])
  then show ?thesis
    using True assms
    by (simp add: memstream_sync_def ftell_def sync_fixed_def Let_def memcpy_def fixed_result_def)
next
  case False
  then show ?thesis
    using assms
    by (simp add: memstream_sync_def ftell_def sync_fixed_def Let_def memcpy_def fixed_result_def
        min_def)
qed

lemma fixed_writes: "fixed_open s0 f buf n t s \<Longrightarrow> fixed_open s0 f buf n (t @ bs) (fwrite f bs s)"
  by (simp add: fixed_open_def fwrite_def write_at_end)

text \<open>
  \<open>fmemopen\<close> for writing: after a write, \<open>fclose\<close> leaves in the caller's buffer of size \<open>n\<close> the
  first \<open>n\<close> bytes written, a terminator and cleared bytes behind them when there is room, touches
  nothing behind the buffer's size and no other object, and closes the stream and its registry entry.
\<close>

lemma fmemopen_write_round_trip:
  assumes "buf \<noteq> 0" "0 < n" and "objs s buf = Some b" "n \<le> length b" and "streams s f = None"
    and "fmemopen dev (Some f) True buf n (Ptr (CHR ''w'' # m)) s = Some (r, s1)"
  shows "r = Inr f \<and> (\<exists>s2. fclose mem f (fwrite f t s1) = Some s2
    \<and> objs s2 = (objs s)(buf \<mapsto> take n (t @ replicate n NUL) @ drop n b)
    \<and> streams s2 = streams s \<and> memstream_list s2 = memstream_list s)"
proof -
  let ?b = "replicate n NUL @ drop n b"
  let ?e = "\<lparr>fp = f, ptr_cell = 0, sizeloc = 0, fixed_buf = buf, fixed_size = n\<rparr>"
  have s1: "r = Inr f" "fixed_open s f buf n [] s1" "objs s1 = (objs s)(buf \<mapsto> ?b)"
    using assms by (auto simp: fmemopen_def make_entry_def fixed_open_def memset_def cat_def Let_def)
  let ?w = "(fwrite f t s1)\<lparr>memstream_list := memstream_list s\<rparr>"
  have w: "fixed_open s f buf n t (fwrite f t s1)" using fixed_writes [OF s1(2), of t] by simp
  have ob: "objs (fwrite f t s1) = (objs s)(buf \<mapsto> ?b)" using s1(3) by (simp add: fwrite_def)
  have "streams ?w f = Some \<lparr>contents = t, pos = length t, dev_tell = None\<rparr>" "objs ?w buf = Some ?b"
    using w ob by (simp_all add: fixed_open_def)
  then have sync: "memstream_sync mem f ?e ?w = Some (?w\<lparr>objs := (objs s)(buf \<mapsto> fixed_result n t ?b)\<rparr>)"
    using sync_fixed_result [of ?w f t buf ?b n ?e mem] ob assms(1,4) by simp
  have "fclose mem f (fwrite f t s1)
      = Some (real_fclose f (?w\<lparr>objs := (objs s)(buf \<mapsto> fixed_result n t ?b)\<rparr>))"
    using w sync assms(1) by (simp add: fclose_def fixed_open_def Let_def)
  moreover have "fixed_result n t ?b = take n (t @ replicate n NUL) @ drop n b"
    using assms(4) by (auto simp: fixed_result_def min_def simp flip: replicate_Suc)
  ultimately show ?thesis
    using s1(1) w assms(5) by (auto simp: real_fclose_def fixed_open_def fun_eq_iff)
qed

lemma fmemopen_write_round_trip_witness:
  "\<exists>s s1 s2. fmemopen None (Some 3) True 50 4 (Ptr ''w'') s = Some (Inr 3, s1)
     \<and> fclose 0 3 (fwrite 3 ''ab'' s1) = Some s2 \<and> objs s2 50 = Some [CHR ''a'', CHR ''b'', NUL, NUL, CHR ''z'']"
proof -
  let ?s = "empty_state\<lparr>objs := [50 \<mapsto> ''uvxyz'']\<rparr>"
  obtain r s1 where o: "fmemopen None (Some 3) True 50 4 (Ptr ''w'') ?s = Some (r, s1)"
    by (simp add: fmemopen_def memstream_eval cat_def memset_def)
  have "objs ?s 50 = Some ''uvxyz''" "streams ?s 3 = None" by (simp_all add: empty_state_def)
  from fmemopen_write_round_trip [OF _ _ this(1) _ this(2) o, of 0 "''ab''"] obtain s2 where
    "r = Inr 3" "fclose 0 3 (fwrite 3 ''ab'' s1) = Some s2"
    "objs s2 = (objs ?s)(50 \<mapsto> take 4 (''ab'' @ replicate 4 NUL) @ drop 4 ''uvxyz'')" by auto
  moreover have "take 4 (''ab'' @ replicate 4 NUL) @ drop 4 ''uvxyz'' = [CHR ''a'', CHR ''b'', NUL, NUL, CHR ''z'']"
    by (simp add: numeral_eq_Suc)
  ultimately show ?thesis using o by (intro exI [of _ ?s] exI [of _ s1] exI [of _ s2]) simp
qed

text \<open>
  A stream opened for appending starts out empty, so what is written replaces the beginning of the
  buffer instead of following its contents.
\<close>

lemma fmemopen_append_overwrites:
  "\<exists>s1 s2. fmemopen None (Some 3) True 50 8 (Ptr ''a'') (empty_state\<lparr>objs := [50 \<mapsto> ''hello'' @ replicate 3 NUL]\<rparr>)
       = Some (Inr 3, s1)
     \<and> fclose 0 3 (fwrite 3 ''X'' s1) = Some s2 \<and> cstr (the (objs s2 50)) 0 = ''X''"
  by (simp add: fmemopen_def memstream_eval cat_def fclose_def real_fclose_def cstr_def numeral_eq_Suc)

text \<open>
  \<open>fflush\<close> on a stream opened for reading goes through the null pointer of its registry entry as soon
  as \<open>ftell\<close> reports no error and \<open>malloc\<close> succeeds.
\<close>

lemma fflush_read_stream_null:
  assumes "fmemopen (Some (fd, f, tell)) tmp True buf n (Ptr (CHR ''r'' # m)) s = Some (Inr f, s1)"
    and "0 \<le> tell" and "mem \<noteq> 0"
  shows "fflush mem (Ptr f) s1 = None"
  using assms
  by (auto simp: fmemopen_def make_entry_def fflush_def memstream_sync_def ftell_def sync_dynamic_def cat_def
      Let_def split: if_splits option.splits)

end
