(* ===== verification/At_Funcs.thy ===== *)
theory At_Funcs
  imports Snprintf
begin

text \<open>
  Directory-relative system calls, \<open>src/src/at_funcs.c\<close>: the \<open>fchdir\<close> dance around each call, and
  the two calls with two paths, which build full path names.

  The state has the working directory, what each open descriptor refers to, the mutex and
  the rest of the system (\<open>'w\<close>), on which it depends which directories the process may enter. Directories are
  numbers; \<open>path_of\<close> gives the absolute name of one, as \<open>getcwd\<close> returns it. A plain system call is a function of the working directory, the path and
  the rest of the system. Taking the mutex when it is held blocks for ever in one thread: that is
  \<open>None\<close>, like every access outside an object.
\<close>

section \<open>The state\<close>

datatype node = Dir nat | Nondir

record 'w fs =
  cwd :: nat
  fdtab :: "int \<Rightarrow> node option"
  at_mutex :: bool
  disk :: 'w
  searchable :: "nat \<Rightarrow> 'w \<Rightarrow> bool"

definition AT_FDCWD :: int where "AT_FDCWD = -3041965"
definition AT_FDCWD_LINUX :: int where "AT_FDCWD_LINUX = -100"

definition IS_AT_FDCWD :: "int \<Rightarrow> bool" where
  "IS_AT_FDCWD fd \<longleftrightarrow> fd = AT_FDCWD \<or> fd = AT_FDCWD_LINUX"

text \<open>\<open>open(".", O_RDONLY)\<close>, whose answer \<open>fd\<close> is a parameter; \<open>fchdir\<close>; \<open>close\<close>.\<close>

definition open_dot :: "int \<Rightarrow> 'w fs \<Rightarrow> int \<times> 'w fs" where
  "open_dot fd s = (if fd < 0 then (-1, s) else (fd, s\<lparr>fdtab := (fdtab s)(fd \<mapsto> Dir (cwd s))\<rparr>))"

definition fchdir :: "int \<Rightarrow> 'w fs \<Rightarrow> int \<times> 'w fs" where
  "fchdir fd s = (case fdtab s fd of
     Some (Dir d) \<Rightarrow> if searchable s d (disk s) then (0, s\<lparr>cwd := d\<rparr>) else (-1, s)
   | _ \<Rightarrow> (-1, s))"

definition close_fd :: "int \<Rightarrow> 'w fs \<Rightarrow> 'w fs" where
  "close_fd fd s = s\<lparr>fdtab := (fdtab s)(fd := None)\<rparr>"

definition mutex_lock :: "'w fs \<Rightarrow> 'w fs option" where
  "mutex_lock s = (if at_mutex s then None else Some (s\<lparr>at_mutex := True\<rparr>))"

definition mutex_unlock :: "'w fs \<Rightarrow> 'w fs" where
  "mutex_unlock s = s\<lparr>at_mutex := False\<rparr>"

definition absolute :: "string \<Rightarrow> bool" where
  "absolute path \<longleftrightarrow> cat path 0 = Some CHR ''/''"

section \<open>Entering and leaving a directory\<close>

definition at_enter :: "int \<Rightarrow> int \<Rightarrow> string \<Rightarrow> 'w fs \<Rightarrow> (int \<times> 'w fs) option" where
  "at_enter dot dirfd path s = do {
     s \<leftarrow> mutex_lock s;
     let (saved_fd, s) = open_dot dot s;
     if saved_fd < 0 then Some (-1, mutex_unlock s)
     else if absolute path then Some (saved_fd, s)
     else if \<not> IS_AT_FDCWD dirfd then
       (case fchdir dirfd s of (r, s) \<Rightarrow>
          if r < 0 then Some (-1, mutex_unlock (close_fd saved_fd s)) else Some (saved_fd, s))
     else Some (saved_fd, s) }"

definition at_leave :: "int \<Rightarrow> 'w fs \<Rightarrow> 'w fs" where
  "at_leave saved_fd s =
     mutex_unlock (if saved_fd \<ge> 0 then close_fd saved_fd (snd (fchdir saved_fd s)) else s)"

text \<open>A plain system call in the working directory.\<close>

type_synonym 'w syscall = "nat \<Rightarrow> string \<Rightarrow> 'w \<Rightarrow> int \<times> 'w"

definition do_call :: "'w syscall \<Rightarrow> string \<Rightarrow> 'w fs \<Rightarrow> int \<times> 'w fs" where
  "do_call f path s = (case f (cwd s) path (disk s) of (r, w) \<Rightarrow> (r, s\<lparr>disk := w\<rparr>))"

text \<open>\<open>open\<close> also enters the new descriptor in the table, with what it refers to.\<close>

type_synonym 'w open_call = "nat \<Rightarrow> string \<Rightarrow> 'w \<Rightarrow> int \<times> node \<times> 'w"

definition do_open :: "'w open_call \<Rightarrow> string \<Rightarrow> 'w fs \<Rightarrow> int \<times> 'w fs" where
  "do_open f path s = (case f (cwd s) path (disk s) of (r, d, w) \<Rightarrow>
     (r, s\<lparr>fdtab := (if r < 0 then fdtab s else (fdtab s)(r \<mapsto> d)), disk := w\<rparr>))"

text \<open>The body the functions with one path share: enter, call, leave.\<close>

definition at_call :: "int \<Rightarrow> int \<Rightarrow> string \<Rightarrow> ('w fs \<Rightarrow> int \<times> 'w fs) \<Rightarrow> 'w fs \<Rightarrow> (int \<times> 'w fs) option" where
  "at_call dot dirfd path call s = do {
     (saved, s) \<leftarrow> at_enter dot dirfd path s;
     if saved < 0 then Some (-1, s)
     else let (result, s) = call s in Some (result, at_leave saved s) }"

section \<open>The functions with one path\<close>

text \<open>The plain system calls of the operating system, with their further arguments.\<close>

record 'w os =
  os_open :: "int \<Rightarrow> int \<Rightarrow> 'w open_call"
  os_mkdir :: "int \<Rightarrow> 'w syscall"
  os_rmdir :: "'w syscall"
  os_unlink :: "'w syscall"
  os_stat :: "'w syscall"
  os_lstat :: "'w syscall"
  os_chown :: "int \<Rightarrow> int \<Rightarrow> 'w syscall"
  os_lchown :: "int \<Rightarrow> int \<Rightarrow> 'w syscall"
  os_chmod :: "int \<Rightarrow> 'w syscall"
  os_readlink :: "nat \<Rightarrow> 'w syscall"
  os_symlink :: "string \<Rightarrow> 'w syscall"
  os_access :: "int \<Rightarrow> 'w syscall"
  os_rename :: "nat \<Rightarrow> string \<Rightarrow> string \<Rightarrow> 'w \<Rightarrow> int \<times> 'w"
  os_link :: "nat \<Rightarrow> string \<Rightarrow> string \<Rightarrow> 'w \<Rightarrow> int \<times> 'w"

unbundle bit_operations_syntax

definition O_CREAT :: int where "O_CREAT = 0x100"
definition AT_SYMLINK_NOFOLLOW :: int where "AT_SYMLINK_NOFOLLOW = 0x100"
definition AT_REMOVEDIR :: int where "AT_REMOVEDIR = 0x200"

definition openat :: "'w os \<Rightarrow> int \<Rightarrow> int \<Rightarrow> string \<Rightarrow> int \<Rightarrow> int \<Rightarrow> 'w fs \<Rightarrow> (int \<times> 'w fs) option" where
  "openat os dot dirfd path flags vmode s =
     (let mode = (if flags AND O_CREAT \<noteq> 0 then vmode else 0) in at_call dot dirfd path (do_open (os_open os flags mode) path) s)"

definition mkdirat :: "'w os \<Rightarrow> int \<Rightarrow> int \<Rightarrow> string \<Rightarrow> int \<Rightarrow> 'w fs \<Rightarrow> (int \<times> 'w fs) option" where
  "mkdirat os dot dirfd path mode s = at_call dot dirfd path (do_call (os_mkdir os mode) path) s"

definition unlinkat :: "'w os \<Rightarrow> int \<Rightarrow> int \<Rightarrow> string \<Rightarrow> int \<Rightarrow> 'w fs \<Rightarrow> (int \<times> 'w fs) option" where
  "unlinkat os dot dirfd path flags s =
     at_call dot dirfd path (do_call (if flags AND AT_REMOVEDIR \<noteq> 0 then os_rmdir os else os_unlink os) path) s"

definition fstatat :: "'w os \<Rightarrow> int \<Rightarrow> int \<Rightarrow> string \<Rightarrow> int \<Rightarrow> 'w fs \<Rightarrow> (int \<times> 'w fs) option" where
  "fstatat os dot dirfd path flags s =
     at_call dot dirfd path (do_call (if flags AND AT_SYMLINK_NOFOLLOW \<noteq> 0 then os_lstat os else os_stat os) path) s"

definition fchownat :: "'w os \<Rightarrow> int \<Rightarrow> int \<Rightarrow> string \<Rightarrow> int \<Rightarrow> int \<Rightarrow> int \<Rightarrow> 'w fs \<Rightarrow> (int \<times> 'w fs) option" where
  "fchownat os dot dirfd path owner grp flags s =
     at_call dot dirfd path
       (do_call (if flags AND AT_SYMLINK_NOFOLLOW \<noteq> 0 then os_lchown os owner grp else os_chown os owner grp) path) s"

definition fchmodat :: "'w os \<Rightarrow> int \<Rightarrow> int \<Rightarrow> string \<Rightarrow> int \<Rightarrow> int \<Rightarrow> 'w fs \<Rightarrow> (int \<times> 'w fs) option" where
  "fchmodat os dot dirfd path mode flags s = at_call dot dirfd path (do_call (os_chmod os mode) path) s"

definition readlinkat :: "'w os \<Rightarrow> int \<Rightarrow> int \<Rightarrow> string \<Rightarrow> nat \<Rightarrow> 'w fs \<Rightarrow> (int \<times> 'w fs) option" where
  "readlinkat os dot dirfd path bufsiz s = at_call dot dirfd path (do_call (os_readlink os bufsiz) path) s"

definition symlinkat :: "'w os \<Rightarrow> int \<Rightarrow> string \<Rightarrow> int \<Rightarrow> string \<Rightarrow> 'w fs \<Rightarrow> (int \<times> 'w fs) option" where
  "symlinkat os dot target newdirfd linkpath s = at_call dot newdirfd linkpath (do_call (os_symlink os target) linkpath) s"

definition faccessat :: "'w os \<Rightarrow> int \<Rightarrow> int \<Rightarrow> string \<Rightarrow> int \<Rightarrow> int \<Rightarrow> 'w fs \<Rightarrow> (int \<times> 'w fs) option" where
  "faccessat os dot dirfd path mode flags s = at_call dot dirfd path (do_call (os_access os mode) path) s"

section \<open>The functions with two paths\<close>

text \<open>
  What path building needs: the name of a directory, the allocator and format buffer of
  \<open>solcompat_snprintf\<close>, and the indeterminate contents of the 1024-byte arrays.
\<close>

record path_env =
  path_of :: "nat \<Rightarrow> string"
  usable :: "nat \<Rightarrow> nat ptr"
  fmt_buf :: cbuf
  garbage :: cbuf

text \<open>The directory's name, or none when it does not fit or the descriptor is not a directory.\<close>

definition resolve_dirfd_path :: "path_env \<Rightarrow> int \<Rightarrow> int \<Rightarrow> nat \<Rightarrow> 'w fs \<Rightarrow> string option \<times> 'w fs" where
  "resolve_dirfd_path env dot dirfd bufsiz s =
     (case open_dot dot s of (saved, s) \<Rightarrow>
        if saved < 0 then (None, s)
        else case fchdir dirfd s of (r, s) \<Rightarrow>
          if r < 0 then (None, close_fd saved s)
          else let p = (if length (path_of env (cwd s)) < bufsiz then Some (path_of env (cwd s)) else None)
               in (p, close_fd saved (snd (fchdir saved s))))"

definition path_vsprintf :: "string \<Rightarrow> string \<times> string \<Rightarrow> string option" where
  "path_vsprintf fmt ap = (if fmt = ''%s/%s'' then Some (fst ap @ ''/'' @ snd ap) else None)"

text \<open>One of the two path blocks: the array it fills, or none when it fails.\<close>

definition full_path :: "path_env \<Rightarrow> int \<Rightarrow> int \<Rightarrow> string \<Rightarrow> 'w fs \<Rightarrow> (cbuf option \<times> 'w fs) option" where
  "full_path env dot dirfd path s =
     (if absolute path \<or> IS_AT_FDCWD dirfd then
        map_option (\<lambda>(_, b). (Some b, s)) (strlcpy (garbage env) (path @ [NUL]) 1024)
      else case resolve_dirfd_path env dot dirfd 1024 s of
             (None, s) \<Rightarrow> Some (None, s)
           | (Some dirpath, s) \<Rightarrow> do {
               r \<leftarrow> solcompat_snprintf (usable env) path_vsprintf (fmt_buf env) (Ptr (garbage env)) 1024
                      ''%s/%s'' (dirpath, path);
               (case vr_str r of Ptr b \<Rightarrow> Some (Some b, s) | NULL \<Rightarrow> None) })"

text \<open>Both paths in turn, then the call; the answers of the two \<open>open\<close> calls are parameters.\<close>

definition two_path_call ::
    "path_env \<Rightarrow> int \<Rightarrow> int \<Rightarrow> (nat \<Rightarrow> string \<Rightarrow> string \<Rightarrow> 'w \<Rightarrow> int \<times> 'w) \<Rightarrow> int \<Rightarrow> string \<Rightarrow> int \<Rightarrow> string
     \<Rightarrow> 'w fs \<Rightarrow> (int \<times> 'w fs) option" where
  "two_path_call env dot1 dot2 f olddirfd oldpath newdirfd newpath s = do {
     s \<leftarrow> mutex_lock s;
     (old_full, s) \<leftarrow> full_path env dot1 olddirfd oldpath s;
     (case old_full of
        None \<Rightarrow> Some (-1, mutex_unlock s)
      | Some old_full \<Rightarrow> do {
          (new_full, s) \<leftarrow> full_path env dot2 newdirfd newpath s;
          (case new_full of
             None \<Rightarrow> Some (-1, mutex_unlock s)
           | Some new_full \<Rightarrow>
               (case f (cwd s) (cstr old_full 0) (cstr new_full 0) (disk s) of
                  (result, w) \<Rightarrow> Some (result, mutex_unlock (s\<lparr>disk := w\<rparr>)))) }) }"

definition renameat ::
    "'w os \<Rightarrow> path_env \<Rightarrow> int \<Rightarrow> int \<Rightarrow> int \<Rightarrow> string \<Rightarrow> int \<Rightarrow> string \<Rightarrow> 'w fs \<Rightarrow> (int \<times> 'w fs) option" where
  "renameat os env dot1 dot2 olddirfd oldpath newdirfd newpath s =
     (if IS_AT_FDCWD olddirfd \<and> IS_AT_FDCWD newdirfd then
        (case os_rename os (cwd s) oldpath newpath (disk s) of (r, w) \<Rightarrow> Some (r, s\<lparr>disk := w\<rparr>))
      else two_path_call env dot1 dot2 (os_rename os) olddirfd oldpath newdirfd newpath s)"

definition linkat ::
    "'w os \<Rightarrow> path_env \<Rightarrow> int \<Rightarrow> int \<Rightarrow> int \<Rightarrow> string \<Rightarrow> int \<Rightarrow> string \<Rightarrow> int \<Rightarrow> 'w fs
     \<Rightarrow> (int \<times> 'w fs) option" where
  "linkat os env dot1 dot2 olddirfd oldpath newdirfd newpath flags s =
     two_path_call env dot1 dot2 (os_link os) olddirfd oldpath newdirfd newpath s"

section \<open>The working directory is restored\<close>

text \<open>
  The directory a call is made in, when \<open>open(".")\<close> has returned \<open>dot\<close>: none when the descriptor is not one
  of a directory that can be entered. A \<open>dirfd\<close> that was closed and is \<open>dot\<close> now is the working directory.
\<close>

definition base_dir :: "int \<Rightarrow> int \<Rightarrow> string \<Rightarrow> 'w fs \<Rightarrow> nat option" where
  "base_dir dot dirfd path s =
     (if absolute path \<or> IS_AT_FDCWD dirfd then Some (cwd s)
      else case (if dirfd = dot then Some (Dir (cwd s)) else fdtab s dirfd) of
             Some (Dir d) \<Rightarrow> if searchable s d (disk s) then Some d else None
           | _ \<Rightarrow> None)"

text \<open>The descriptor \<open>open\<close> returns is new.\<close>

definition new_fd :: "int \<Rightarrow> 'w fs \<Rightarrow> bool" where
  "new_fd fd s \<longleftrightarrow> 0 \<le> fd \<and> fdtab s fd = None"

text \<open>
  The effect of a plain call made in the designated directory: the descriptors and the mutex are as they
  were, and so is the working directory if the process may still enter it; without
  such a directory, or without a descriptor for the working directory, a failure without effect.
\<close>

definition relative :: "'w syscall \<Rightarrow> int \<Rightarrow> int \<Rightarrow> string \<Rightarrow> 'w fs \<Rightarrow> (int \<times> 'w fs) option" where
  "relative plain dot dirfd path s =
     (if dot < 0 then Some (-1, s)
      else case base_dir dot dirfd path s of
             None \<Rightarrow> Some (-1, s)
           | Some d \<Rightarrow> (case plain d path (disk s) of (r, w) \<Rightarrow>
               Some (r, s\<lparr>cwd := (if searchable s (cwd s) w then cwd s else d), disk := w\<rparr>)))"

text \<open>The contract of a directory-relative call.\<close>

locale at_function =
  fixes fn :: "int \<Rightarrow> int \<Rightarrow> string \<Rightarrow> 'w fs \<Rightarrow> (int \<times> 'w fs) option" and plain :: "'w syscall"
  assumes run: "\<not> at_mutex s \<Longrightarrow> dot < 0 \<or> new_fd dot s \<Longrightarrow> fn dot dirfd path s = relative plain dot dirfd path s"
begin

lemma restores:
  assumes "\<not> at_mutex s" and "dot < 0 \<or> new_fd dot s" and "fn dot dirfd path s = Some (r, s')"
  shows "fdtab s' = fdtab s" "\<not> at_mutex s'" "(\<And>w. searchable s (cwd s) w) \<Longrightarrow> cwd s' = cwd s"
  using assms(1,3) run [OF assms(1,2), of dirfd path] unfolding relative_def
  by (auto split: option.splits prod.splits if_splits)

end

text \<open>The state in which the call between \<open>at_enter\<close> and \<open>at_leave\<close> is made.\<close>

lemma at_call_eq:
  assumes "\<not> at_mutex s" and "new_fd dot s"
  shows "at_call dot dirfd path call s = (case base_dir dot dirfd path s of
      None \<Rightarrow> Some (-1, s)
    | Some d \<Rightarrow> (case call (s\<lparr>cwd := d, fdtab := (fdtab s)(dot \<mapsto> Dir (cwd s)), at_mutex := True\<rparr>) of
        (r, s') \<Rightarrow> Some (r, at_leave dot s')))"
proof -
  have dot: "0 \<le> dot" "fdtab s dot = None" "\<not> dot < 0" using assms(2) by (auto simp: new_fd_def)
  obtain c t m w sr where s: "s = \<lparr>cwd = c, fdtab = t, at_mutex = m, disk = w, searchable = sr\<rparr>" by (cases s)
  have upd: "t(dot := None) = t" using dot(2) by (auto simp: s)
  show ?thesis
    using assms(1) dot upd
    by (auto simp: s at_call_def at_enter_def base_dir_def mutex_lock_def mutex_unlock_def open_dot_def fchdir_def close_fd_def
        split: option.split node.split)
qed

lemma at_leave_eq:
  assumes "0 \<le> dot" and "fdtab s dot = Some (Dir c)"
  shows "at_leave dot s = s\<lparr>cwd := (if searchable s c (disk s) then c else cwd s), fdtab := (fdtab s)(dot := None), at_mutex := False\<rparr>"
  using assms by (cases s) (simp add: at_leave_def fchdir_def close_fd_def mutex_unlock_def)

lemma at_call_no_dot: "\<not> at_mutex s \<Longrightarrow> dot < 0 \<Longrightarrow> at_call dot dirfd path call s = Some (-1, s)"
  by (cases s) (simp add: at_call_def at_enter_def mutex_lock_def mutex_unlock_def open_dot_def Let_def)

text \<open>Leaving after a call made in \<open>d\<close> that changed the disk and perhaps opened a descriptor.\<close>

lemma at_leave_call:
  assumes "\<not> at_mutex s" and "new_fd dot s"
  shows "at_leave dot (s\<lparr>cwd := d, fdtab := t(dot \<mapsto> Dir (cwd s)), at_mutex := True, disk := w\<rparr>)
    = s\<lparr>cwd := (if searchable s (cwd s) w then cwd s else d), fdtab := t(dot := None), disk := w\<rparr>"
  using assms by (cases s) (simp add: at_leave_eq new_fd_def)

lemma at_call_run:
  assumes "\<not> at_mutex s" and "dot < 0 \<or> new_fd dot s"
  shows "at_call dot dirfd path (do_call f path) s = relative f dot dirfd path s"
proof (cases "dot < 0")
  case False
  then have new: "new_fd dot s" and t: "(fdtab s)(dot := None) = fdtab s" using assms(2) by (auto simp: new_fd_def)
  show ?thesis
  proof (cases "base_dir dot dirfd path s")
    case (Some d)
    obtain r w where "f d path (disk s) = (r, w)" by fastforce
    then show ?thesis
      using False Some at_leave_call [OF assms(1) new, where d = d and t = "fdtab s" and w = w] t
      by (simp add: at_call_eq [OF assms(1) new] relative_def do_call_def)
  qed (use False in \<open>simp add: at_call_eq [OF assms(1) new] relative_def\<close>)
qed (simp add: at_call_no_dot assms(1) relative_def)

lemma openat_run:
  assumes "\<not> at_mutex s" and "dot < 0 \<or> new_fd dot s"
    and "\<And>m d w. fst (os_open os flags m d path w) \<noteq> dot"
  shows "openat os dot dirfd path flags mode s =
    (if dot < 0 then Some (-1, s)
     else case base_dir dot dirfd path s of
            None \<Rightarrow> Some (-1, s)
          | Some d \<Rightarrow> (case os_open os flags (if flags AND O_CREAT \<noteq> 0 then mode else 0) d path (disk s) of (r, f, w) \<Rightarrow>
              Some (r, s\<lparr>cwd := (if searchable s (cwd s) w then cwd s else d),
                        fdtab := (if r < 0 then fdtab s else (fdtab s)(r \<mapsto> f)), disk := w\<rparr>)))"
proof (cases "dot < 0")
  case False
  then have new: "new_fd dot s" and t: "(fdtab s)(dot := None) = fdtab s" using assms(2) by (auto simp: new_fd_def)
  define m where "m = (if flags AND O_CREAT \<noteq> 0 then mode else 0)"
  show ?thesis
  proof (cases "base_dir dot dirfd path s")
    case (Some d)
    obtain r f w where o: "os_open os flags m d path (disk s) = (r, f, w)" by (metis prod_cases3)
    then have "r \<noteq> dot" using assms(3) [of m d "disk s"] by simp
    then have tw: "(fdtab s)(dot \<mapsto> n, r \<mapsto> f) = (fdtab s)(r \<mapsto> f, dot \<mapsto> n)"
      "(fdtab s)(r \<mapsto> f, dot := None) = (fdtab s)(r \<mapsto> f)" for n
      using t by (simp_all add: fun_upd_twist)
    have ord: "s\<lparr>cwd := d, at_mutex := True, fdtab := x, disk := w\<rparr> = s\<lparr>cwd := d, fdtab := x, at_mutex := True, disk := w\<rparr>" for x
      by (cases s) simp
    show ?thesis
      using False Some o at_leave_call [OF assms(1) new, where d = d and t = "fdtab s" and w = w] t
        at_leave_call [OF assms(1) new, where d = d and t = "(fdtab s)(r \<mapsto> f)" and w = w]
      by (simp add: openat_def m_def [symmetric] at_call_eq [OF assms(1) new] do_open_def tw ord)
  qed (use False in \<open>simp add: openat_def at_call_eq [OF assms(1) new]\<close>)
qed (simp add: openat_def at_call_no_dot assms(1))

lemma at_function_call: "at_function (\<lambda>dot dirfd path. at_call dot dirfd path (do_call f path)) f"
  by unfold_locales (rule at_call_run)

text \<open>Every function of the file with one path keeps the contract; \<open>openat\<close> adds a descriptor.\<close>

interpretation mkdirat: at_function "\<lambda>dot dirfd path. mkdirat os dot dirfd path mode" "os_mkdir os mode" for os mode
  unfolding mkdirat_def by (rule at_function_call)

interpretation unlinkat: at_function
  "\<lambda>dot dirfd path. unlinkat os dot dirfd path flags"
  "if flags AND AT_REMOVEDIR \<noteq> 0 then os_rmdir os else os_unlink os" for os flags
  unfolding unlinkat_def by (rule at_function_call)

interpretation fstatat: at_function
  "\<lambda>dot dirfd path. fstatat os dot dirfd path flags"
  "if flags AND AT_SYMLINK_NOFOLLOW \<noteq> 0 then os_lstat os else os_stat os" for os flags
  unfolding fstatat_def by (rule at_function_call)

interpretation fchownat: at_function
  "\<lambda>dot dirfd path. fchownat os dot dirfd path owner grp flags"
  "if flags AND AT_SYMLINK_NOFOLLOW \<noteq> 0 then os_lchown os owner grp else os_chown os owner grp"
  for os owner grp flags
  unfolding fchownat_def by (rule at_function_call)

interpretation fchmodat: at_function "\<lambda>dot dirfd path. fchmodat os dot dirfd path mode flags" "os_chmod os mode"
  for os mode flags
  unfolding fchmodat_def by (rule at_function_call)

interpretation readlinkat: at_function "\<lambda>dot dirfd path. readlinkat os dot dirfd path n" "os_readlink os n" for os n
  unfolding readlinkat_def by (rule at_function_call)

interpretation symlinkat: at_function "\<lambda>dot dirfd path. symlinkat os dot target dirfd path" "os_symlink os target"
  for os target
  unfolding symlinkat_def by (rule at_function_call)

interpretation faccessat: at_function "\<lambda>dot dirfd path. faccessat os dot dirfd path mode flags" "os_access os mode"
  for os mode flags
  unfolding faccessat_def by (rule at_function_call)

section \<open>Building full names\<close>

text \<open>
  The arrays have their sizes, \<open>malloc\<close> serves the work buffer of \<open>solcompat_snprintf\<close>, and names of
  directories are C strings.
\<close>

definition wf_env :: "path_env \<Rightarrow> bool" where
  "wf_env env \<longleftrightarrow> length (garbage env) = 1024 \<and> length (fmt_buf env) = 2048 \<and> wf_usable (usable env)
     \<and> usable env STACK_BUF_SIZE \<noteq> NULL \<and> (\<forall>d. wf_cstr (path_of env d))"

text \<open>The name a path relative to a descriptor stands for.\<close>

definition full_name :: "path_env \<Rightarrow> int \<Rightarrow> string \<Rightarrow> 'w fs \<Rightarrow> string option" where
  "full_name env dirfd path s =
     (if absolute path \<or> IS_AT_FDCWD dirfd then Some path
      else case fdtab s dirfd of
             Some (Dir d) \<Rightarrow> if length (path_of env d) < 1024 then Some (path_of env d @ ''/'' @ path) else None
           | _ \<Rightarrow> None)"

text \<open>For the names built here the process may enter every directory.\<close>

definition all_searchable :: "'w fs \<Rightarrow> bool" where
  "all_searchable s \<longleftrightarrow> (\<forall>d w. searchable s d w)"

lemma preprocess_path:
  assumes "length fb = 2048"
  shows "preprocess_fmt ''%s/%s'' fb 2048 = Some ''%s/%s''"
proof -
  let ?d = "Directive [] W_none P_none L_none CHR ''s''"
  show ?thesis
    using preprocess_fmt_pieces [of "[?d, Lit CHR ''/'', ?d]" fb 2048] assms by (simp add: conv_char_def)
qed

lemma resolve_dirfd_path_run:
  assumes "new_fd dot s" and "dirfd \<noteq> dot" and "all_searchable s"
  shows "resolve_dirfd_path env dot dirfd n s =
    (case fdtab s dirfd of Some (Dir d) \<Rightarrow> if length (path_of env d) < n then Some (path_of env d) else None | _ \<Rightarrow> None, s)"
proof -
  obtain c t m w sr where s: "s = \<lparr>cwd = c, fdtab = t, at_mutex = m, disk = w, searchable = sr\<rparr>" by (cases s)
  have dot: "0 \<le> dot" "t dot = None" "t(dot := None) = t" using assms(1) by (auto simp: new_fd_def s)
  then show ?thesis
    using assms(2,3)
    by (auto simp: resolve_dirfd_path_def open_dot_def fchdir_def close_fd_def all_searchable_def s Let_def
        split: option.split node.split)
qed

lemma cstr_bounded:
  assumes "wf_cstr t" "0 < n" "n \<le> length b"
  shows "cstr (bounded_result b t n) 0 = take (n - 1) t"
  using assms by (simp add: bounded_result_def cstr_simps)

lemma full_path_run:
  assumes "wf_env env" and "wf_cstr path" "length path < 4096" and "new_fd dot s" "dirfd \<noteq> dot" "all_searchable s"
  shows "\<exists>b. full_path env dot dirfd path s = Some (b, s)
    \<and> map_option (\<lambda>b. cstr b 0) b = map_option (take 1023) (full_name env dirfd path s)"
proof (cases "absolute path \<or> IS_AT_FDCWD dirfd")
  case True
  have "strlcpy (garbage env) (path @ [NUL]) 1024 = Some (length path, bounded_result (garbage env) path 1024)"
    using assms(1,2) by (intro strlcpy_bounded) (auto simp: wf_env_def)
  then show ?thesis
    using True cstr_bounded [OF assms(2), of 1024 "garbage env"] assms(1)
    by (auto simp: full_path_def full_name_def wf_env_def)
next
  case False
  note res = resolve_dirfd_path_run [OF assms(4-6), of env 1024]
  show ?thesis
  proof (cases "full_name env dirfd path s")
    case None
    then show ?thesis using False res by (auto simp: full_path_def full_name_def split: option.splits node.splits if_splits)
  next
    case (Some t)
    then obtain d where d: "fdtab s dirfd = Some (Dir d)" "length (path_of env d) < 1024" "t = path_of env d @ ''/'' @ path"
      using False by (auto simp: full_name_def split: option.splits node.splits if_splits)
    have t: "wf_cstr t" "length t < STACK_BUF_SIZE"
      using d assms(1-3) by (auto simp: wf_env_def STACK_BUF_SIZE_def)
    obtain cap where cap: "usable env STACK_BUF_SIZE = Ptr cap"
      using assms(1) by (cases "usable env STACK_BUF_SIZE") (auto simp: wf_env_def)
    have "solcompat_vsnprintf (usable env) path_vsprintf (fmt_buf env) (Ptr (garbage env)) 1024 ''%s/%s'' (path_of env d, path)
        = Some \<lparr>vr_ret = int (length t), vr_errno = None, vr_str = Ptr (bounded_result (garbage env) t 1024)\<rparr>"
      using vsnprintf_bounded [of "''%s/%s''" "fmt_buf env" "''%s/%s''" path_vsprintf "(path_of env d, path)" t
          "usable env" cap 1024 "garbage env"] preprocess_path [of "fmt_buf env"] cap t(2) assms(1) d
      by (auto simp: wf_env_def path_vsprintf_def)
    then show ?thesis
      using False res d Some cstr_bounded [OF t(1), of 1024 "garbage env"] assms(1)
      by (auto simp: full_path_def solcompat_snprintf_def wf_env_def)
  qed
qed

lemma two_path_run:
  assumes "wf_env env" and "\<not> at_mutex s" and "wf_cstr oldpath" "length oldpath < 4096" "wf_cstr newpath" "length newpath < 4096"
    and "new_fd dot1 s" "new_fd dot2 s" "olddirfd \<noteq> dot1" "newdirfd \<noteq> dot2" "all_searchable s"
  shows "two_path_call env dot1 dot2 f olddirfd oldpath newdirfd newpath s =
    (case (full_name env olddirfd oldpath s, full_name env newdirfd newpath s) of
       (Some old, Some new) \<Rightarrow> (case f (cwd s) (take 1023 old) (take 1023 new) (disk s) of (r, w) \<Rightarrow> Some (r, s\<lparr>disk := w\<rparr>))
     | _ \<Rightarrow> Some (-1, s))"
proof -
  let ?s = "s\<lparr>at_mutex := True\<rparr>"
  have names: "full_name env d p ?s = full_name env d p s" for d p by (simp add: full_name_def)
  have fd: "new_fd dot1 ?s" "new_fd dot2 ?s" "all_searchable ?s" using assms(7,8,11) by (simp_all add: new_fd_def all_searchable_def)
  have unlock: "mutex_unlock ?s = s" using assms(2) by (cases s) (simp add: mutex_unlock_def)
  have unlock_disk: "mutex_unlock (?s\<lparr>disk := w\<rparr>) = s\<lparr>disk := w\<rparr>" for w
    using assms(2) by (cases s) (simp add: mutex_unlock_def)
  obtain b1 where b1: "full_path env dot1 olddirfd oldpath ?s = Some (b1, ?s)"
    "map_option (\<lambda>b. cstr b 0) b1 = map_option (take 1023) (full_name env olddirfd oldpath s)"
    using full_path_run [OF assms(1,3,4) fd(1) assms(9) fd(3)] by (auto simp: names)
  obtain b2 where b2: "full_path env dot2 newdirfd newpath ?s = Some (b2, ?s)"
    "map_option (\<lambda>b. cstr b 0) b2 = map_option (take 1023) (full_name env newdirfd newpath s)"
    using full_path_run [OF assms(1,5,6) fd(2) assms(10) fd(3)] by (auto simp: names)
  have lock: "mutex_lock s = Some ?s" using assms(2) by (simp add: mutex_lock_def)
  show ?thesis
    using b1 b2
    by (auto simp: two_path_call_def lock unlock unlock_disk split: option.splits prod.splits)
qed

section \<open>Properties\<close>

text \<open>
  C28. The directory-relative calls with one path act in the directory they are given. With the mutex free, each
  returns what the plain system call gives in the designated directory and changes the system exactly as
  that call does, and the descriptors and the mutex are as before (\<^verbatim>\<open>openat\<close> adds the one it opened, and reads its
  mode argument only under \<^verbatim>\<open>O_CREAT\<close>). The working directory is as before if the process may still enter it; if not,
  the call leaves the process in the designated directory. When \<^verbatim>\<open>open(".")\<close> fails, or the descriptor is not one
  of a directory that can be entered, the call fails without effect; a descriptor that was closed and is the one \<^verbatim>\<open>open(".")\<close>
  returns stands for the working directory.
\<close>

theorem at_functions_relative:
  fixes os :: "'w os" and path :: string and dirfd dot :: int and s :: "'w fs"
  assumes "\<not> at_mutex s" and "dot < 0 \<or> new_fd dot s" and "\<And>m d w. fst (os_open os flags m d path w) \<noteq> dot"
  defines "at_dir \<equiv> \<lambda>f :: nat \<Rightarrow> int \<times> 'w fs.
      if dot < 0 then Some (-1, s) else case base_dir dot dirfd path s of None \<Rightarrow> Some (-1, s) | Some d \<Rightarrow> Some (f d)"
    and "back \<equiv> \<lambda>d w. s\<lparr>cwd := (if searchable s (cwd s) w then cwd s else d), disk := w\<rparr>"
  defines "rel \<equiv> \<lambda>plain :: 'w syscall. at_dir (\<lambda>d. case plain d path (disk s) of (r, w) \<Rightarrow> (r, back d w))"
  shows "openat os dot dirfd path flags mode s = at_dir (\<lambda>d.
        case os_open os flags (if flags AND O_CREAT \<noteq> 0 then mode else 0) d path (disk s) of (r, f, w) \<Rightarrow>
          (r, (back d w)\<lparr>fdtab := (if r < 0 then fdtab s else (fdtab s)(r \<mapsto> f))\<rparr>))
    \<and> mkdirat os dot dirfd path mode s = rel (os_mkdir os mode)
    \<and> unlinkat os dot dirfd path flags s = rel (if flags AND AT_REMOVEDIR \<noteq> 0 then os_rmdir os else os_unlink os)
    \<and> fstatat os dot dirfd path flags s = rel (if flags AND AT_SYMLINK_NOFOLLOW \<noteq> 0 then os_lstat os else os_stat os)
    \<and> fchownat os dot dirfd path owner grp flags s
        = rel (if flags AND AT_SYMLINK_NOFOLLOW \<noteq> 0 then os_lchown os owner grp else os_chown os owner grp)
    \<and> fchmodat os dot dirfd path mode flags s = rel (os_chmod os mode)
    \<and> readlinkat os dot dirfd path n s = rel (os_readlink os n)
    \<and> symlinkat os dot target dirfd path s = rel (os_symlink os target)
    \<and> faccessat os dot dirfd path mode flags s = rel (os_access os mode)"
proof -
  have rel: "relative plain dot dirfd path s = rel plain" for plain :: "'w syscall"
    by (auto simp: relative_def rel_def at_dir_def back_def split: option.split prod.split)
  have "openat os dot dirfd path flags mode s = at_dir (\<lambda>d.
      case os_open os flags (if flags AND O_CREAT \<noteq> 0 then mode else 0) d path (disk s) of (r, f, w) \<Rightarrow>
        (r, (back d w)\<lparr>fdtab := (if r < 0 then fdtab s else (fdtab s)(r \<mapsto> f))\<rparr>))"
    unfolding openat_run [OF assms(1-3)] at_dir_def back_def by (auto split: option.split prod.split)
  then show ?thesis
    by (intro conjI)
      (simp_all only: rel [symmetric] mkdirat.run [OF assms(1,2)] unlinkat.run [OF assms(1,2)] fstatat.run [OF assms(1,2)]
        fchownat.run [OF assms(1,2)] fchmodat.run [OF assms(1,2)] readlinkat.run [OF assms(1,2)]
        symlinkat.run [OF assms(1,2)] faccessat.run [OF assms(1,2)])
qed

definition sample_fs :: "string list fs" where
  "sample_fs = \<lparr>cwd = 1, fdtab = [4 \<mapsto> Dir 7], at_mutex = False, disk = [], searchable = (\<lambda>_ _. True)\<rparr>"

text \<open>A system whose calls write their arguments and the directory to a log.\<close>

definition log_call :: "string \<Rightarrow> string list syscall" where
  "log_call name d path w = (int d, w @ [name, path])"

definition sample_os :: "string list os" where
  "sample_os = \<lparr>os_open = (\<lambda>_ _ d path w. (5, Nondir, w @ [''open'', path])), os_mkdir = (\<lambda>_. log_call ''mkdir''),
     os_rmdir = log_call ''rmdir'', os_unlink = log_call ''unlink'', os_stat = log_call ''stat'',
     os_lstat = log_call ''lstat'', os_chown = (\<lambda>_ _. log_call ''chown''), os_lchown = (\<lambda>_ _. log_call ''lchown''),
     os_chmod = (\<lambda>_. log_call ''chmod''), os_readlink = (\<lambda>_. log_call ''readlink''),
     os_symlink = (\<lambda>t. log_call (''symlink '' @ t)), os_access = (\<lambda>_. log_call ''access''),
     os_rename = (\<lambda>d a b w. (0, w @ [''rename'', a, b])), os_link = (\<lambda>d a b w. (0, w @ [''link'', a, b]))\<rparr>"

theorem at_functions_relative_witness:
  "unlinkat sample_os 3 4 ''f'' 512 sample_fs = Some (7, sample_fs\<lparr>disk := [''rmdir'', ''f'']\<rparr>)
   \<and> mkdirat sample_os 3 9 ''f'' 0 sample_fs = Some (-1, sample_fs)"
  using at_functions_relative [of sample_fs 3 sample_os 512 "''f''" 4]
    at_functions_relative [of sample_fs 3 sample_os 512 "''f''" 9 0]
  by (simp add: sample_fs_def new_fd_def base_dir_def absolute_def IS_AT_FDCWD_def AT_FDCWD_def AT_FDCWD_LINUX_def
      AT_REMOVEDIR_def sample_os_def log_call_def cat_def)

text \<open>
  \<^verbatim>\<open>renameat\<close> and \<^verbatim>\<open>linkat\<close> resolve both paths: when each name fits in the 1024-byte arrays the
  plain call is made on the name of the designated directory followed by the path (an absolute or
  current-directory path unchanged), the mutex is released and the working directory and the
  descriptors are as before; when either descriptor is not a directory the call fails without effect.
\<close>

lemma renameat_linkat_full_names:
  fixes os :: "'w os" and s :: "'w fs"
  assumes "wf_env env" and "\<not> at_mutex s" and "wf_cstr oldpath" "length oldpath < 4096" "wf_cstr newpath" "length newpath < 4096"
    and "new_fd dot1 s" "new_fd dot2 s" "olddirfd \<noteq> dot1" "newdirfd \<noteq> dot2" "all_searchable s"
    and "list_all (\<lambda>name. length (case name of None \<Rightarrow> [] | Some t \<Rightarrow> t) < 1024)
           [full_name env olddirfd oldpath s, full_name env newdirfd newpath s]"
  defines "spec \<equiv> \<lambda>f :: nat \<Rightarrow> string \<Rightarrow> string \<Rightarrow> 'w \<Rightarrow> int \<times> 'w.
      case (full_name env olddirfd oldpath s, full_name env newdirfd newpath s) of
        (Some old, Some new) \<Rightarrow> (case f (cwd s) old new (disk s) of (r, w) \<Rightarrow> Some (r, s\<lparr>disk := w\<rparr>))
      | _ \<Rightarrow> Some (-1, s)"
  shows "renameat os env dot1 dot2 olddirfd oldpath newdirfd newpath s = spec (os_rename os)
    \<and> linkat os env dot1 dot2 olddirfd oldpath newdirfd newpath flags s = spec (os_link os)"
proof -
  have two: "two_path_call env dot1 dot2 f olddirfd oldpath newdirfd newpath s = spec f" for f
    using two_path_run [OF assms(1-11), of f] assms(12) unfolding spec_def
    by (auto split: option.splits)
  moreover have "spec (os_rename os) = (case os_rename os (cwd s) oldpath newpath (disk s) of (r, w) \<Rightarrow> Some (r, s\<lparr>disk := w\<rparr>))"
    if "IS_AT_FDCWD olddirfd \<and> IS_AT_FDCWD newdirfd"
    using that by (simp add: spec_def full_name_def)
  ultimately show ?thesis by (simp add: renameat_def linkat_def)
qed

definition sample_path_env :: path_env where
  "sample_path_env = \<lparr>path_of = (\<lambda>d. if d = 7 then ''/srv'' else ''/''), usable = Ptr,
     fmt_buf = replicate 2048 (CHR ''z''), garbage = replicate 1024 (CHR ''z'')\<rparr>"

lemma sample_path_env_wf: "wf_env sample_path_env"
  by (simp add: wf_env_def sample_path_env_def wf_usable_def)

lemmas sample_names = sample_fs_def sample_path_env_def full_name_def absolute_def IS_AT_FDCWD_def AT_FDCWD_def
  AT_FDCWD_LINUX_def sample_os_def cat_def new_fd_def all_searchable_def

theorem renameat_linkat_full_names_witness:
  "renameat sample_os sample_path_env 3 3 4 ''a'' (-100) ''b'' sample_fs
     = Some (0, sample_fs\<lparr>disk := [''rename'', ''/srv/a'', ''b'']\<rparr>)
   \<and> linkat sample_os sample_path_env 3 3 9 ''a'' (-100) ''b'' 0 sample_fs = Some (-1, sample_fs)"
  using renameat_linkat_full_names [of sample_path_env sample_fs "''a''" "''b''" 3 3 4 "-100" sample_os 0]
    renameat_linkat_full_names [of sample_path_env sample_fs "''a''" "''b''" 3 3 9 "-100" sample_os 0]
    sample_path_env_wf
  by (simp add: sample_names)

text \<open>
  Names that do not fit are cut, not refused: the results of \<^verbatim>\<open>strlcpy\<close> and \<^verbatim>\<open>solcompat_snprintf\<close> are
  not looked at, so \<^verbatim>\<open>linkat\<close> acts on the first 1023 characters of a longer name, another file, where
  \<^verbatim>\<open>ENAMETOOLONG\<close> is due.
\<close>

lemma linkat_truncates:
  assumes "wf_env env" and "\<not> at_mutex s" and "wf_cstr oldpath" "length oldpath < 4096" "wf_cstr newpath" "length newpath < 4096"
    and "new_fd dot1 s" "new_fd dot2 s" "olddirfd \<noteq> dot1" "newdirfd \<noteq> dot2" "all_searchable s"
    and "full_name env olddirfd oldpath s = Some old" and "full_name env newdirfd newpath s = Some new"
    and "1024 \<le> length old" and "os_link os (cwd s) (take 1023 old) (take 1023 new) (disk s) = (r, w)"
  shows "take 1023 old \<noteq> old
    \<and> linkat os env dot1 dot2 olddirfd oldpath newdirfd newpath flags s = Some (r, s\<lparr>disk := w\<rparr>)"
  using two_path_run [OF assms(1-11), of "os_link os"] assms(12-15)
  by (auto simp: linkat_def dest: arg_cong [where f = length])

theorem linkat_truncates_witness:
  "linkat sample_os sample_path_env 3 3 (-100) (replicate 1030 CHR ''a'') (-100) ''b'' 0 sample_fs
     = Some (0, sample_fs\<lparr>disk := [''link'', replicate 1023 CHR ''a'', ''b'']\<rparr>)"
  using linkat_truncates [of sample_path_env sample_fs "replicate 1030 CHR ''a''" "''b''" 3 3 "-100" "-100"
      "replicate 1030 CHR ''a''" "''b''" sample_os 0 "[''link'', replicate 1023 CHR ''a'', ''b'']" 0]
    sample_path_env_wf
  by (simp add: sample_names wf_cstr_def)

text \<open>
  A descriptor that is closed when the call begins is taken over by the \<^verbatim>\<open>open(".")\<close> of \<^verbatim>\<open>at_enter\<close> when
  the system hands out that number: the call then acts in the working directory where \<^verbatim>\<open>EBADF\<close> is due.
\<close>

lemma at_call_closed_dirfd:
  assumes "\<not> at_mutex s" and "new_fd fd s" and "\<not> absolute path" and "f (cwd s) path (disk s) = (r, w)"
    and "searchable s (cwd s) (disk s)"
  shows "at_call fd fd path (do_call f path) s = Some (r, s\<lparr>disk := w\<rparr>)"
proof -
  have "0 \<le> fd" using assms(2) by (simp add: new_fd_def)
  then show ?thesis
    using at_call_run [OF assms(1), of fd fd path f] assms by (simp add: relative_def base_dir_def)
qed

text \<open>
  \<^verbatim>\<open>at_leave\<close> does not look at the result of \<^verbatim>\<open>fchdir\<close>: when the process may no longer enter its working directory,
  the call succeeds and leaves it in the other one.
\<close>

lemma at_leave_stranded:
  assumes "\<not> at_mutex s" and "new_fd dot s" and "\<not> absolute path" "\<not> IS_AT_FDCWD dirfd" "dirfd \<noteq> dot"
    and "fdtab s dirfd = Some (Dir d)" "searchable s d (disk s)" and "f d path (disk s) = (r, w)" "\<not> searchable s (cwd s) w"
  shows "at_call dot dirfd path (do_call f path) s = Some (r, s\<lparr>cwd := d, disk := w\<rparr>)"
proof -
  have "0 \<le> dot" using assms(2) by (simp add: new_fd_def)
  then show ?thesis
    using at_call_run [OF assms(1), of dot dirfd path f] assms by (simp add: relative_def base_dir_def)
qed

end
