(* ===== verification/Stdio.thy ===== *)
theory Stdio
  imports Snprintf
begin

text \<open>
  Formatted output and line input, \<open>src/src/stdio.c\<close>: \<open>vasprintf\<close>, \<open>asprintf\<close> and \<open>dprintf\<close> over
  \<open>solcompat_vsnprintf\<close>, \<open>getdelim\<close> and \<open>getline\<close>, \<open>preadv\<close> and \<open>pwritev\<close>, and the \<open>vscanf\<close> family.

  The answers of \<open>write\<close>, \<open>pread\<close> and \<open>pwrite\<close> are a sequence indexed by the number of the call: an
  error, or how many bytes it takes at most. The loop of \<open>dprintf\<close> has no bound of its own; it is a
  partial function whose \<open>None\<close> is a run that never returns.
\<close>

section \<open>Formatting to allocated memory\<close>

record aspf =
  as_ret :: int
  as_errno :: "errno option"
  as_str :: "cbuf ptr"

definition vasprintf ::
    "(nat \<Rightarrow> nat ptr) \<Rightarrow> (string \<Rightarrow> 'a \<Rightarrow> string option) \<Rightarrow> cbuf \<Rightarrow> (nat \<Rightarrow> cbuf ptr) \<Rightarrow> string \<Rightarrow> 'a \<Rightarrow> aspf option" where
  "vasprintf usable vsprintf fmt_buf malloc fmt ap = do {
     r \<leftarrow> solcompat_vsnprintf usable vsprintf fmt_buf NULL 0 fmt ap;
     let len = vr_ret r;
     if len < 0 then Some \<lparr>as_ret = -1, as_errno = vr_errno r, as_str = NULL\<rparr>
     else (case malloc (nat len + 1) of
             NULL \<Rightarrow> Some \<lparr>as_ret = -1, as_errno = Some ENOMEM, as_str = NULL\<rparr>
           | Ptr buf \<Rightarrow> do {
               r2 \<leftarrow> solcompat_vsnprintf usable vsprintf fmt_buf (Ptr buf) (nat len + 1) fmt ap;
               Some \<lparr>as_ret = len, as_errno = vr_errno r2, as_str = vr_str r2\<rparr> }) }"

definition asprintf where
  "asprintf usable vsprintf fmt_buf malloc fmt ap = vasprintf usable vsprintf fmt_buf malloc fmt ap"

section \<open>Writing to a descriptor\<close>

text \<open>What reached the descriptor, the number of \<open>write\<close> calls so far, the blocks allocated.\<close>

record dstate =
  d_out :: string
  d_calls :: nat
  d_live :: nat

type_synonym answers = "nat \<Rightarrow> errno + nat"

text \<open>A \<open>write\<close> takes at most the bytes it is given.\<close>

definition sys_write :: "answers \<Rightarrow> string \<Rightarrow> dstate \<Rightarrow> (errno + nat) \<times> dstate" where
  "sys_write ans data s =
     (let s' = s\<lparr>d_calls := d_calls s + 1\<rparr> in
      case ans (d_calls s) of
        Inl e \<Rightarrow> (Inl e, s')
      | Inr k \<Rightarrow> (Inr (min k (length data)), s'\<lparr>d_out := d_out s @ take k data\<rparr>))"

definition free_buf :: "dstate \<Rightarrow> dstate" where
  "free_buf s = s\<lparr>d_live := d_live s - 1\<rparr>"

partial_function (option) dprintf_loop :: "answers \<Rightarrow> cbuf \<Rightarrow> nat \<Rightarrow> nat \<Rightarrow> dstate \<Rightarrow> (int \<times> dstate) option" where
  "dprintf_loop ans buf len sum_bytes s =
     (if sum_bytes < len then
        (case sys_write ans (take (len - sum_bytes) (drop sum_bytes buf)) s of
           (Inl e, s) \<Rightarrow> if e = EINTR then dprintf_loop ans buf len sum_bytes s else Some (-1, free_buf s)
         | (Inr written, s) \<Rightarrow> dprintf_loop ans buf len (sum_bytes + written) s)
      else Some (int len, free_buf s))"

definition dprintf where
  "dprintf usable vsprintf fmt_buf malloc ans fmt ap s = do {
     r \<leftarrow> vasprintf usable vsprintf fmt_buf malloc fmt ap;
     (case as_str r of
        Ptr buf \<Rightarrow> if as_ret r < 0 then Some (-1, s)
          else dprintf_loop ans buf (nat (as_ret r)) 0 (s\<lparr>d_live := d_live s + 1\<rparr>)
      | NULL \<Rightarrow> if as_ret r < 0 then Some (-1, s) else None) }"

section \<open>Reading lines\<close>

definition GETDELIM_INITIAL_SIZE :: nat where "GETDELIM_INITIAL_SIZE = 128"

text \<open>
  The caller's pointer and size, the bytes the stream still has, the allocated blocks. \<open>realloc\<close> is a
  parameter like \<open>malloc\<close>: null, or an object of the size asked for that starts with the old contents.
\<close>

record gdstate =
  lineptr :: "cbuf ptr"
  line_n :: nat
  stream :: string
  gd_live :: nat

definition wf_realloc :: "(cbuf \<Rightarrow> nat \<Rightarrow> cbuf ptr) \<Rightarrow> bool" where
  "wf_realloc realloc \<longleftrightarrow> (\<forall>b n b'. realloc b n = Ptr b' \<longrightarrow> length b' = n
     \<and> take (min n (length b)) b' = take (min n (length b)) b)"

definition fgetc_val :: "char \<Rightarrow> int" where "fgetc_val c = of_char c"

text \<open>
  The loop, with \<open>pos\<close> characters stored: the error of a failed \<open>realloc\<close>, or the final position and
  whether the stream ended. The state's \<open>lineptr\<close> and \<open>line_n\<close> are \<open>buf\<close> and \<open>bufsize\<close>.
\<close>

fun getdelim_loop ::
    "(cbuf \<Rightarrow> nat \<Rightarrow> cbuf ptr) \<Rightarrow> int \<Rightarrow> string \<Rightarrow> cbuf \<Rightarrow> nat \<Rightarrow> nat \<Rightarrow> nat \<Rightarrow> ((errno + nat \<times> bool) \<times> gdstate) option" where
  "getdelim_loop realloc delim [] buf bufsize pos live =
     Some (Inr (pos, True), \<lparr>lineptr = Ptr buf, line_n = bufsize, stream = [], gd_live = live\<rparr>)"
| "getdelim_loop realloc delim (c # rest) buf bufsize pos live =
     (let bufsize' = (if pos + 1 \<ge> bufsize then sz (bufsize * 2) else bufsize) in
      case (if pos + 1 \<ge> bufsize then realloc buf bufsize' else Ptr buf) of
        NULL \<Rightarrow> Some (Inl ENOMEM, \<lparr>lineptr = Ptr buf, line_n = bufsize, stream = rest, gd_live = live\<rparr>)
      | Ptr buf \<Rightarrow> do {
          buf \<leftarrow> wr buf pos c;
          if fgetc_val c = delim
          then Some (Inr (pos + 1, False), \<lparr>lineptr = Ptr buf, line_n = bufsize', stream = rest, gd_live = live\<rparr>)
          else getdelim_loop realloc delim rest buf bufsize' (pos + 1) live })"

text \<open>After the loop: end of file with nothing read, or the terminator and the length.\<close>

definition getdelim_end :: "(errno + nat \<times> bool) \<times> gdstate \<Rightarrow> ((errno option + nat) \<times> gdstate) option" where
  "getdelim_end r = (case r of
       (Inl e, s) \<Rightarrow> Some (Inl (Some e), s)
     | (Inr (pos, eof), s) \<Rightarrow>
         if pos = 0 \<and> eof then Some (Inl None, s)
         else (case lineptr s of
                 NULL \<Rightarrow> None
               | Ptr buf \<Rightarrow> map_option (\<lambda>buf. (Inr pos, s\<lparr>lineptr := Ptr buf\<rparr>)) (wr buf pos NUL)))"

text \<open>\<open>null_arg\<close> is \<open>!lineptr || !n || !stream\<close>; \<open>Inl None\<close> is the return of -1 without an error number.\<close>

definition getdelim ::
    "(nat \<Rightarrow> cbuf ptr) \<Rightarrow> (cbuf \<Rightarrow> nat \<Rightarrow> cbuf ptr) \<Rightarrow> bool \<Rightarrow> int \<Rightarrow> gdstate
     \<Rightarrow> ((errno option + nat) \<times> gdstate) option" where
  "getdelim malloc realloc null_arg delim s =
     (if null_arg then Some (Inl (Some EINVAL), s)
      else if lineptr s = NULL \<or> line_n s = 0 then
        (case malloc GETDELIM_INITIAL_SIZE of
           NULL \<Rightarrow> Some (Inl (Some ENOMEM), s)
         | Ptr buf \<Rightarrow>
             Option.bind (getdelim_loop realloc delim (stream s) buf GETDELIM_INITIAL_SIZE 0 (gd_live s + 1))
               getdelim_end)
      else
        (case lineptr s of
           NULL \<Rightarrow> None
         | Ptr buf \<Rightarrow>
             Option.bind (getdelim_loop realloc delim (stream s) buf (line_n s) 0 (gd_live s)) getdelim_end))"

definition getline where
  "getline malloc realloc null_arg s = getdelim malloc realloc null_arg 10 s"

section \<open>Scattered reads and writes\<close>

text \<open>The contents of the file and the number of calls made.\<close>

record iostate =
  io_file :: string
  io_calls :: nat

definition write_at :: "string \<Rightarrow> nat \<Rightarrow> string \<Rightarrow> string" where
  "write_at f off d = (if d = [] then f
     else take off (f @ replicate (off - length f) NUL) @ d @ drop (off + length d) f)"

definition pwrite :: "answers \<Rightarrow> string \<Rightarrow> nat \<Rightarrow> iostate \<Rightarrow> (errno + nat) \<times> iostate" where
  "pwrite ans data off s =
     (let s' = s\<lparr>io_calls := io_calls s + 1\<rparr> in
      case ans (io_calls s) of
        Inl e \<Rightarrow> (Inl e, s')
      | Inr k \<Rightarrow> (Inr (min k (length data)), s'\<lparr>io_file := write_at (io_file s) off (take k data)\<rparr>))"

text \<open>\<open>pread\<close> into an object: the answer bounds the bytes, and the end of the file does.\<close>

definition pread :: "answers \<Rightarrow> cbuf \<Rightarrow> nat \<Rightarrow> iostate \<Rightarrow> (errno + nat) \<times> cbuf \<times> iostate" where
  "pread ans buf off s =
     (let s' = s\<lparr>io_calls := io_calls s + 1\<rparr> in
      case ans (io_calls s) of
        Inl e \<Rightarrow> (Inl e, buf, s')
      | Inr k \<Rightarrow> (let d = take (min k (length buf)) (drop off (io_file s))
                 in (Inr (length d), d @ drop (length d) buf, s')))"

fun preadv_loop :: "answers \<Rightarrow> cbuf list \<Rightarrow> nat \<Rightarrow> nat \<Rightarrow> iostate \<Rightarrow> (errno + nat) \<times> cbuf list \<times> iostate" where
  "preadv_loop ans [] offset sum_bytes s = (Inr sum_bytes, [], s)"
| "preadv_loop ans (b # iov) offset sum_bytes s =
     (if length b = 0 then (case preadv_loop ans iov offset sum_bytes s of (r, iov, s) \<Rightarrow> (r, b # iov, s))
      else case pread ans b offset s of
             (Inl e, b, s) \<Rightarrow> (if sum_bytes > 0 then Inr sum_bytes else Inl e, b # iov, s)
           | (Inr bytes, b, s) \<Rightarrow>
               if bytes = 0 then (Inr sum_bytes, b # iov, s)
               else if bytes < length b then (Inr (sum_bytes + bytes), b # iov, s)
               else (case preadv_loop ans iov (offset + bytes) (sum_bytes + bytes) s of (r, iov, s) \<Rightarrow> (r, b # iov, s)))"

definition preadv where
  "preadv ans iov offset s = preadv_loop ans iov offset 0 s"

fun pwritev_loop :: "answers \<Rightarrow> string list \<Rightarrow> nat \<Rightarrow> nat \<Rightarrow> iostate \<Rightarrow> (errno + nat) \<times> iostate" where
  "pwritev_loop ans [] offset sum_bytes s = (Inr sum_bytes, s)"
| "pwritev_loop ans (b # iov) offset sum_bytes s =
     (if length b = 0 then pwritev_loop ans iov offset sum_bytes s
      else case pwrite ans b offset s of
             (Inl e, s) \<Rightarrow> (if sum_bytes > 0 then Inr sum_bytes else Inl e, s)
           | (Inr bytes, s) \<Rightarrow>
               if bytes < length b then (Inr (sum_bytes + bytes), s)
               else pwritev_loop ans iov (offset + bytes) (sum_bytes + bytes) s)"

definition pwritev where
  "pwritev ans iov offset s = pwritev_loop ans iov offset 0 s"

section \<open>Formatted input\<close>

text \<open>
  \<open>doscan\<close> stands for the C library's \<open>_doscan\<close>: the conversions made and the input left. The
  temporary file of \<open>vsscanf\<close> holds what \<open>fputs\<close> could store of the string.
\<close>

definition vfscanf :: "(string \<Rightarrow> string \<Rightarrow> 'v \<Rightarrow> int \<times> string \<times> 'v) \<Rightarrow> string \<Rightarrow> string \<Rightarrow> 'v \<Rightarrow> int \<times> string \<times> 'v" where
  "vfscanf doscan inp fmt ap = doscan inp fmt ap"

definition vscanf where
  "vscanf doscan stdin fmt ap = vfscanf doscan stdin fmt ap"

definition vsscanf ::
    "(string \<Rightarrow> string \<Rightarrow> 'v \<Rightarrow> int \<times> string \<times> 'v) \<Rightarrow> (string \<Rightarrow> string) ptr \<Rightarrow> string \<Rightarrow> string \<Rightarrow> 'v \<Rightarrow> int \<times> 'v" where
  "vsscanf doscan tmpfile str fmt ap =
     (case tmpfile of
        NULL \<Rightarrow> (-1, ap)
      | Ptr fputs \<Rightarrow> (case vfscanf doscan (fputs str) fmt ap of (result, _, ap) \<Rightarrow> (result, ap)))"

section \<open>Formatting and writing\<close>

lemma bounded_result_exact: "length b = length s + 1 \<Longrightarrow> bounded_result b s (length s + 1) = s @ [NUL]"
  by (simp add: bounded_result_def)

lemma vasprintf_text:
  assumes "preprocess_fmt fmt fmt_buf 2048 = Some f" and "vsprintf f ap = Some t"
    and "wf_usable usable" "usable STACK_BUF_SIZE = Ptr cap" "length t < STACK_BUF_SIZE" and "wf_malloc malloc"
  shows "vasprintf usable vsprintf fmt_buf malloc fmt ap = Some (case malloc (length t + 1) of
      NULL \<Rightarrow> \<lparr>as_ret = -1, as_errno = Some ENOMEM, as_str = NULL\<rparr>
    | Ptr _ \<Rightarrow> \<lparr>as_ret = int (length t), as_errno = None, as_str = Ptr (t @ [NUL])\<rparr>)"
proof -
  have measure: "solcompat_vsnprintf usable vsprintf fmt_buf NULL 0 fmt ap =
      Some \<lparr>vr_ret = int (length t), vr_errno = None, vr_str = NULL\<rparr>"
    using vsnprintf_fits [of fmt fmt_buf f vsprintf ap t usable cap 0 NULL] assms(1-5) by (simp add: fits_in_def stored_def)
  have "solcompat_vsnprintf usable vsprintf fmt_buf (Ptr b) (length t + 1) fmt ap =
      Some \<lparr>vr_ret = int (length t), vr_errno = None, vr_str = Ptr (t @ [NUL])\<rparr>" if "length b = length t + 1" for b
    using vsnprintf_bounded [of fmt fmt_buf f vsprintf ap t usable cap "length t + 1" b] assms(1-5)
      bounded_result_exact [OF that] that by simp
  with measure show ?thesis
    using wf_mallocD [OF assms(6)] by (auto simp: vasprintf_def split: ptr.split)
qed

text \<open>An answer that ends the waiting: an error other than an interruption, or some bytes.\<close>

fun useful :: "errno + nat \<Rightarrow> bool" where
  "useful (Inl e) \<longleftrightarrow> e \<noteq> EINTR"
| "useful (Inr k) \<longleftrightarrow> 0 < k"

definition fair :: "answers \<Rightarrow> bool" where
  "fair ans \<longleftrightarrow> (\<forall>k. \<exists>j\<ge>k. useful (ans j))"

definition no_error :: "answers \<Rightarrow> bool" where
  "no_error ans \<longleftrightarrow> (\<forall>k e. ans k = Inl e \<longrightarrow> e = EINTR)"

text \<open>What a run of the loop may end with: a prefix is out, all of it exactly when it succeeds.\<close>

definition dprintf_post :: "answers \<Rightarrow> string \<Rightarrow> dstate \<Rightarrow> int \<times> dstate \<Rightarrow> bool" where
  "dprintf_post ans t s r \<longleftrightarrow> d_live (snd r) = d_live s - 1 \<and>
     (fst r = -1 \<and> \<not> no_error ans \<and> (\<exists>m. d_out (snd r) = d_out s @ take m t) \<or>
      0 \<le> fst r \<and> d_out (snd r) = d_out s @ t)"

lemma dprintf_post_step:
  assumes "dprintf_post ans (drop k t) s' r" and "d_live s' = d_live s" and "d_out s' = d_out s @ take k t"
  shows "dprintf_post ans t s r"
  using assms unfolding dprintf_post_def
  by (auto simp: append_take_drop_id intro: exI [where x = "k + m" for m] simp flip: take_add)

text \<open>One pass of the loop: an error ends it, an interruption or an empty write repeats it.\<close>

lemma dprintf_loop_step:
  assumes "n < length t"
  shows "dprintf_loop ans (t @ [NUL]) (length t) n s = (case ans (d_calls s) of
      Inl e \<Rightarrow> if e = EINTR then dprintf_loop ans (t @ [NUL]) (length t) n (s\<lparr>d_calls := d_calls s + 1\<rparr>)
               else Some (-1, free_buf (s\<lparr>d_calls := d_calls s + 1\<rparr>))
    | Inr k \<Rightarrow> dprintf_loop ans (t @ [NUL]) (length t) (n + min k (length t - n))
                (s\<lparr>d_calls := d_calls s + 1, d_out := d_out s @ take k (drop n t)\<rparr>))"
  using assms by (subst dprintf_loop.simps) (auto simp: sys_write_def Let_def split: sum.split)

lemma dprintf_loop_returns:
  assumes "fair ans" and "n \<le> length t"
  shows "\<exists>r. dprintf_loop ans (t @ [NUL]) (length t) n s = Some r
    \<and> dprintf_post ans (drop n t) s r \<and> (0 \<le> fst r \<longrightarrow> fst r = int (length t))"
  using assms(2)
proof (induction "length t - n" arbitrary: n s rule: less_induct)
  case less
  obtain j where "j \<ge> d_calls s" "useful (ans j)" using assms(1) by (auto simp: fair_def)
  then show ?case
  proof (induction "j - d_calls s" arbitrary: s rule: less_induct)
    case inner: less
    show ?case
    proof (cases "n < length t")
      case True
      note step = dprintf_loop_step [OF True, of ans s]
      have again: ?thesis if "\<not> useful (ans (d_calls s))"
      proof -
        let ?s = "s\<lparr>d_calls := d_calls s + 1\<rparr>"
        have "j \<noteq> d_calls s" using that inner.prems by auto
        then have "j - d_calls ?s < j - d_calls s" "d_calls ?s \<le> j" using inner.prems by auto
        then obtain r where "dprintf_loop ans (t @ [NUL]) (length t) n ?s = Some r" "dprintf_post ans (drop n t) ?s r"
          "0 \<le> fst r \<longrightarrow> fst r = int (length t)"
          using inner.hyps [of ?s] inner.prems by blast
        with that step show ?thesis
          by (cases "ans (d_calls s)") (auto simp: dprintf_post_def)
      qed
      show ?thesis
      proof (cases "ans (d_calls s)")
        case (Inl e)
        have "\<not> no_error ans" if "e \<noteq> EINTR" using that Inl by (auto simp: no_error_def)
        with Inl step again show ?thesis
          by (cases "e = EINTR") (auto simp: free_buf_def dprintf_post_def intro: exI [where x = 0])
      next
        case (Inr k)
        let ?k = "min k (length t - n)"
        let ?s = "s\<lparr>d_calls := d_calls s + 1, d_out := d_out s @ take k (drop n t)\<rparr>"
        show ?thesis
        proof (cases "k = 0")
          case False
          then have "length t - (n + ?k) < length t - n" "n + ?k \<le> length t" using True by auto
          then obtain r where r: "dprintf_loop ans (t @ [NUL]) (length t) (n + ?k) ?s = Some r"
            "dprintf_post ans (drop (n + ?k) t) ?s r" "0 \<le> fst r \<longrightarrow> fst r = int (length t)"
            using less.hyps [of "n + ?k" ?s] by blast
          have same: "d_out ?s = d_out s @ take ?k (drop n t)" by (simp add: min_def)
          have "dprintf_post ans (drop ?k (drop n t)) ?s r" using r(2) by (simp add: add.commute)
          then have "dprintf_post ans (drop n t) s r" by (rule dprintf_post_step [OF _ _ same]) simp
          with step Inr r show ?thesis by auto
        qed (use again Inr in simp)
      qed
    next
      case False
      with less.prems show ?thesis
        by (subst dprintf_loop.simps) (auto simp: dprintf_post_def free_buf_def)
    qed
  qed
qed

section \<open>Lines\<close>

text \<open>The next line of a text, with its delimiter, and what follows.\<close>

fun line_of :: "int \<Rightarrow> string \<Rightarrow> string \<times> string" where
  "line_of d [] = ([], [])"
| "line_of d (c # cs) = (if fgetc_val c = d then ([c], cs) else (c # fst (line_of d cs), snd (line_of d cs)))"

lemma line_of_append: "fst (line_of d xs) @ snd (line_of d xs) = xs"
  by (induction xs) auto

lemma line_of_Nil_iff: "fst (line_of d xs) = [] \<longleftrightarrow> xs = []"
  by (cases xs) auto

lemma line_of_delim:
  "fst (line_of d xs) = ys @ [c] \<Longrightarrow> (\<forall>y \<in> set ys. fgetc_val y \<noteq> d) \<and> (fgetc_val c = d \<or> snd (line_of d xs) = [])"
proof (induction xs arbitrary: ys)
  case (Cons x xs)
  show ?case
  proof (cases "fgetc_val x = d")
    case False
    show ?thesis
    proof (cases ys)
      case Nil
      then show ?thesis using Cons.prems False by (cases xs) (auto split: if_splits)
    next
      case (Cons y ys')
      then show ?thesis using Cons.IH [of ys'] Cons.prems False by auto
    qed
  qed (use Cons.prems in auto)
qed simp

definition wf_gd :: "gdstate \<Rightarrow> bool" where
  "wf_gd s \<longleftrightarrow> (case lineptr s of NULL \<Rightarrow> True | Ptr b \<Rightarrow> line_n s \<le> length b)"

text \<open>What the loop ends with: the caller's buffer valid, and the line in it unless \<open>realloc\<close> failed.\<close>

definition loop_post ::
    "(cbuf \<Rightarrow> nat \<Rightarrow> cbuf ptr) \<Rightarrow> int \<Rightarrow> string \<Rightarrow> string \<Rightarrow> nat \<Rightarrow> (errno + nat \<times> bool) \<times> gdstate \<Rightarrow> bool" where
  "loop_post realloc d w xs live = (\<lambda>(r, s).
     \<exists>b. lineptr s = Ptr b \<and> 0 < line_n s \<and> line_n s \<le> length b \<and> gd_live s = live \<and>
       (case r of
          Inl e \<Rightarrow> e = ENOMEM \<and> (\<exists>b n. realloc b n = NULL)
        | Inr (p, eof) \<Rightarrow> p = length w + length (fst (line_of d xs)) \<and> p < line_n s
            \<and> take p b = w @ fst (line_of d xs) \<and> stream s = snd (line_of d xs) \<and> (xs = [] \<longrightarrow> eof)))"

lemma loop_post_step:
  assumes "loop_post realloc d (w @ [c]) xs live r" and "fgetc_val c \<noteq> d"
  shows "loop_post realloc d w (c # xs) live r"
proof -
  obtain x s where r: "r = (x, s)" by (cases r)
  show ?thesis using assms by (cases x) (auto simp: loop_post_def r)
qed

lemma getdelim_loop_run:
  assumes "wf_realloc realloc" and "n \<le> length buf" and "length w < n" and "take (length w) buf = w"
    and "length w + length xs < 2 ^ 31"
  shows "\<exists>r. getdelim_loop realloc d xs buf n (length w) live = Some r \<and> loop_post realloc d w xs live r"
  using assms(2-)
proof (induction xs arbitrary: buf n w)
  case Nil
  then show ?case by (auto simp: loop_post_def)
next
  case (Cons c xs)
  let ?grow = "length w + 1 \<ge> n"
  let ?n = "if ?grow then sz (n * 2) else n"
  have n: "?n = (if ?grow then n * 2 else n)"
  proof (cases ?grow)
    case True
    then have "n * 2 < 2 ^ 32" using Cons.prems by simp
    then show ?thesis using True by simp
  qed simp
  show ?case
  proof (cases "if ?grow then realloc buf ?n else Ptr buf")
    case NULL
    then have "?grow" "realloc buf ?n = NULL" by (auto split: if_splits)
    with NULL show ?thesis using Cons.prems by (auto simp: loop_post_def)
  next
    case (Ptr b)
    have b: "?n \<le> length b \<and> take (length w) b = w"
    proof (cases ?grow)
      case True
      then have "length b = n * 2" "take (min (n * 2) (length buf)) b = take (min (n * 2) (length buf)) buf"
        using Ptr assms(1) n by (auto simp: wf_realloc_def)
      then have "take (length w) b = take (length w) buf"
        using Cons.prems by (metis (no_types) min.absorb1 min_less_iff_conj take_take less_imp_le mult_2_right trans_less_add1 less_le_trans)
      with \<open>length b = n * 2\<close> n True Cons.prems show ?thesis by simp
    qed (use Ptr Cons.prems n in auto)
    have pos: "length w + 1 < ?n" using n Cons.prems by auto
    then have wr: "wr b (length w) c = Some (w @ c # drop (Suc (length w)) b)"
      using b by (auto simp: wr_def upd_conv_take_nth_drop)
    let ?b = "w @ c # drop (Suc (length w)) b"
    have len: "length ?b = length b" using pos b by auto
    show ?thesis
    proof (cases "fgetc_val c = d")
      case True
      then show ?thesis using Ptr wr b pos len by (auto simp: loop_post_def Let_def)
    next
      case False
      obtain r where "getdelim_loop realloc d xs ?b ?n (length (w @ [c])) live = Some r"
        "loop_post realloc d (w @ [c]) xs live r"
        using Cons.IH [of ?n ?b "w @ [c]"] b len pos Cons.prems by auto
      then show ?thesis
        using Ptr wr False loop_post_step [of realloc d w c xs live r] by (intro exI [of _ r]) (auto simp: Let_def)
    qed
  qed
qed

lemma getdelim_end_post:
  assumes "loop_post realloc d [] xs live r"
  shows "\<exists>q s'. getdelim_end r = Some (q, s') \<and> wf_gd s' \<and> gd_live s' = live \<and>
    (case fst r of
       Inl e \<Rightarrow> q = Inl (Some ENOMEM) \<and> (\<exists>b n. realloc b n = NULL)
     | Inr _ \<Rightarrow> stream s' = snd (line_of d xs) \<and>
         (if xs = [] then q = Inl None
          else q = Inr (length (fst (line_of d xs))) \<and>
            (\<exists>b. lineptr s' = Ptr b \<and> take (length (fst (line_of d xs)) + 1) b = fst (line_of d xs) @ [NUL])))"
proof -
  obtain x s where r: "r = (x, s)" by (cases r)
  show ?thesis
  proof (cases x)
    case (Inr pe)
    obtain p eof where pe: "pe = (p, eof)" by (cases pe)
    let ?l = "fst (line_of d xs)"
    obtain b where b: "lineptr s = Ptr b" "line_n s \<le> length b" "p = length ?l" "p < line_n s" "take p b = ?l"
      "stream s = snd (line_of d xs)" "xs = [] \<longrightarrow> eof" "gd_live s = live"
      using assms by (auto simp: loop_post_def r Inr pe)
    have "wr b p NUL = Some (b[p := NUL])" "take (p + 1) (b[p := NUL]) = ?l @ [NUL]"
      using b(2,4,5) by (simp_all add: wr_def take_Suc_conv_app_nth)
    moreover have "p = 0 \<longleftrightarrow> xs = []" using b(3) by (simp add: line_of_Nil_iff)
    ultimately show ?thesis using b by (auto simp: r Inr pe getdelim_end_def wf_gd_def)
  qed (use assms in \<open>auto simp: r loop_post_def getdelim_end_def wf_gd_def\<close>)
qed

text \<open>Whether the call allocates a block of its own.\<close>

abbreviation fresh_line :: "gdstate \<Rightarrow> bool" where
  "fresh_line s \<equiv> lineptr s = NULL \<or> line_n s = 0"

lemma getdelim_run:
  assumes "wf_malloc malloc" and "wf_realloc realloc" and "wf_gd s" and "length (stream s) < 2 ^ 31"
    and "fresh_line s \<Longrightarrow> malloc GETDELIM_INITIAL_SIZE \<noteq> NULL"
  obtains r where "loop_post realloc d [] (stream s) (gd_live s + (if fresh_line s then 1 else 0)) r"
    and "getdelim malloc realloc False d s = getdelim_end r"
proof -
  have "\<exists>r. loop_post realloc d [] (stream s) (gd_live s + (if fresh_line s then 1 else 0)) r
    \<and> getdelim malloc realloc False d s = getdelim_end r"
  proof (cases "fresh_line s")
    case True
    then obtain buf where "malloc GETDELIM_INITIAL_SIZE = Ptr buf" using assms(5) by (cases "malloc GETDELIM_INITIAL_SIZE") auto
    with wf_mallocD [OF assms(1) this] obtain r where
      "getdelim_loop realloc d (stream s) buf 128 0 (gd_live s + 1) = Some r" "loop_post realloc d [] (stream s) (gd_live s + 1) r"
      using getdelim_loop_run [OF assms(2), of 128 buf "[]" "stream s" d "gd_live s + 1"] assms(4)
      by (auto simp: GETDELIM_INITIAL_SIZE_def)
    with True \<open>malloc GETDELIM_INITIAL_SIZE = Ptr buf\<close> show ?thesis
      by (intro exI [of _ r]) (simp add: getdelim_def GETDELIM_INITIAL_SIZE_def)
  next
    case False
    then obtain buf where buf: "lineptr s = Ptr buf" by (cases "lineptr s") auto
    with False obtain r where
      "getdelim_loop realloc d (stream s) buf (line_n s) 0 (gd_live s) = Some r" "loop_post realloc d [] (stream s) (gd_live s) r"
      using getdelim_loop_run [OF assms(2), of "line_n s" buf "[]" "stream s" d "gd_live s"] assms(3,4)
      by (auto simp: wf_gd_def)
    with False buf show ?thesis by (intro exI [of _ r]) (simp add: getdelim_def)
  qed
  then show ?thesis using that by blast
qed

section \<open>Scattered transfers\<close>

lemma write_at_Nil [simp]: "write_at f off [] = f"
  by (simp add: write_at_def)

lemma write_at_append: "write_at (write_at f off a) (off + length a) b = write_at f off (a @ b)"
proof (cases "a = [] \<or> b = []")
  case False
  let ?g = "take off (f @ replicate (off - length f) NUL)"
  have "length ?g = off" by simp
  then show ?thesis
    using False by (simp add: write_at_def add.commute add.left_commute)
qed (auto simp: write_at_def)

lemma read_write_at: "d \<noteq> [] \<Longrightarrow> take (length d) (drop off (write_at f off d)) = d"
  by (simp add: write_at_def)

lemma pwritev_loop_run:
  "\<exists>m e. snd (pwritev_loop ans iov off n s) = s\<lparr>io_file := write_at (io_file s) off (take m (concat iov)),
       io_calls := io_calls (snd (pwritev_loop ans iov off n s))\<rparr>
     \<and> m \<le> length (concat iov)
     \<and> fst (pwritev_loop ans iov off n s) \<in> {Inr (n + m)} \<union> (if n + m = 0 then {Inl e} else {})"
proof (induction iov arbitrary: off n s)
  case Nil
  show ?case by (intro exI [of _ 0]) simp
next
  case (Cons b iov)
  show ?case
  proof (cases "b = [] \<or> (\<exists>e. ans (io_calls s) = Inl e)")
    case True
    then show ?thesis
    proof
      assume "b = []"
      then show ?thesis using Cons [of off n s] by simp
    next
      assume "\<exists>e. ans (io_calls s) = Inl e"
      then show ?thesis
        using Cons [of off n s] by (cases "b = []"; cases "n = 0") (auto simp: pwrite_def intro!: exI [of _ 0])
    qed
  next
    case False
    then obtain k where k: "ans (io_calls s) = Inr k" by (cases "ans (io_calls s)") auto
    let ?s = "s\<lparr>io_calls := io_calls s + 1, io_file := write_at (io_file s) off (take k b)\<rparr>"
    show ?thesis
    proof (cases "k < length b")
      case True
      then show ?thesis using False k by (auto simp: pwrite_def intro!: exI [of _ k])
    next
      case full: False
      have eq: "pwritev_loop ans (b # iov) off n s = pwritev_loop ans iov (off + length b) (n + length b) ?s"
        using False k full by (simp add: pwrite_def min_def)
      obtain m e where m: "snd (pwritev_loop ans iov (off + length b) (n + length b) ?s) =
          ?s\<lparr>io_file := write_at (io_file ?s) (off + length b) (take m (concat iov)),
             io_calls := io_calls (snd (pwritev_loop ans iov (off + length b) (n + length b) ?s))\<rparr>"
        "m \<le> length (concat iov)"
        "fst (pwritev_loop ans iov (off + length b) (n + length b) ?s)
          \<in> {Inr (n + length b + m)} \<union> (if n + length b + m = 0 then {Inl e} else {})"
        using Cons [of "off + length b" "n + length b" ?s] by blast
      have "take k b = b" using full by simp
      then have "write_at (io_file ?s) (off + length b) (take m (concat iov))
          = write_at (io_file s) off (take (length b + m) (concat (b # iov)))"
        by (simp add: write_at_append)
      with m False show ?thesis unfolding eq
        by (intro exI [of _ "length b + m"] exI [of _ e]) (auto simp: add.assoc)
    qed
  qed
qed

lemma preadv_loop_run:
  "preadv_loop ans iov off n s = (r, iov', s') \<Longrightarrow>
   \<exists>m e. io_file s' = io_file s \<and> map length iov' = map length iov \<and> m \<le> length (drop off (io_file s))
     \<and> m \<le> length (concat iov)
     \<and> concat iov' = take m (drop off (io_file s)) @ drop m (concat iov)
     \<and> r \<in> {Inr (n + m)} \<union> (if n + m = 0 then {Inl e} else {})"
proof (induction iov arbitrary: off n s r iov' s')
  case Nil
  then show ?case by (intro exI [of _ 0]) auto
next
  case (Cons b iov)
  have empty: ?case if emp: "b = []"
  proof -
    obtain iov2 where rec: "preadv_loop ans iov off n s = (r, iov2, s')" "iov' = [] # iov2"
      using Cons.prems emp by (auto split: prod.splits)
    show ?thesis using Cons.IH [OF rec(1)] emp rec(2) by simp
  qed
  show ?case
  proof (cases "ans (io_calls s)")
    case (Inl e)
    then show ?thesis
    proof (cases "b = []")
      case True
      then show ?thesis by (rule empty)
    next
      case False
      with Inl Cons.prems show ?thesis
        by (cases "n = 0") (auto simp: pread_def intro!: exI [of _ 0] intro: sym)
    qed
  next
    case (Inr k)
    define d where "d = take (min k (length b)) (drop off (io_file s))"
    have d: "length d \<le> length b" "d = take (length d) (drop off (io_file s))" "length d \<le> length (drop off (io_file s))"
      unfolding d_def by (simp, metis length_take take_take min.idem min.commute take_all_iff length_drop linear min.absorb2, simp)
    let ?s = "s\<lparr>io_calls := io_calls s + 1\<rparr>"
    consider "b = []" | "b \<noteq> []" "length d < length b" | "b \<noteq> []" "length d = length b"
      using d(1) by linarith
    then show ?thesis
    proof cases
      case 1
      then show ?thesis by (rule empty)
    next
      case 2
      have "r = Inr (n + length d)" "iov' = (d @ drop (length d) b) # iov" "s' = ?s"
        using Cons.prems 2 Inr by (auto simp: pread_def Let_def simp flip: d_def split: if_splits)
      with 2 d show ?thesis by (intro exI [of _ "length d"]) auto
    next
      case 3
      then have "d \<noteq> []" by auto
      obtain iov2 where rec: "preadv_loop ans iov (off + length b) (n + length b) ?s = (r, iov2, s')" "iov' = d # iov2"
        using Cons.prems 3 Inr \<open>d \<noteq> []\<close> by (auto simp: pread_def Let_def simp flip: d_def split: prod.splits)
      obtain m e where m: "io_file s' = io_file s" "map length iov2 = map length iov"
        "m \<le> length (drop (off + length b) (io_file s))" "m \<le> length (concat iov)"
        "concat iov2 = take m (drop (off + length b) (io_file s)) @ drop m (concat iov)"
        "r \<in> {Inr (n + length b + m)} \<union> (if n + length b + m = 0 then {Inl e} else {})"
        using Cons.IH [OF rec(1)] by auto
      have "d @ take m (drop (off + length b) (io_file s)) = take (length b + m) (drop off (io_file s))"
        using d 3 by (metis take_add drop_drop add.commute)
      with m d 3 rec(2) show ?thesis
        by (intro exI [of _ "length b + m"] exI [of _ e]) (auto simp: add.assoc simp flip: append_assoc)
    qed
  qed
qed

lemma pwritev_Inr:
  assumes "pwritev ans iov off s = (Inr m, t)"
  shows "io_file t = write_at (io_file s) off (take m (concat iov))" "m \<le> length (concat iov)"
proof -
  obtain m' where "t = s\<lparr>io_file := write_at (io_file s) off (take m' (concat iov)), io_calls := io_calls t\<rparr>"
    "m' \<le> length (concat iov)" "m' = m"
    using pwritev_loop_run [of ans iov off 0 s] assms by (auto simp: pwritev_def split: if_splits)
  then show "io_file t = write_at (io_file s) off (take m (concat iov))" "m \<le> length (concat iov)"
    by (auto dest: arg_cong [where f = io_file])
qed

lemma preadv_Inr:
  assumes "preadv ans bufs off t = (Inr k, bufs', u)"
  shows "io_file u = io_file t \<and> map length bufs' = map length bufs
    \<and> concat bufs' = take k (drop off (io_file t)) @ drop k (concat bufs)"
  using preadv_loop_run [of ans bufs off 0 t "Inr k" bufs' u] assms by (auto simp: preadv_def split: if_splits)

section \<open>Properties\<close>

text \<open>
\<^verbatim>\<open>vasprintf\<close> gives an object that holds exactly the formatted text and its terminator, and the
  text's length; when \<^verbatim>\<open>malloc\<close> fails it returns -1 with a null pointer and \<^verbatim>\<open>ENOMEM\<close>.
\<close>

theorem vasprintf_exact:
  assumes "preprocess_fmt fmt fmt_buf 2048 = Some f" and "vsprintf f ap = Some t"
    and "wf_usable usable" "usable STACK_BUF_SIZE = Ptr cap" "length t < STACK_BUF_SIZE" and "wf_malloc malloc"
  shows "asprintf usable vsprintf fmt_buf malloc fmt ap = Some (case malloc (length t + 1) of
      NULL \<Rightarrow> \<lparr>as_ret = -1, as_errno = Some ENOMEM, as_str = NULL\<rparr>
    | Ptr _ \<Rightarrow> \<lparr>as_ret = int (length t), as_errno = None, as_str = Ptr (t @ [NUL])\<rparr>)"
  unfolding asprintf_def using assms by (rule vasprintf_text)

lemma hi_fmt: "preprocess_fmt ''hi'' (replicate 2048 NUL) 2048 = Some ''hi''"
  using preprocess_fmt_pieces [of "[Lit CHR ''h'', Lit CHR ''i'']" "replicate 2048 NUL" 2048] by simp

definition zeroed :: "nat \<Rightarrow> cbuf ptr" where "zeroed n = Ptr (replicate n NUL)"

theorem vasprintf_exact_witness:
  "asprintf Ptr text_vsprintf (replicate 2048 NUL) zeroed ''hi'' ''abc'' =
     Some \<lparr>as_ret = 3, as_errno = None, as_str = Ptr (''abc'' @ [NUL])\<rparr>"
  using vasprintf_exact [OF hi_fmt, of text_vsprintf "''abc''" "''abc''" Ptr 8192 zeroed]
  by (simp add: text_vsprintf_def wf_usable_def STACK_BUF_SIZE_def wf_malloc_def zeroed_def)

text \<open>
  C21. \<^verbatim>\<open>dprintf\<close> returns and writes everything: for a text below 8192 bytes whose buffer can be allocated, whatever the mix of interruptions and short writes, as
  long as some \<^verbatim>\<open>write\<close> makes progress or fails again and again, the loop ends; the bytes on the
  descriptor are exactly the formatted text in order when the length is returned, a prefix of it when
  -1 is returned, which needs an error other than \<^verbatim>\<open>EINTR\<close>; the buffer is freed either way.
\<close>

theorem dprintf_writes_all:
  assumes "preprocess_fmt fmt fmt_buf 2048 = Some f" and "vsprintf f ap = Some t"
    and "wf_usable usable" "usable STACK_BUF_SIZE = Ptr cap" "length t < STACK_BUF_SIZE" and "wf_malloc malloc"
    and "malloc (length t + 1) = Ptr b" and "fair ans"
  shows "\<exists>r s'. dprintf usable vsprintf fmt_buf malloc ans fmt ap s = Some (r, s') \<and> d_live s' = d_live s
    \<and> (r = int (length t) \<and> d_out s' = d_out s @ t
       \<or> r = -1 \<and> \<not> no_error ans \<and> (\<exists>m. d_out s' = d_out s @ take m t))"
proof -
  have "vasprintf usable vsprintf fmt_buf malloc fmt ap =
      Some \<lparr>as_ret = int (length t), as_errno = None, as_str = Ptr (t @ [NUL])\<rparr>"
    using vasprintf_text [of fmt fmt_buf f vsprintf ap t usable cap malloc] assms by simp
  moreover obtain r where r: "dprintf_loop ans (t @ [NUL]) (length t) 0 (s\<lparr>d_live := d_live s + 1\<rparr>) = Some r"
    "dprintf_post ans t (s\<lparr>d_live := d_live s + 1\<rparr>) r" "0 \<le> fst r \<longrightarrow> fst r = int (length t)"
    using dprintf_loop_returns [OF assms(8), of 0 t "s\<lparr>d_live := d_live s + 1\<rparr>"] by auto
  ultimately have "dprintf usable vsprintf fmt_buf malloc ans fmt ap s = Some r" by (simp add: dprintf_def)
  with r show ?thesis by (cases r) (auto simp: dprintf_post_def)
qed

text \<open>An interrupted, slow descriptor: every other call is interrupted, the others take one byte.\<close>

definition slow_fd :: answers where
  "slow_fd k = (if even k then Inl EINTR else Inr 1)"

lemma slow_fd_fair: "fair slow_fd" "no_error slow_fd"
proof -
  have "\<exists>j\<ge>k. useful (slow_fd j)" for k
    by (rule exI [of _ "2 * k + 1"]) (simp add: slow_fd_def)
  then show "fair slow_fd" by (simp add: fair_def)
  show "no_error slow_fd" by (auto simp: no_error_def slow_fd_def split: if_splits)
qed

theorem dprintf_writes_all_witness:
  "\<exists>s'. dprintf Ptr text_vsprintf (replicate 2048 NUL) zeroed slow_fd ''hi'' ''abc'' \<lparr>d_out = ''>'', d_calls = 0, d_live = 0\<rparr>
      = Some (3, s') \<and> d_out s' = ''>abc'' \<and> d_live s' = 0"
  using dprintf_writes_all [OF hi_fmt, of text_vsprintf "''abc''" "''abc''" Ptr 8192 zeroed _ slow_fd
      "\<lparr>d_out = ''>'', d_calls = 0, d_live = 0\<rparr>"] slow_fd_fair
  by (auto simp: text_vsprintf_def wf_usable_def STACK_BUF_SIZE_def wf_malloc_def zeroed_def)

text \<open>
  C29. \<^verbatim>\<open>getdelim\<close> reads one line: with memory available it returns -1 at the end of the stream and
  otherwise the length of the text up to and with the next delimiter, which is in the buffer, followed
  by a terminator; the stream is left after the line, so that successive calls give back the stream;
  the size it reports is within the object.
\<close>

theorem getdelim_line:
  assumes "wf_malloc malloc" and "wf_realloc realloc" and "wf_gd s" and "length (stream s) < 2 ^ 31"
    and "malloc GETDELIM_INITIAL_SIZE \<noteq> NULL" and "\<And>b n. realloc b n \<noteq> NULL"
    and "line_of delim (stream s) = (line, rest)"
  shows "\<exists>s'. getdelim malloc realloc False delim s = Some (if stream s = [] then Inl None else Inr (length line), s')
    \<and> stream s' = rest \<and> line @ rest = stream s \<and> wf_gd s'
    \<and> (stream s = [] \<or> (\<exists>b. lineptr s' = Ptr b \<and> take (length line + 1) b = line @ [NUL]))"
proof -
  obtain r where r: "loop_post realloc delim [] (stream s) (gd_live s + (if fresh_line s then 1 else 0)) r"
    and run: "getdelim malloc realloc False delim s = getdelim_end r"
    by (rule getdelim_run [OF assms(1-4)]) (use assms(5) in auto)
  obtain x where "fst r = Inr x" using r assms(6) by (cases "fst r") (auto simp: loop_post_def split: prod.splits)
  then show ?thesis
    using getdelim_end_post [OF r] assms(7) line_of_append [of delim "stream s"]
    by (auto simp: run split: if_splits)
qed

definition copying :: "cbuf \<Rightarrow> nat \<Rightarrow> cbuf ptr" where
  "copying b n = Ptr (take n b @ replicate (n - length b) NUL)"

lemma copying_wf: "wf_realloc copying" "copying b n \<noteq> NULL" "wf_malloc zeroed" "zeroed n \<noteq> NULL"
  by (auto simp: wf_realloc_def copying_def wf_malloc_def zeroed_def)

theorem getdelim_line_witness:
  "\<exists>s'. getdelim zeroed copying False 44 \<lparr>lineptr = Ptr ''x'', line_n = 1, stream = ''ab,cd'', gd_live = 1\<rparr>
      = Some (Inr 3, s') \<and> stream s' = ''cd''"
  using getdelim_line [of zeroed copying "\<lparr>lineptr = Ptr ''x'', line_n = 1, stream = ''ab,cd'', gd_live = 1\<rparr>" 44
      "''ab,''" "''cd''"] copying_wf
  by (auto simp: wf_gd_def fgetc_val_def)

text \<open>
  C31. The state of \<^verbatim>\<open>getdelim\<close> stays well formed whatever the allocator does: on a caller's buffer that
  has the size the caller states, no call reads or writes outside it, the call returns, and afterwards
  the caller's pointer is null or an object with the size stated, also when \<^verbatim>\<open>malloc\<close> or \<^verbatim>\<open>realloc\<close> failed
  in the middle of a line.
\<close>

theorem getdelim_well_formed:
  assumes "wf_malloc malloc" and "wf_realloc realloc" and "wf_gd s" and "length (stream s) < 2 ^ 31"
  shows "\<exists>q s'. getdelim malloc realloc null_arg delim s = Some (q, s') \<and> wf_gd s'"
proof (cases "null_arg \<or> fresh_line s \<and> malloc GETDELIM_INITIAL_SIZE = NULL")
  case True
  then show ?thesis using assms(3) by (auto simp: getdelim_def)
next
  case False
  obtain r where r: "loop_post realloc delim [] (stream s) (gd_live s + (if fresh_line s then 1 else 0)) r"
    and run: "getdelim malloc realloc False delim s = getdelim_end r"
    by (rule getdelim_run [OF assms]) (use False in auto)
  show ?thesis using getdelim_end_post [OF r] False by (auto simp: run)
qed

theorem getdelim_well_formed_witness:
  "\<exists>q s'. getdelim zeroed (\<lambda>_ _. NULL) False 10 \<lparr>lineptr = Ptr ''x'', line_n = 1, stream = ''ab'', gd_live = 1\<rparr> = Some (q, s')
     \<and> wf_gd s'"
  using getdelim_well_formed [of zeroed "\<lambda>_ _. NULL" "\<lparr>lineptr = Ptr ''x'', line_n = 1, stream = ''ab'', gd_live = 1\<rparr>" False 10]
    copying_wf
  by (simp add: wf_gd_def wf_realloc_def)

text \<open>
  A caller that passes a buffer with size 0 (as POSIX allows) loses it: the pointer is replaced by a
  new block and the old one is not freed.
\<close>

lemma getdelim_leaks:
  assumes "wf_malloc malloc" and "wf_realloc realloc" and "length (stream s) < 2 ^ 31"
    and "malloc GETDELIM_INITIAL_SIZE \<noteq> NULL" and "lineptr s = Ptr b" and "line_n s = 0"
  shows "\<exists>q s'. getdelim malloc realloc False delim s = Some (q, s') \<and> gd_live s' = gd_live s + 1"
proof -
  obtain r where r: "loop_post realloc delim [] (stream s) (gd_live s + (if fresh_line s then 1 else 0)) r"
    and run: "getdelim malloc realloc False delim s = getdelim_end r"
    by (rule getdelim_run [OF assms(1,2) _ assms(3)]) (use assms in \<open>auto simp: wf_gd_def\<close>)
  show ?thesis using getdelim_end_post [OF r] assms(6) by (auto simp: run)
qed

text \<open>
  \<^verbatim>\<open>preadv\<close> reads back what \<^verbatim>\<open>pwritev\<close> wrote: whatever short transfers and errors occur, when \<^verbatim>\<open>pwritev\<close>
  returns \<open>m\<close> the file has the first \<open>m\<close> bytes of the vectors at the offset and is otherwise as it was,
  and a \<^verbatim>\<open>preadv\<close> at the same offset that returns \<open>k \<le> m\<close> has put the first \<open>k\<close> of them in its vectors, in
  order across their boundaries, and left the rest of the vectors alone.
\<close>

lemma preadv_pwritev_round_trip:
  assumes "pwritev ans iov off s = (Inr m, t)" and "preadv ans' bufs off t = (Inr k, bufs', u)" and "k \<le> m"
  shows "io_file t = write_at (io_file s) off (take m (concat iov)) \<and> io_file u = io_file t
    \<and> concat bufs' = take k (concat iov) @ drop k (concat bufs) \<and> map length bufs' = map length bufs"
proof -
  let ?d = "take m (concat iov)"
  have contents: "io_file t = write_at (io_file s) off ?d" and len: "length ?d = m"
    using pwritev_Inr [OF assms(1)] by simp_all
  note rd = preadv_Inr [OF assms(2)]
  have "take k (drop off (io_file t)) = take k (concat iov)"
  proof (cases "?d = []")
    case True
    then have "m = 0" using len by (metis list.size(3))
    then show ?thesis using assms(3) by simp
  next
    case False
    then have "take m (drop off (io_file t)) = ?d" using read_write_at [OF False, of off "io_file s"] len by (simp add: contents)
    then show ?thesis using assms(3) by (metis min.absorb1 take_take)
  qed
  then show ?thesis using rd contents by simp
qed

theorem preadv_pwritev_round_trip_witness:
  "preadv (\<lambda>_. Inr 9) [''....'', ''..''] 1 (snd (pwritev (\<lambda>k. Inr 2) [''ab'', ''c'', ''d''] 1 \<lparr>io_file = ''XYZ'', io_calls = 0\<rparr>))
     = (Inr 4, [''abcd'', ''..''], \<lparr>io_file = ''Xabcd'', io_calls = 5\<rparr>)
   \<and> concat [''abcd'', ''..''] = take 4 (concat [''ab'', ''c'', ''d'']) @ drop 4 (concat [''....'', ''..''])"
  using preadv_pwritev_round_trip [of "\<lambda>k. Inr 2" "[''ab'', ''c'', ''d'']" 1 "\<lparr>io_file = ''XYZ'', io_calls = 0\<rparr>" 4
      "\<lparr>io_file = ''Xabcd'', io_calls = 3\<rparr>" "\<lambda>_. Inr 9" "[''....'', ''..'']" 4 "[''abcd'', ''..'']"
      "\<lparr>io_file = ''Xabcd'', io_calls = 5\<rparr>"]
  by (simp add: preadv_def pwritev_def pread_def pwrite_def write_at_def)

end
