(* ===== verification/Process.thy ===== *)
theory Process
  imports Clock
begin

text \<open>
  Processes, descriptors and threads, \<open>src/src/process.c\<close>: descriptor flags (\<open>pipe2\<close>, \<open>dup3\<close>,
  \<open>mkostemp\<close>, \<open>daemon\<close>), the \<open>err\<close> family, \<open>posix_spawn\<close> and its attributes, the path search of
  \<open>execvpe\<close>, group lists, timed read-write locks, process credentials, and the stubs.

  What the system answers (the results of \<open>fork\<close>, \<open>execve\<close>, \<open>dup2\<close>, the lock attempts, the clock) are
  parameters. \<open>None\<close> is an access outside an object, except in the lock loop, where it is a run that
  never returns.
\<close>

section \<open>Descriptors\<close>

unbundle bit_operations_syntax

text \<open>
  A descriptor refers to an open file description, which carries the status flags and may be shared;
  the close-on-exec flag belongs to the descriptor.
\<close>

record fdesc =
  ofd :: nat
  cloexec :: bool

record fdstate =
  fds :: "int \<Rightarrow> fdesc option"
  ofd_flags :: "nat \<Rightarrow> u32"

definition O_CLOEXEC :: u32 where "O_CLOEXEC = 0x800000"
definition O_NONBLOCK :: u32 where "O_NONBLOCK = 0x80"
definition O_APPEND :: u32 where "O_APPEND = 0x08"

definition flag_in :: "u32 \<Rightarrow> u32 \<Rightarrow> bool" where
  "flag_in flags f \<longleftrightarrow> flags AND f \<noteq> 0"

text \<open>\<open>fcntl(fd, F_SETFL, fcntl(fd, F_GETFL) | f)\<close> and \<open>fcntl(fd, F_SETFD, FD_CLOEXEC)\<close>; both fail on a closed descriptor.\<close>

definition add_status :: "int \<Rightarrow> u32 \<Rightarrow> fdstate \<Rightarrow> fdstate" where
  "add_status fd f s = (case fds s fd of
       None \<Rightarrow> s
     | Some d \<Rightarrow> s\<lparr>ofd_flags := (ofd_flags s)(ofd d := ofd_flags s (ofd d) OR f)\<rparr>)"

definition set_cloexec :: "int \<Rightarrow> fdstate \<Rightarrow> fdstate" where
  "set_cloexec fd s = (case fds s fd of
       None \<Rightarrow> s
     | Some d \<Rightarrow> s\<lparr>fds := (fds s)(fd \<mapsto> d\<lparr>cloexec := True\<rparr>)\<rparr>)"

text \<open>\<open>dup2\<close>: the new descriptor shares the description and is kept across \<open>exec\<close>.\<close>

definition dup2 :: "int \<Rightarrow> int \<Rightarrow> fdstate \<Rightarrow> (errno + int) \<times> fdstate" where
  "dup2 old new s = (case fds s old of
       None \<Rightarrow> (Inl EBADF, s)
     | Some d \<Rightarrow> if new < 0 then (Inl EBADF, s)
         else if old = new then (Inr new, s)
         else (Inr new, s\<lparr>fds := (fds s)(new \<mapsto> d\<lparr>cloexec := False\<rparr>)\<rparr>))"

definition close_fd :: "int \<Rightarrow> fdstate \<Rightarrow> fdstate" where
  "close_fd fd s = s\<lparr>fds := (fds s)(fd := None)\<rparr>"

text \<open>The system's \<open>pipe\<close>: an error, or two new descriptors with two new descriptions.\<close>

definition sys_pipe :: "errno + (int \<times> nat) \<times> (int \<times> nat) \<Rightarrow> fdstate \<Rightarrow> (errno + int \<times> int) \<times> fdstate" where
  "sys_pipe answer s = (case answer of
       Inl e \<Rightarrow> (Inl e, s)
     | Inr ((r, i), (w, j)) \<Rightarrow> (Inr (r, w),
         s\<lparr>fds := (fds s)(r \<mapsto> \<lparr>ofd = i, cloexec = False\<rparr>, w \<mapsto> \<lparr>ofd = j, cloexec = False\<rparr>),
           ofd_flags := (ofd_flags s)(i := 0, j := 1)\<rparr>))"

definition pipe2 where
  "pipe2 answer flags s = (case sys_pipe answer s of
       (Inl e, s) \<Rightarrow> (Inl e, s)
     | (Inr (r, w), s) \<Rightarrow>
         let s = (if flag_in flags O_NONBLOCK then add_status w O_NONBLOCK (add_status r O_NONBLOCK s) else s);
             s = (if flag_in flags O_CLOEXEC then set_cloexec w (set_cloexec r s) else s)
         in (Inr (r, w), s))"

definition dup3 :: "int \<Rightarrow> int \<Rightarrow> u32 \<Rightarrow> fdstate \<Rightarrow> (errno + int) \<times> fdstate" where
  "dup3 oldfd newfd flags s =
     (if oldfd = newfd then (Inl EINVAL, s)
      else case dup2 oldfd newfd s of
             (Inl e, s) \<Rightarrow> (Inl e, s)
           | (Inr ret, s) \<Rightarrow> (Inr ret, if flag_in flags O_CLOEXEC then set_cloexec newfd s else s))"

text \<open>The file \<open>mkstemp\<close> creates, opened for reading and writing on a new description.\<close>

definition sys_mkstemp :: "errno + int \<times> nat \<Rightarrow> fdstate \<Rightarrow> (errno + int) \<times> fdstate" where
  "sys_mkstemp answer s = (case answer of
       Inl e \<Rightarrow> (Inl e, s)
     | Inr (fd, i) \<Rightarrow> (Inr fd, s\<lparr>fds := (fds s)(fd \<mapsto> \<lparr>ofd = i, cloexec = False\<rparr>), ofd_flags := (ofd_flags s)(i := 2)\<rparr>))"

definition mkostemp where
  "mkostemp answer flags s = (case sys_mkstemp answer s of
       (Inl e, s) \<Rightarrow> (Inl e, s)
     | (Inr fd, s) \<Rightarrow>
         let s = (if flag_in flags O_CLOEXEC then set_cloexec fd s else s);
             s = (if flag_in flags O_APPEND then add_status fd O_APPEND s else s)
         in (Inr fd, s))"

section \<open>Becoming a daemon\<close>

record dproc =
  d_fds :: fdstate
  d_cwd :: string
  d_leader :: bool

datatype 'a outcome = Exits int | Returns "errno + 'a" 

text \<open>\<open>_Exit\<close> of \<open>stdlib.c\<close>.\<close>

definition exit_at_once :: "int \<Rightarrow> 'a outcome" where
  "exit_at_once status = Exits status"

text \<open>
  The answers: of \<open>fork\<close>, whether \<open>setsid\<close> works, whether \<open>chdir\<close> does, and of the \<open>open\<close> of the null device.
\<close>

definition sys_open_null :: "errno + int \<times> nat \<Rightarrow> fdstate \<Rightarrow> int \<times> fdstate" where
  "sys_open_null answer s = (case answer of
       Inl e \<Rightarrow> (-1, s)
     | Inr (fd, i) \<Rightarrow> (fd, s\<lparr>fds := (fds s)(fd \<mapsto> \<lparr>ofd = i, cloexec = False\<rparr>), ofd_flags := (ofd_flags s)(i := 2)\<rparr>))"

definition daemon ::
    "errno + int \<Rightarrow> errno option \<Rightarrow> bool \<Rightarrow> errno + int \<times> nat \<Rightarrow> bool \<Rightarrow> bool \<Rightarrow> dproc \<Rightarrow> unit outcome \<times> dproc" where
  "daemon forked setsid_err chdir_ok null_answer nochdir noclose p =
     (case forked of
        Inl e \<Rightarrow> (Returns (Inl e), p)
      | Inr pid \<Rightarrow>
          if pid > 0 then (Exits 0, p)
          else (case setsid_err of
            Some e \<Rightarrow> (Returns (Inl e), p)
          | None \<Rightarrow>
              let p = p\<lparr>d_leader := True\<rparr>;
                  p = (if \<not> nochdir \<and> chdir_ok then p\<lparr>d_cwd := ''/''\<rparr> else p);
                  p = (if \<not> noclose then
                         (case sys_open_null null_answer (d_fds p) of (fd, s) \<Rightarrow>
                            if fd \<ge> 0 then
                              let s = snd (dup2 fd 2 (snd (dup2 fd 1 (snd (dup2 fd 0 s)))))
                              in p\<lparr>d_fds := (if fd > 2 then close_fd fd s else s)\<rparr>
                            else p\<lparr>d_fds := s\<rparr>)
                       else p)
              in (Returns (Inr ()), p)))"

section \<open>Messages\<close>

text \<open>
  \<open>execname\<close> is what \<open>getexecname\<close> returns; \<open>vfprintf\<close> formats; \<open>strerror\<close> names an error. The result is
  the text on the standard error stream, and for \<open>err\<close> and \<open>errx\<close> the exit status.
\<close>

definition getprogname :: "string ptr \<Rightarrow> string" where
  "getprogname execname = (case execname of
       NULL \<Rightarrow> ''unknown''
     | Ptr p \<Rightarrow> if CHR ''/'' \<in> set p then rev (takeWhile (\<lambda>c. c \<noteq> CHR ''/'') (rev p)) else p)"

definition warn where
  "warn execname vfprintf strerror fmt ap e =
     getprogname execname @ '': '' @ (case fmt of NULL \<Rightarrow> [] | Ptr f \<Rightarrow> vfprintf f ap @ '': '')
       @ strerror e @ [CHR 0x0A]"

definition warnx where
  "warnx execname vfprintf fmt ap =
     getprogname execname @ '': '' @ (case fmt of NULL \<Rightarrow> [] | Ptr f \<Rightarrow> vfprintf f ap) @ [CHR 0x0A]"

definition err where
  "err execname vfprintf strerror evl fmt ap e =
     (getprogname execname @ '': '' @ (case fmt of NULL \<Rightarrow> [] | Ptr f \<Rightarrow> vfprintf f ap @ '': '')
        @ strerror e @ [CHR 0x0A], Exits evl :: unit outcome)"

definition errx where
  "errx execname vfprintf evl fmt ap =
     (getprogname execname @ '': '' @ (case fmt of NULL \<Rightarrow> [] | Ptr f \<Rightarrow> vfprintf f ap) @ [CHR 0x0A],
      Exits evl :: unit outcome)"

section \<open>Spawning\<close>

record 'g spawnattr =
  sa_flags :: "16 word"
  sa_pgrp :: int
  sa_sd :: 'g
  sa_ss :: 'g
  sa_sp :: int
  sa_policy :: int

record file_actions =
  fa_allocated :: int
  fa_used :: int
  fa_actions :: "nat ptr"

text \<open>\<open>zero\<close> is the signal set whose bytes are zero.\<close>

definition posix_spawnattr_init :: "'g \<Rightarrow> 'g spawnattr \<Rightarrow> 'g spawnattr" where
  "posix_spawnattr_init zero attr = \<lparr>sa_flags = 0, sa_pgrp = 0, sa_sd = zero, sa_ss = zero, sa_sp = 0, sa_policy = 0\<rparr>"

definition posix_spawnattr_destroy :: "'g spawnattr \<Rightarrow> 'g spawnattr" where
  "posix_spawnattr_destroy attr = attr"

definition posix_spawnattr_setflags :: "'g spawnattr \<Rightarrow> 16 word \<Rightarrow> 'g spawnattr" where
  "posix_spawnattr_setflags attr flags = attr\<lparr>sa_flags := flags\<rparr>"

definition posix_spawnattr_getflags :: "'g spawnattr \<Rightarrow> 16 word" where
  "posix_spawnattr_getflags attr = sa_flags attr"

definition posix_spawnattr_setsigdefault :: "'g spawnattr \<Rightarrow> 'g \<Rightarrow> 'g spawnattr" where
  "posix_spawnattr_setsigdefault attr sigdefault = attr\<lparr>sa_sd := sigdefault\<rparr>"

definition posix_spawnattr_getsigdefault :: "'g spawnattr \<Rightarrow> 'g" where
  "posix_spawnattr_getsigdefault attr = sa_sd attr"

definition posix_spawnattr_setsigmask :: "'g spawnattr \<Rightarrow> 'g \<Rightarrow> 'g spawnattr" where
  "posix_spawnattr_setsigmask attr sigmask = attr\<lparr>sa_ss := sigmask\<rparr>"

definition posix_spawnattr_getsigmask :: "'g spawnattr \<Rightarrow> 'g" where
  "posix_spawnattr_getsigmask attr = sa_ss attr"

definition posix_spawnattr_setpgroup :: "'g spawnattr \<Rightarrow> int \<Rightarrow> 'g spawnattr" where
  "posix_spawnattr_setpgroup attr pgroup = attr\<lparr>sa_pgrp := pgroup\<rparr>"

definition posix_spawnattr_getpgroup :: "'g spawnattr \<Rightarrow> int" where
  "posix_spawnattr_getpgroup attr = sa_pgrp attr"

definition posix_spawnattr_setschedpolicy :: "'g spawnattr \<Rightarrow> int \<Rightarrow> 'g spawnattr" where
  "posix_spawnattr_setschedpolicy attr schedpolicy = attr"

definition posix_spawnattr_getschedpolicy :: "'g spawnattr \<Rightarrow> int" where
  "posix_spawnattr_getschedpolicy attr = 0"

definition posix_spawnattr_setschedparam :: "'g spawnattr \<Rightarrow> 'p \<Rightarrow> 'g spawnattr" where
  "posix_spawnattr_setschedparam attr schedparam = attr"

definition posix_spawnattr_getschedparam :: "'g spawnattr \<Rightarrow> 'p \<Rightarrow> 'p" where
  "posix_spawnattr_getschedparam attr schedparam = schedparam"

definition posix_spawn_file_actions_init :: "file_actions \<Rightarrow> file_actions" where
  "posix_spawn_file_actions_init facts = \<lparr>fa_allocated = 0, fa_used = 0, fa_actions = NULL\<rparr>"

text \<open>The blocks freed, with the cleared structure.\<close>

definition posix_spawn_file_actions_destroy :: "file_actions \<Rightarrow> nat list \<times> file_actions" where
  "posix_spawn_file_actions_destroy facts =
     (case fa_actions facts of NULL \<Rightarrow> [] | Ptr a \<Rightarrow> [a], \<lparr>fa_allocated = 0, fa_used = 0, fa_actions = NULL\<rparr>)"

definition posix_spawn_file_actions_addopen :: "file_actions \<Rightarrow> int \<Rightarrow> string \<Rightarrow> int \<Rightarrow> int \<Rightarrow> errno option \<times> file_actions" where
  "posix_spawn_file_actions_addopen facts fildes path oflag mode = (None, facts)"

definition posix_spawn_file_actions_addclose :: "file_actions \<Rightarrow> int \<Rightarrow> errno option \<times> file_actions" where
  "posix_spawn_file_actions_addclose facts fildes = (None, facts)"

definition posix_spawn_file_actions_adddup2 :: "file_actions \<Rightarrow> int \<Rightarrow> int \<Rightarrow> errno option \<times> file_actions" where
  "posix_spawn_file_actions_adddup2 facts fildes newfildes = (None, facts)"

definition posix_spawn_file_actions_addchdir :: "file_actions \<Rightarrow> string \<Rightarrow> errno option \<times> file_actions" where
  "posix_spawn_file_actions_addchdir facts path = (Some ENOSYS, facts)"

definition posix_spawn_file_actions_addfchdir :: "file_actions \<Rightarrow> int \<Rightarrow> errno option \<times> file_actions" where
  "posix_spawn_file_actions_addfchdir facts fildes = (Some ENOSYS, facts)"

text \<open>
  \<open>fork\<close> answers an error, 0 in the child, or the child's number in the parent. In the child the
  process image is replaced (by the program and environment given) or the child exits with 127.
\<close>

datatype spawn_result =
    SpawnError errno
  | Spawned "int option"
  | ChildRuns string "string list" "string list ptr"
  | ChildExits int

text \<open>\<open>exec_ok\<close> says whether \<open>execve\<close> succeeds on a path; \<open>want_pid\<close> whether the caller passed a place for the number.\<close>

definition posix_spawn where
  "posix_spawn (forked :: errno + int) (exec_ok :: string \<Rightarrow> bool) want_pid path (file_actions :: file_actions ptr)
     (attrp :: 'g spawnattr ptr) argv envp =
     (case forked of
        Inl e \<Rightarrow> SpawnError e
      | Inr child \<Rightarrow>
          if child = 0 then (if exec_ok path then ChildRuns path argv (Ptr envp) else ChildExits 127)
          else Spawned (if want_pid then Some child else None))"

text \<open>
  \<open>lookup\<close> stands for the search of \<open>execvp\<close> with the environment then in force: the path found, if any.
\<close>

definition posix_spawnp where
  "posix_spawnp (forked :: errno + int) (lookup :: string list \<Rightarrow> string \<Rightarrow> string option) environ want_pid filename
     (file_actions :: file_actions ptr) (attrp :: 'g spawnattr ptr) argv (envp :: string list ptr) =
     (case forked of
        Inl e \<Rightarrow> SpawnError e
      | Inr child \<Rightarrow>
          if child = 0 then
            let environ = (case envp of NULL \<Rightarrow> environ | Ptr e \<Rightarrow> e)
            in (case lookup environ filename of Some path \<Rightarrow> ChildRuns path argv (Ptr environ) | None \<Rightarrow> ChildExits 127)
          else Spawned (if want_pid then Some child else None))"

section \<open>Searching the path\<close>

text \<open>
  \<open>execve\<close> on a path: \<open>None\<close> when the image is replaced, else its error. The run records the paths it
  tried; its end is the path that was executed or the failure with \<open>errno\<close> (\<open>None\<close>: not set by the call).
\<close>

datatype exec_end = Executed string | ExecFails "errno option"

definition errno_after :: "errno option \<Rightarrow> errno option \<Rightarrow> errno option" where
  "errno_after saved e = (case saved of None \<Rightarrow> e | Some _ \<Rightarrow> saved)"

text \<open>
  The file name in a buffer: \<open>./name\<close> for an empty component, else the component, a slash and the name.
  The outer \<open>None\<close> is a write outside the array; the inner one a candidate that does not fit.
\<close>

definition build_candidate :: "cbuf \<Rightarrow> string \<Rightarrow> string \<Rightarrow> cbuf option option" where
  "build_candidate candidate_path dir filename =
     (if length dir = 0 then
        (if length filename + 3 \<le> length candidate_path then do {
           b \<leftarrow> wr candidate_path 0 CHR ''.'';
           b \<leftarrow> wr b 1 CHR ''/'';
           b \<leftarrow> memcpy b 2 (filename @ [NUL]) 0 (length filename + 1);
           Some (Some b) }
         else Some None)
      else if length dir + 1 + length filename + 1 \<le> length candidate_path then do {
        b \<leftarrow> memcpy candidate_path 0 dir 0 (length dir);
        b \<leftarrow> wr b (length dir) CHR ''/'';
        b \<leftarrow> memcpy b (length dir + 1) (filename @ [NUL]) 0 (length filename + 1);
        Some (Some b) }
      else Some None)"

text \<open>The loop from \<open>component_start\<close>, with the remembered \<open>EACCES\<close>, the current \<open>errno\<close> and the attempts.\<close>

function execvpe_loop ::
    "(string \<Rightarrow> errno option) \<Rightarrow> string \<Rightarrow> cbuf \<Rightarrow> string \<Rightarrow> errno option \<Rightarrow> errno option \<Rightarrow> string list
     \<Rightarrow> (exec_end \<times> string list) option" where
  "execvpe_loop execve filename candidate_path component_start saved e tried =
     (let dir = takeWhile (\<lambda>c. c \<noteq> CHR '':'') component_start;
          rest = dropWhile (\<lambda>c. c \<noteq> CHR '':'') component_start in
      case build_candidate candidate_path dir filename of
        None \<Rightarrow> None
      | Some None \<Rightarrow>
          (case rest of
             [] \<Rightarrow> Some (ExecFails (errno_after saved e), tried)
           | _ # next \<Rightarrow> execvpe_loop execve filename candidate_path next saved e tried)
      | Some (Some b) \<Rightarrow>
          let path = cstr b 0; tried = tried @ [path] in
          case execve path of
            None \<Rightarrow> Some (Executed path, tried)
          | Some e \<Rightarrow>
              if e \<noteq> EACCES \<and> e \<noteq> ENOENT \<and> e \<noteq> ENOTDIR then Some (ExecFails (errno_after saved (Some e)), tried)
              else let saved = (if e = EACCES then Some EACCES else saved) in
                (case rest of
                   [] \<Rightarrow> Some (ExecFails (errno_after saved (Some e)), tried)
                 | _ # next \<Rightarrow> execvpe_loop execve filename b next saved (Some e) tried))"
  by pat_completeness auto
termination
  by (relation "measure (\<lambda>(_, _, _, p, _, _, _). length p)")
     (auto dest!: arg_cong [where f = length] simp: le_imp_less_Suc length_dropWhile_le
        intro: Suc_le_lessD order_trans [OF eq_imp_le length_dropWhile_le])

declare execvpe_loop.simps [simp del]

text \<open>\<open>envp[i] + 5\<close> for the first entry that starts with \<open>PATH=\<close>.\<close>

fun env_path :: "string list \<Rightarrow> string ptr" where
  "env_path [] = NULL"
| "env_path (v # vs) = (if take 5 v = ''PATH='' then Ptr (drop 5 v) else env_path vs)"

definition execvpe ::
    "(string \<Rightarrow> errno option) \<Rightarrow> string ptr \<Rightarrow> cbuf \<Rightarrow> string \<Rightarrow> string list ptr \<Rightarrow> (exec_end \<times> string list) option" where
  "execvpe execve getenv_path candidate_path filename envp =
     (if CHR ''/'' \<in> set filename then
        Some (case execve filename of None \<Rightarrow> Executed filename | Some e \<Rightarrow> ExecFails (Some e), [filename])
      else
        let path_env_value = (case envp of NULL \<Rightarrow> NULL | Ptr vs \<Rightarrow> env_path vs);
            search_path = (case path_env_value of NULL \<Rightarrow> getenv_path | Ptr p \<Rightarrow> Ptr p);
            search_path = (case search_path of
                             NULL \<Rightarrow> ''/usr/bin:/bin''
                           | Ptr p \<Rightarrow> if p = [] then ''/usr/bin:/bin'' else p)
        in execvpe_loop execve filename candidate_path search_path None None [])"

section \<open>Groups and credentials\<close>

text \<open>The group database: the number and the members of each entry, in order.\<close>

fun grouplist_loop :: "string \<Rightarrow> u32 \<Rightarrow> int \<Rightarrow> (u32 \<times> string list) list \<Rightarrow> u32 list \<Rightarrow> nat \<Rightarrow> (u32 list \<times> nat) option" where
  "grouplist_loop user g max_groups [] groups group_count = Some (groups, group_count)"
| "grouplist_loop user g max_groups ((gid, mem) # db) groups group_count =
     (if gid = g then grouplist_loop user g max_groups db groups group_count
      else if user \<in> set mem then do {
        groups \<leftarrow> (if int group_count < max_groups then wr groups group_count gid else Some groups);
        grouplist_loop user g max_groups db groups (group_count + 1) }
      else grouplist_loop user g max_groups db groups group_count)"

text \<open>The return value, the array and \<open>*ngroups\<close>.\<close>

definition getgrouplist ::
    "(u32 \<times> string list) list \<Rightarrow> string \<Rightarrow> u32 \<Rightarrow> u32 list \<Rightarrow> int \<Rightarrow> (int \<times> u32 list \<times> int) option" where
  "getgrouplist db user g groups ngroups = do {
     let max_groups = ngroups;
     groups \<leftarrow> (if 0 < max_groups then wr groups 0 g else Some groups);
     (groups, group_count) \<leftarrow> grouplist_loop user g max_groups db groups 1;
     Some (if int group_count > max_groups then -1 else 0, groups, int group_count) }"

record ids =
  id_pid :: int
  id_uid :: u32
  id_euid :: u32
  id_gid :: u32
  id_egid :: u32
  id_groups :: "u32 list option"

definition issetugid :: "ids \<Rightarrow> bool" where
  "issetugid i \<longleftrightarrow> id_uid i \<noteq> id_euid i \<or> id_gid i \<noteq> id_egid i"

record ucred =
  uc_pid :: int
  uc_euid :: u32
  uc_ruid :: u32
  uc_suid :: u32
  uc_egid :: u32
  uc_rgid :: u32
  uc_sgid :: u32
  uc_groups :: "u32 list"

text \<open>\<open>alloc_ok\<close> is the answer of \<open>malloc\<close>; a failing \<open>getgroups\<close> counts as no groups.\<close>

definition ucred_get :: "ids \<Rightarrow> bool \<Rightarrow> int \<Rightarrow> errno option \<times> ucred ptr" where
  "ucred_get i alloc_ok pid =
     (if pid \<noteq> -1 \<and> pid \<noteq> id_pid i then (Some ENOSYS, NULL)
      else if \<not> alloc_ok then (Some ENOMEM, NULL)
      else (None, Ptr \<lparr>uc_pid = id_pid i, uc_euid = id_euid i, uc_ruid = id_uid i, uc_suid = id_euid i,
              uc_egid = id_egid i, uc_rgid = id_gid i, uc_sgid = id_egid i,
              uc_groups = (case id_groups i of None \<Rightarrow> [] | Some gs \<Rightarrow> gs)\<rparr>))"

text \<open>Eight 32-bit fields and the groups.\<close>

definition ucred_size :: "nat \<Rightarrow> nat" where
  "ucred_size ngroups_max = 4 * (8 + ngroups_max)"

definition ucred_field :: "(ucred \<Rightarrow> u32) \<Rightarrow> ucred ptr \<Rightarrow> u32" where
  "ucred_field f u = (case u of NULL \<Rightarrow> -1 | Ptr c \<Rightarrow> f c)"

definition ucred_geteuid where "ucred_geteuid u = ucred_field uc_euid u"
definition ucred_getruid where "ucred_getruid u = ucred_field uc_ruid u"
definition ucred_getsuid where "ucred_getsuid u = ucred_field uc_suid u"
definition ucred_getegid where "ucred_getegid u = ucred_field uc_egid u"
definition ucred_getrgid where "ucred_getrgid u = ucred_field uc_rgid u"
definition ucred_getsgid where "ucred_getsgid u = ucred_field uc_sgid u"

definition ucred_getpid :: "ucred ptr \<Rightarrow> int" where
  "ucred_getpid u = (case u of NULL \<Rightarrow> -1 | Ptr c \<Rightarrow> uc_pid c)"

definition ucred_getgroups :: "ucred ptr \<Rightarrow> errno + nat \<times> u32 list" where
  "ucred_getgroups u = (case u of NULL \<Rightarrow> Inl EINVAL | Ptr c \<Rightarrow> Inr (length (uc_groups c), uc_groups c))"

definition getpeerucred :: "int \<Rightarrow> ucred ptr ptr \<Rightarrow> errno \<times> ucred ptr ptr" where
  "getpeerucred fd ucred = (ENOTSUP, case ucred of NULL \<Rightarrow> NULL | Ptr _ \<Rightarrow> Ptr NULL)"

section \<open>Locks\<close>

text \<open>
  Spin locks are mutexes: \<open>'m\<close> is the mutex and its operations are parameters that return an error
  number, 0 for success.
\<close>

record 'm mutex_ops =
  m_attr_init :: int
  m_init :: "'m \<Rightarrow> int \<times> 'm"
  m_destroy :: "'m \<Rightarrow> int \<times> 'm"
  m_lock :: "'m \<Rightarrow> int \<times> 'm"
  m_trylock :: "'m \<Rightarrow> int \<times> 'm"
  m_unlock :: "'m \<Rightarrow> int \<times> 'm"

definition pthread_spin_init :: "'m mutex_ops \<Rightarrow> 'm \<Rightarrow> int \<Rightarrow> int \<times> 'm" where
  "pthread_spin_init ops lock pshared = (if m_attr_init ops \<noteq> 0 then (m_attr_init ops, lock) else m_init ops lock)"

definition pthread_spin_destroy where "pthread_spin_destroy ops lock = m_destroy ops lock"
definition pthread_spin_lock where "pthread_spin_lock ops lock = m_lock ops lock"
definition pthread_spin_trylock where "pthread_spin_trylock ops lock = m_trylock ops lock"
definition pthread_spin_unlock where "pthread_spin_unlock ops lock = m_unlock ops lock"

text \<open>
  The timed lock loop: \<open>try_lock k\<close> is the answer of the attempt number \<open>k\<close> (\<open>None\<close> is success) and
  \<open>clk k\<close> what the clk then says. The result is an error number or success and the number of attempts.
\<close>

definition deadline_reached :: "timespec \<Rightarrow> timespec \<Rightarrow> bool" where
  "deadline_reached now abs_timeout \<longleftrightarrow>
     tv_sec now > tv_sec abs_timeout \<or> tv_sec now = tv_sec abs_timeout \<and> tv_nsec now \<ge> tv_nsec abs_timeout"

text \<open>One pass of the loop.\<close>

definition rwlock_pass :: "(nat \<Rightarrow> errno option) \<Rightarrow> (nat \<Rightarrow> errno + timespec) \<Rightarrow> timespec \<Rightarrow> nat \<Rightarrow> errno option option" where
  "rwlock_pass try_lock clk abs_timeout k =
     (if try_lock k \<noteq> Some EBUSY then Some (try_lock k)
      else case clk k of
             Inl e \<Rightarrow> Some (Some e)
           | Inr now \<Rightarrow> if deadline_reached now abs_timeout then Some (Some ETIMEDOUT) else None)"

text \<open>The wait between two attempts, in nanoseconds.\<close>

definition poll_ns :: int where
  "poll_ns = 10 * 1000 * 1000"

definition rwlock_timed_common where
  "rwlock_timed_common try_lock clk abs_timeout =
     (case abs_timeout of NULL \<Rightarrow> Some (Some EINVAL, 0) | Ptr t \<Rightarrow> poll_until (rwlock_pass try_lock clk t) 0)"

definition pthread_rwlock_timedrdlock where
  "pthread_rwlock_timedrdlock tryrdlock clk abs_timeout = rwlock_timed_common tryrdlock clk abs_timeout"

definition pthread_rwlock_timedwrlock where
  "pthread_rwlock_timedwrlock trywrlock clk abs_timeout = rwlock_timed_common trywrlock clk abs_timeout"

definition PTHREAD_MUTEX_STALLED :: int where "PTHREAD_MUTEX_STALLED = 0"
definition PTHREAD_MUTEX_ROBUST :: int where "PTHREAD_MUTEX_ROBUST = 1"

definition pthread_mutexattr_setrobust :: "int \<Rightarrow> errno option" where
  "pthread_mutexattr_setrobust robustness =
     (if robustness \<noteq> PTHREAD_MUTEX_STALLED \<and> robustness \<noteq> PTHREAD_MUTEX_ROBUST then Some EINVAL else None)"

definition pthread_mutexattr_getrobust :: "int ptr \<Rightarrow> errno + int" where
  "pthread_mutexattr_getrobust robustness = (case robustness of NULL \<Rightarrow> Inl EINVAL | Ptr _ \<Rightarrow> Inr PTHREAD_MUTEX_STALLED)"

definition pthread_mutex_consistent :: "'m \<Rightarrow> errno option" where
  "pthread_mutex_consistent m = Some EINVAL"

section \<open>Absent system calls\<close>

definition copy_file_range :: "int \<Rightarrow> int ptr \<Rightarrow> int \<Rightarrow> int ptr \<Rightarrow> nat \<Rightarrow> u32 \<Rightarrow> errno + nat" where
  "copy_file_range fd_in off_in fd_out off_out len flags = Inl ENOSYS"

definition fallocate :: "int \<Rightarrow> int \<Rightarrow> int \<Rightarrow> int \<Rightarrow> errno option" where
  "fallocate fd mode offset len = Some ENOSYS"

definition prlimit :: "int \<Rightarrow> int \<Rightarrow> 'l ptr \<Rightarrow> 'l ptr \<Rightarrow> errno option" where
  "prlimit pid resource new_limit old_limit = Some ENOSYS"

section \<open>The path search refines a scan of candidates\<close>

text \<open>The components of a path, and the file names they give.\<close>

fun colon_split :: "string \<Rightarrow> string list" where
  "colon_split [] = [[]]"
| "colon_split (c # cs) =
     (if c = CHR '':'' then [] # colon_split cs
      else case colon_split cs of [] \<Rightarrow> [[c]] | d # ds \<Rightarrow> (c # d) # ds)"

definition candidate :: "string \<Rightarrow> string \<Rightarrow> string" where
  "candidate filename dir = (if dir = [] then ''./'' @ filename else dir @ ''/'' @ filename)"

definition candidates :: "nat \<Rightarrow> string \<Rightarrow> string \<Rightarrow> string list" where
  "candidates path_max filename path =
     filter (\<lambda>p. length p < path_max) (map (candidate filename) (colon_split path))"

text \<open>
  The abstract search: the candidates in order up to the first that executes or fails fatally; a
  failure is reported as \<open>EACCES\<close> when some candidate was refused, else as the last error.
\<close>

definition fatal :: "errno \<Rightarrow> bool" where
  "fatal e \<longleftrightarrow> e \<notin> {EACCES, ENOENT, ENOTDIR}"

fun scan :: "(string \<Rightarrow> errno option) \<Rightarrow> string list \<Rightarrow> string list \<times> errno list \<times> string option" where
  "scan execve [] = ([], [], None)"
| "scan execve (p # ps) = (case execve p of
       None \<Rightarrow> ([p], [], Some p)
     | Some e \<Rightarrow> if fatal e then ([p], [e], None)
         else case scan execve ps of (tried, errs, r) \<Rightarrow> (p # tried, e # errs, r))"

definition exec_report :: "errno list \<Rightarrow> string option \<Rightarrow> exec_end" where
  "exec_report errs r = (case r of
       Some p \<Rightarrow> Executed p
     | None \<Rightarrow> ExecFails (if EACCES \<in> set errs then Some EACCES else if errs = [] then None else Some (last errs)))"

lemma colon_split_step:
  "colon_split p = takeWhile (\<lambda>c. c \<noteq> CHR '':'') p #
     (case dropWhile (\<lambda>c. c \<noteq> CHR '':'') p of [] \<Rightarrow> [] | _ # next \<Rightarrow> colon_split next)"
  by (induction p) (auto split: list.splits)

lemma build_candidate_run:
  assumes "wf_cstr dir" "wf_cstr filename"
  shows "\<exists>b. build_candidate buf dir filename = Some b
    \<and> (case b of None \<Rightarrow> \<not> length (candidate filename dir) < length buf
       | Some b \<Rightarrow> length (candidate filename dir) < length buf \<and> length b = length buf \<and> cstr b 0 = candidate filename dir)"
proof (cases "length (candidate filename dir) < length buf")
  case True
  have c: "wf_cstr (candidate filename dir)" using assms by (simp add: candidate_def)
  show ?thesis
  proof (cases "dir = []")
    case dir: True
    then have len: "length filename + 3 \<le> length buf" using True by (simp add: candidate_def)
    then obtain x y r where buf: "buf = x # y # r" by (cases buf; cases "tl buf") auto
    have "build_candidate buf dir filename = Some (Some (candidate filename dir @ NUL # drop (length filename + 1) r))"
      using dir len by (auto simp: build_candidate_def buf mem_simps candidate_def wr_def numeral_2_eq_2)
    then show ?thesis using True cstr_append_NUL [OF c] dir len by (auto simp: buf candidate_def)
  next
    case dir: False
    then have len: "length dir + length filename + 2 \<le> length buf" using True by (simp add: candidate_def)
    have "build_candidate buf dir filename
        = Some (Some (candidate filename dir @ NUL # drop (length dir + length filename + 2) buf))"
      using dir len by (auto simp: build_candidate_def candidate_def memcpy_def wr_def list_update_append
          upd_conv_take_nth_drop drop_Cons' take_Cons' nth_append min_def add.commute)
    then show ?thesis using True cstr_append_NUL [OF c] dir len by (auto simp: candidate_def)
  qed
qed (auto simp: build_candidate_def candidate_def split: if_splits)

definition loop_result where
  "loop_result execve ps saved e tried = (case scan execve ps of (tr, errs, r) \<Rightarrow>
     (case r of
        Some p \<Rightarrow> Executed p
      | None \<Rightarrow> ExecFails (if EACCES \<in> set errs then Some EACCES
                  else errno_after saved (if errs = [] then e else Some (last errs))), tried @ tr))"

lemma execvpe_loop_run:
  assumes "wf_cstr filename" and "wf_cstr path" and "saved = None \<or> saved = Some EACCES"
  shows "execvpe_loop execve filename buf path saved e tried
    = Some (loop_result execve (candidates (length buf) filename path) saved e tried)"
  using assms(2,3)
proof (induction "length path" arbitrary: path buf saved e tried rule: less_induct)
  case less
  let ?dir = "takeWhile (\<lambda>c. c \<noteq> CHR '':'') path"
  let ?rest = "dropWhile (\<lambda>c. c \<noteq> CHR '':'') path"
  have wf: "wf_cstr ?dir" using less.prems(1) by (auto simp: wf_cstr_def dest: set_takeWhileD)
  have next_len: "length n < length path" "wf_cstr n" if "?rest = c # n" for c n
  proof -
    have "length ?rest \<le> length path" by (rule length_dropWhile_le)
    then show "length n < length path" using that by simp
    have "set ?rest \<subseteq> set path" by (rule set_dropWhileD [THEN subsetI])
    then show "wf_cstr n" using that less.prems(1) by (auto simp: wf_cstr_def)
  qed
  have split: "candidates k filename path =
      filter (\<lambda>p. length p < k) [candidate filename ?dir] @
      (case ?rest of [] \<Rightarrow> [] | _ # n \<Rightarrow> candidates k filename n)" for k
    unfolding candidates_def by (subst colon_split_step) (cases ?rest; simp del: dropWhile_eq_Nil_conv)
  obtain b where b: "build_candidate buf ?dir filename = Some b"
    "case b of None \<Rightarrow> \<not> length (candidate filename ?dir) < length buf
     | Some b \<Rightarrow> length (candidate filename ?dir) < length buf \<and> length b = length buf \<and> cstr b 0 = candidate filename ?dir"
    using build_candidate_run [OF wf assms(1), of buf] by auto
  note step = execvpe_loop.simps [of execve filename buf path saved e tried]
  show ?case
  proof (cases b)
    case None
    then show ?thesis
      using b less next_len
      by (cases ?rest) (auto simp: step split loop_result_def simp del: dropWhile_eq_Nil_conv)
  next
    case (Some b')
    let ?p = "candidate filename ?dir"
    have b': "length ?p < length buf" "length b' = length buf" "cstr b' 0 = ?p" using b Some by auto
    show ?thesis
    proof (cases "execve ?p")
      case None
      then show ?thesis using b Some b' by (simp add: step split loop_result_def Let_def)
    next
      case err: (Some e')
      show ?thesis
      proof (cases "fatal e' \<or> ?rest = []")
        case True
        then show ?thesis
          using b Some b' err less.prems(2)
          by (cases ?rest) (auto simp: step split loop_result_def Let_def fatal_def errno_after_def
              simp del: dropWhile_eq_Nil_conv split: option.splits)
      next
        case False
        then obtain c n where rest: "?rest = c # n" by (cases ?rest) auto
        let ?saved = "if e' = EACCES then Some EACCES else saved"
        have "execvpe_loop execve filename b' n ?saved (Some e') (tried @ [?p])
            = Some (loop_result execve (candidates (length buf) filename n) ?saved (Some e') (tried @ [?p]))"
          using less.hyps [of n ?saved b' "Some e'" "tried @ [?p]"] next_len [OF rest] less.prems(2) b'(2) by auto
        then show ?thesis
          using False b Some b' err rest
          by (auto simp: step split loop_result_def Let_def fatal_def errno_after_def split: prod.splits option.splits)
      qed
    qed
  qed
qed

section \<open>Spawn attributes\<close>

text \<open>An attribute of a structure: what is set is got back, the last setting counts, and nothing else changes.\<close>

locale attribute =
  fixes get :: "'s \<Rightarrow> 'v" and set :: "'s \<Rightarrow> 'v \<Rightarrow> 's"
  assumes get_set: "get (set s v) = v" and set_get: "set s (get s) = s" and set_set: "set (set s v) w = set s w"
begin

lemma set_eq_iff: "set s v = set s w \<longleftrightarrow> v = w"
  by (metis get_set)

lemma overwritten: "get (set (set s v) w) = w"
  by (simp add: get_set)

end

interpretation spawn_flags: attribute posix_spawnattr_getflags posix_spawnattr_setflags
  by unfold_locales (simp_all add: posix_spawnattr_getflags_def posix_spawnattr_setflags_def)

interpretation spawn_sigdefault: attribute posix_spawnattr_getsigdefault posix_spawnattr_setsigdefault
  by unfold_locales (simp_all add: posix_spawnattr_getsigdefault_def posix_spawnattr_setsigdefault_def)

interpretation spawn_sigmask: attribute posix_spawnattr_getsigmask posix_spawnattr_setsigmask
  by unfold_locales (simp_all add: posix_spawnattr_getsigmask_def posix_spawnattr_setsigmask_def)

interpretation spawn_pgroup: attribute posix_spawnattr_getpgroup posix_spawnattr_setpgroup
  by unfold_locales (simp_all add: posix_spawnattr_getpgroup_def posix_spawnattr_setpgroup_def)

text \<open>The scheduling policy is not such an attribute: it is not stored.\<close>

lemma schedpolicy_not_stored: "posix_spawnattr_getschedpolicy (posix_spawnattr_setschedpolicy attr 2) \<noteq> 2"
  by (simp add: posix_spawnattr_getschedpolicy_def)

text \<open>File actions are accepted and dropped; \<^verbatim>\<open>posix_spawn\<close> does not look at them or at the attributes.\<close>

lemma spawn_ignores_actions:
  "posix_spawn_file_actions_adddup2 facts a b = (None, facts)"
  "posix_spawn forked exec_ok want_pid path (Ptr facts) (Ptr attr) argv envp
     = posix_spawn forked exec_ok want_pid path NULL NULL argv envp"
  by (simp_all add: posix_spawn_file_actions_adddup2_def posix_spawn_def)

section \<open>Groups\<close>

definition memberships :: "(u32 \<times> string list) list \<Rightarrow> string \<Rightarrow> u32 \<Rightarrow> u32 list" where
  "memberships db user g = map fst (filter (\<lambda>(gid, mem). gid \<noteq> g \<and> user \<in> set mem) db)"

definition fill :: "'a list \<Rightarrow> nat \<Rightarrow> 'a list \<Rightarrow> nat \<Rightarrow> 'a list" where
  "fill xs n buf k = (let m = min (length xs) (n - k) in take k buf @ take m xs @ drop (k + m) buf)"

lemma fill_Cons:
  assumes "k < n" "n \<le> length buf"
  shows "fill (x # xs) n buf k = fill xs n (buf[k := x]) (k + 1)"
proof -
  have "min (length (x # xs)) (n - k) = Suc (min (length xs) (n - (k + 1)))" using assms by auto
  then show ?thesis using assms by (simp add: fill_def Let_def take_Suc_conv_app_nth)
qed

lemma fill_full: "n \<le> k \<Longrightarrow> fill xs n buf k = buf"
  by (simp add: fill_def)

lemma grouplist_loop_run:
  assumes "nat mx \<le> length groups"
  shows "grouplist_loop user g mx db groups k =
    Some (fill (memberships db user g) (nat mx) groups k, k + length (memberships db user g))"
  using assms
proof (induction db arbitrary: groups k)
  case Nil
  then show ?case by (simp add: memberships_def fill_def)
next
  case (Cons e db)
  obtain gid mem where e: "e = (gid, mem)" by (cases e)
  show ?case
  proof (cases "gid \<noteq> g \<and> user \<in> set mem")
    case True
    then have m: "memberships (e # db) user g = gid # memberships db user g" by (simp add: memberships_def e)
    show ?thesis
    proof (cases "int k < mx")
      case fits: True
      then have "k < nat mx" by linarith
      then show ?thesis
        using True fits Cons.IH [of "groups[k := gid]" "k + 1"] Cons.prems fill_Cons [of k "nat mx" groups gid]
        by (simp add: e wr_def m [unfolded e])
    next
      case False
      then have "nat mx \<le> k" by linarith
      then show ?thesis
        using True False Cons.IH [of groups "k + 1"] Cons.prems by (simp add: e m [unfolded e] fill_full)
    qed
  next
    case False
    then have "memberships (e # db) user g = memberships db user g" by (auto simp: memberships_def e)
    then show ?thesis using False Cons.IH [of groups k] Cons.prems by (auto simp: e)
  qed
qed

section \<open>Properties\<close>

text \<open>The path that is searched: of the given environment, else of the caller's, else the default.\<close>

definition effective_path :: "string ptr \<Rightarrow> string list ptr \<Rightarrow> string" where
  "effective_path getenv_path envp =
     (case (case envp of NULL \<Rightarrow> getenv_path
            | Ptr vs \<Rightarrow> (case env_path vs of NULL \<Rightarrow> getenv_path | Ptr p \<Rightarrow> Ptr p)) of
        NULL \<Rightarrow> ''/usr/bin:/bin'' | Ptr p \<Rightarrow> if p = [] then ''/usr/bin:/bin'' else p)"

text \<open>
  C19. The loop of \<^verbatim>\<open>execvpe\<close> implements the search over the candidate file names: for a name without a
  slash it tries exactly the names \<open>dir/name\<close> of the components of the path in order (\<open>./name\<close> for an
  empty one), leaving out those that do not fit the buffer, up to the first that executes or fails
  other than by absence or refusal, never writes outside the buffer, and always ends; the failure it
  reports is \<open>EACCES\<close> when a candidate was refused and otherwise the last error.
\<close>

theorem execvpe_search:
  assumes "wf_cstr filename" and "CHR ''/'' \<notin> set filename" and "wf_cstr (effective_path getenv_path envp)"
    and "scan execve (candidates (length buf) filename (effective_path getenv_path envp)) = (tried, errs, r)"
  shows "execvpe execve getenv_path buf filename envp = Some (exec_report errs r, tried)"
proof -
  have "execvpe execve getenv_path buf filename envp
      = execvpe_loop execve filename buf (effective_path getenv_path envp) None None []"
    using assms(2) by (auto simp: execvpe_def effective_path_def Let_def split: ptr.splits)
  also have "\<dots> = Some (exec_report errs r, tried)"
    unfolding execvpe_loop_run [OF assms(1,3), of None, simplified]
    by (auto simp: loop_result_def assms(4) exec_report_def errno_after_def split: option.split)
  finally show ?thesis .
qed

definition sample_exec :: "string \<Rightarrow> errno option" where
  "sample_exec p = (if p = ''/opt/ls'' then None else if p = ''./ls'' then Some EACCES else Some ENOENT)"

theorem execvpe_search_witness:
  "execvpe sample_exec NULL (replicate 10 NUL) ''ls'' (Ptr [''A=1'', ''PATH=/bin::/usr/local/bin:/opt:/sbin''])
     = Some (Executed ''/opt/ls'', [''/bin/ls'', ''./ls'', ''/opt/ls''])"
proof -
  let ?p = "''/bin::/usr/local/bin:/opt:/sbin''"
  have p: "effective_path NULL (Ptr [''A=1'', ''PATH='' @ ?p]) = ?p" by (simp add: effective_path_def)
  have "scan sample_exec (candidates 10 ''ls'' ?p) = ([''/bin/ls'', ''./ls'', ''/opt/ls''], [ENOENT, EACCES], Some ''/opt/ls'')"
    by (simp add: candidates_def candidate_def sample_exec_def fatal_def)
  with execvpe_search [of "''ls''" NULL "Ptr [''A=1'', ''PATH='' @ ?p]" sample_exec "replicate 10 NUL"] p
  show ?thesis by (simp add: exec_report_def)
qed

text \<open>A fatal error after a refused candidate is reported as \<open>EACCES\<close>: the remembered error wins.\<close>

lemma execvpe_masks_fatal:
  "execvpe (\<lambda>p. if p = ''/a/x'' then Some EACCES else Some ENOMEM) NULL (replicate 10 NUL) ''x'' (Ptr [''PATH=/a:/b''])
     = Some (ExecFails (Some EACCES), [''/a/x'', ''/b/x''])"
proof -
  let ?f = "\<lambda>p. if p = ''/a/x'' then Some EACCES else Some ENOMEM"
  have p: "effective_path NULL (Ptr [''PATH=/a:/b'']) = ''/a:/b''" by (simp add: effective_path_def)
  have "scan ?f (candidates 10 ''x'' ''/a:/b'') = ([''/a/x'', ''/b/x''], [EACCES, ENOMEM], None)"
    by (simp add: candidates_def candidate_def fatal_def)
  with execvpe_loop_run [of "''x''" "''/a:/b''" None ?f "replicate 10 NUL" None "[]"]
  show ?thesis by (simp add: execvpe_def loop_result_def)
qed

text \<open>
  \<^verbatim>\<open>getgrouplist\<close> gives the primary group followed by the groups that list the user, in database
  order, cut to the size of the array and never written past it; \<open>*ngroups\<close> is the full number and the
  result is -1 exactly when it does not fit.
\<close>

lemma getgrouplist_lists:
  assumes "nat n \<le> length groups"
  shows "getgrouplist db user g groups n =
    (let all = g # memberships db user g; k = min (length all) (nat n)
     in Some (if int (length all) > n then -1 else 0, take k all @ drop k groups, int (length all)))"
proof (cases "0 < n")
  case True
  then have "0 < nat n" "groups \<noteq> []" using assms by auto
  then have "fill (memberships db user g) (nat n) (groups[0 := g]) 1 = fill (g # memberships db user g) (nat n) groups 0"
    using fill_Cons [of 0 "nat n" groups g] assms by simp
  then show ?thesis
    using True \<open>groups \<noteq> []\<close> grouplist_loop_run [of n "groups[0 := g]" user g db 1] assms
    by (simp add: getgrouplist_def wr_def fill_def Let_def)
next
  case False
  then show ?thesis
    using grouplist_loop_run [of n groups user g db 1] assms by (simp add: getgrouplist_def fill_full Let_def)
qed

theorem getgrouplist_lists_witness:
  "getgrouplist [(5, [''bob'']), (7, [''al'', ''bob'']), (3, [''bob'']), (9, [''al''])] ''bob'' 3 [0, 0, 0] 2
     = Some (-1, [3, 5, 0], 3)"
  using getgrouplist_lists [of 2 "[0, 0, 0]" "[(5, [''bob'']), (7, [''al'', ''bob'']), (3, [''bob'']), (9, [''al''])]" "''bob''" 3]
  by (simp add: memberships_def)

text \<open>Times with their nanoseconds in range; a clock that shows at least the wait of one attempt at the next.\<close>

definition normal_ts :: "timespec \<Rightarrow> bool" where
  "normal_ts t \<longleftrightarrow> 0 \<le> tv_nsec t \<and> tv_nsec t < 1000000000"

definition clock_waits :: "(nat \<Rightarrow> errno + timespec) \<Rightarrow> bool" where
  "clock_waits clk \<longleftrightarrow> (\<forall>k now. clk k = Inr now \<longrightarrow> normal_ts now
     \<and> (\<forall>later. clk (Suc k) = Inr later \<longrightarrow> ns now + poll_ns \<le> ns later))"

lemma deadline_ns: "normal_ts now \<Longrightarrow> normal_ts t \<Longrightarrow> deadline_reached now t \<longleftrightarrow> ns t \<le> ns now"
  by (auto simp: deadline_reached_def normal_ts_def ns_def)

lemma clock_waits_sum:
  assumes "clock_waits clk" and "\<And>j. j \<le> m \<Longrightarrow> \<exists>now. clk j = Inr now"
  shows "\<exists>first last. clk 0 = Inr first \<and> clk m = Inr last \<and> ns first + int m * poll_ns \<le> ns last"
  using assms(2)
proof (induction m)
  case (Suc m)
  then obtain first last where IH: "clk 0 = Inr first" "clk m = Inr last" "ns first + int m * poll_ns \<le> ns last" by force
  obtain now where now: "clk (Suc m) = Inr now" using Suc.prems by blast
  then have "ns last + poll_ns \<le> ns now" using assms(1) IH(2) by (auto simp: clock_waits_def)
  with IH now show ?case by (auto simp: algebra_simps)
qed force

text \<open>
  C34. The timed lock ends and keeps its deadline. When the clock advances by at least the 10 milliseconds that
  each wait asks for, the loop returns; every attempt before the last found the lock busy before the deadline; the last
  one has the lock, or the lock's own error, or the clock's error, or found the lock busy at a time not before the
  deadline, and only then \<open>ETIMEDOUT\<close> is returned for it; the number of attempts is at most one more than the 10-millisecond
  intervals begun between the first reading and the deadline. Without a deadline the call refuses with \<open>EINVAL\<close>.
\<close>

theorem rwlock_timed_returns:
  assumes "normal_ts t" and "clock_waits clk"
  shows "(\<exists>m r. rwlock_timed_common try_lock clk (Ptr t) = Some (r, m + 1)
      \<and> (\<forall>j < m. try_lock j = Some EBUSY \<and> (\<exists>now. clk j = Inr now \<and> ns now < ns t))
      \<and> (try_lock m \<noteq> Some EBUSY \<and> r = try_lock m
         \<or> try_lock m = Some EBUSY \<and> (\<exists>e. clk m = Inl e \<and> r = Some e)
         \<or> try_lock m = Some EBUSY \<and> (\<exists>now. clk m = Inr now \<and> ns t \<le> ns now \<and> r = Some ETIMEDOUT))
      \<and> (\<forall>now. clk 0 = Inr now \<longrightarrow> int m * 10000000 < max 0 (ns t - ns now) + 10000000))
    \<and> rwlock_timed_common try_lock clk NULL = Some (Some EINVAL, 0)"
proof -
  have normal: "normal_ts now" if "clk j = Inr now" for j now using assms(2) that by (auto simp: clock_waits_def)
  have busy: "rwlock_pass try_lock clk t j = None \<longleftrightarrow> try_lock j = Some EBUSY \<and> (\<exists>now. clk j = Inr now \<and> ns now < ns t)" for j
    using deadline_ns [OF normal assms(1), of j] by (auto simp: rwlock_pass_def not_le split: sum.splits)
  have "\<exists>n. rwlock_pass try_lock clk t n \<noteq> None"
  proof (rule ccontr)
    assume "\<not> ?thesis"
    then have all: "\<exists>now. clk j = Inr now \<and> ns now < ns t" for j using busy by blast
    then obtain first where first: "clk 0 = Inr first" by blast
    define m where "m = nat (ns t - ns first)"
    obtain last where "clk m = Inr last" "ns first + int m * poll_ns \<le> ns last"
      using clock_waits_sum [OF assms(2), of m] all first by force
    moreover have "ns t \<le> ns first + int m * poll_ns" by (simp add: m_def poll_ns_def)
    ultimately show False using all [of m] by auto
  qed
  then obtain n where "rwlock_pass try_lock clk t n \<noteq> None" ..
  then obtain m r where m: "rwlock_pass try_lock clk t m = Some r" "\<forall>j. j < m \<longrightarrow> rwlock_pass try_lock clk t j = None"
    "poll_until (rwlock_pass try_lock clk t) 0 = Some (r, m + 1)"
    using poll_until_first [of "rwlock_pass try_lock clk t" n 0] by auto
  have "int m * 10000000 < max 0 (ns t - ns now) + 10000000" if now: "clk 0 = Inr now" for now
  proof (cases m)
    case (Suc k)
    obtain last where "clk k = Inr last" "ns now + int k * poll_ns \<le> ns last" "ns last < ns t"
      using clock_waits_sum [OF assms(2), of k] m(2) busy Suc now by (force simp: less_Suc_eq_le)
    then show ?thesis by (simp add: Suc poll_ns_def)
  qed simp
  moreover have "try_lock m \<noteq> Some EBUSY \<and> r = try_lock m \<or> try_lock m = Some EBUSY \<and> (\<exists>e. clk m = Inl e \<and> r = Some e)
      \<or> try_lock m = Some EBUSY \<and> (\<exists>now. clk m = Inr now \<and> ns t \<le> ns now \<and> r = Some ETIMEDOUT)"
    using m(1) deadline_ns [OF normal assms(1), of m] by (auto simp: rwlock_pass_def split: if_splits sum.splits)
  ultimately show ?thesis using m busy by (auto simp: rwlock_timed_common_def)
qed

theorem rwlock_timed_returns_witness:
  "\<exists>m. rwlock_timed_common (\<lambda>_. Some EBUSY) (\<lambda>k. Inr \<lparr>tv_sec = int k, tv_nsec = 0\<rparr>) (Ptr \<lparr>tv_sec = 3, tv_nsec = 5\<rparr>)
     = Some (Some ETIMEDOUT, m + 1) \<and> 3 < m"
  using rwlock_timed_returns [of "\<lparr>tv_sec = 3, tv_nsec = 5\<rparr>" "\<lambda>k. Inr \<lparr>tv_sec = int k, tv_nsec = 0\<rparr>" "\<lambda>_. Some EBUSY"]
  by (auto simp: normal_ts_def clock_waits_def ns_def poll_ns_def)

text \<open>
  The flag-taking calls leave exactly the descriptors asked for: the pipe's two ends, the copy and the
  temporary file are close-on-exec exactly when \<open>O_CLOEXEC\<close> is given, the status flags of their
  descriptions have the ones given and their access mode, and no other descriptor or description changes.
\<close>

theorem descriptor_flags:
  assumes "r \<noteq> w" and "i \<noteq> j" and "old \<noteq> new" and "fds s old = Some d" and "0 \<le> new"
  shows "pipe2 (Inr ((r, i), (w, j))) flags s = (Inr (r, w),
      s\<lparr>fds := (fds s)(r \<mapsto> \<lparr>ofd = i, cloexec = flag_in flags O_CLOEXEC\<rparr>, w \<mapsto> \<lparr>ofd = j, cloexec = flag_in flags O_CLOEXEC\<rparr>),
        ofd_flags := (ofd_flags s)(i := if flag_in flags O_NONBLOCK then O_NONBLOCK else 0,
                                   j := if flag_in flags O_NONBLOCK then 1 OR O_NONBLOCK else 1)\<rparr>)
    \<and> dup3 old new flags s = (Inr new, s\<lparr>fds := (fds s)(new \<mapsto> d\<lparr>cloexec := flag_in flags O_CLOEXEC\<rparr>)\<rparr>)
    \<and> mkostemp (Inr (r, i)) flags s = (Inr r,
      s\<lparr>fds := (fds s)(r \<mapsto> \<lparr>ofd = i, cloexec = flag_in flags O_CLOEXEC\<rparr>),
        ofd_flags := (ofd_flags s)(i := if flag_in flags O_APPEND then 2 OR O_APPEND else 2)\<rparr>)"
proof -
  obtain t f where s: "s = \<lparr>fds = t, ofd_flags = f\<rparr>" by (cases s)
  have "pipe2 (Inr ((r, i), (w, j))) flags s = (Inr (r, w),
      s\<lparr>fds := (fds s)(r \<mapsto> \<lparr>ofd = i, cloexec = flag_in flags O_CLOEXEC\<rparr>, w \<mapsto> \<lparr>ofd = j, cloexec = flag_in flags O_CLOEXEC\<rparr>),
        ofd_flags := (ofd_flags s)(i := if flag_in flags O_NONBLOCK then O_NONBLOCK else 0,
                                   j := if flag_in flags O_NONBLOCK then 1 OR O_NONBLOCK else 1)\<rparr>)"
    using assms(1,2) by (auto simp: pipe2_def sys_pipe_def add_status_def set_cloexec_def s Let_def fun_eq_iff)
  moreover have "dup3 old new flags s = (Inr new, s\<lparr>fds := (fds s)(new \<mapsto> d\<lparr>cloexec := flag_in flags O_CLOEXEC\<rparr>)\<rparr>)"
    using assms(3-5) by (auto simp: dup3_def dup2_def set_cloexec_def)
  moreover have "mkostemp (Inr (r, i)) flags s = (Inr r,
      s\<lparr>fds := (fds s)(r \<mapsto> \<lparr>ofd = i, cloexec = flag_in flags O_CLOEXEC\<rparr>),
        ofd_flags := (ofd_flags s)(i := if flag_in flags O_APPEND then 2 OR O_APPEND else 2)\<rparr>)"
    by (auto simp: mkostemp_def sys_mkstemp_def add_status_def set_cloexec_def s Let_def)
  ultimately show ?thesis by blast
qed

theorem descriptor_flags_witness:
  "fds (snd (dup3 0 7 O_CLOEXEC \<lparr>fds = [0 \<mapsto> \<lparr>ofd = 1, cloexec = False\<rparr>], ofd_flags = (\<lambda>_. 0)\<rparr>)) 7
     = Some \<lparr>ofd = 1, cloexec = True\<rparr>"
  using descriptor_flags [of 3 4 5 6 0 7 "\<lparr>fds = [0 \<mapsto> \<lparr>ofd = 1, cloexec = False\<rparr>], ofd_flags = (\<lambda>_. 0)\<rparr>" "\<lparr>ofd = 1, cloexec = False\<rparr>"
      O_CLOEXEC]
  by (simp add: flag_in_def O_CLOEXEC_def)

text \<open>
  The child of \<^verbatim>\<open>daemon\<close> leads a session, is in the root directory, has the null device on its three
  standard descriptors, and keeps no further descriptor for it.
\<close>

lemma daemon_detaches:
  assumes "0 \<le> fd" and "fds (d_fds p) fd = None"
    and "daemon (Inr 0) None True (Inr (fd, i)) False False p = (r, p')"
  shows "r = Returns (Inr ())" "d_leader p'" "d_cwd p' = ''/''"
    "fds (d_fds p') 0 = Some \<lparr>ofd = i, cloexec = False\<rparr>" "fds (d_fds p') 1 = Some \<lparr>ofd = i, cloexec = False\<rparr>"
    "fds (d_fds p') 2 = Some \<lparr>ofd = i, cloexec = False\<rparr>"
    "fd > 2 \<Longrightarrow> fds (d_fds p') fd = None"
    "k > 2 \<Longrightarrow> fds (d_fds p') k = fds (d_fds p) k"
  using assms
  by (auto simp: daemon_def sys_open_null_def dup2_def close_fd_def Let_def split: if_splits)

end
