(* ===== verification/Filesystem.thy ===== *)
theory Filesystem
  imports At_Funcs Clock
begin

text \<open>
  Files and directories, \<open>src/src/filesystem.c\<close>: time stamps (\<open>utimes\<close>, \<open>futimens\<close>, \<open>utimensat\<close>,
  \<open>futimesat\<close>) over \<open>utime\<close>, \<open>flock\<close> over \<open>fcntl\<close>, \<open>scandir\<close>, \<open>fdopendir\<close>, \<open>posix_fallocate\<close>, and the
  extended-attribute stubs.

  Path building and the walk through another directory are those of \<open>At_Funcs\<close>, without its mutex. The
  system's \<open>utime\<close>, \<open>stat\<close>, \<open>fcntl\<close>, \<open>opendir\<close> and \<open>qsort\<close> are parameters.
\<close>

section \<open>Time stamps\<close>

text \<open>
  \<open>utime\<close> and the times \<open>stat\<close> reports, by working directory and path, and \<open>fstat\<close> by descriptor.
  The pair is access and modification time in seconds; no pair means the current time.
\<close>

record 'w time_os =
  t_utime :: "nat \<Rightarrow> string \<Rightarrow> (int \<times> int) option \<Rightarrow> 'w \<Rightarrow> errno option \<times> 'w"
  t_stat :: "nat \<Rightarrow> string \<Rightarrow> 'w \<Rightarrow> errno + int \<times> int"
  t_fstat :: "int \<Rightarrow> 'w \<Rightarrow> errno + int \<times> int"
  t_now :: int
  t_pid :: int

definition UTIME_NOW :: int where "UTIME_NOW = 2 ^ 30 - 1"
definition UTIME_OMIT :: int where "UTIME_OMIT = 2 ^ 30 - 2"

definition utime :: "'w time_os \<Rightarrow> string \<Rightarrow> (int \<times> int) option \<Rightarrow> 'w fs \<Rightarrow> errno option \<times> 'w fs" where
  "utime os path tm s = (case t_utime os (cwd s) path tm (disk s) of (r, w) \<Rightarrow> (r, s\<lparr>disk := w\<rparr>))"

definition utimes :: "'w time_os \<Rightarrow> string \<Rightarrow> (timeval \<times> timeval) ptr \<Rightarrow> 'w fs \<Rightarrow> errno option \<times> 'w fs" where
  "utimes os path tv s = (case tv of
       NULL \<Rightarrow> utime os path None s
     | Ptr (a, m) \<Rightarrow> utime os path (Some (sec a, sec m)) s)"

text \<open>One of the two conditional expressions; \<open>old\<close> is the file's own time.\<close>

definition pick_time :: "int \<Rightarrow> int \<Rightarrow> timespec \<Rightarrow> int" where
  "pick_time now old ts =
     (if tv_nsec ts = UTIME_NOW then now else if tv_nsec ts = UTIME_OMIT then old else tv_sec ts)"

text \<open>
  The pair for \<open>utime\<close>. \<open>stat\<close> is asked only when a time is to be kept; otherwise \<open>st\<close> is indeterminate
  and its value, \<open>(0, 0)\<close> here, is not used.
\<close>

definition new_times :: "int \<Rightarrow> errno + int \<times> int \<Rightarrow> timespec \<times> timespec \<Rightarrow> errno + int \<times> int" where
  "new_times now stat_answer = (\<lambda>(a, m).
     case (if tv_nsec a = UTIME_OMIT \<or> tv_nsec m = UTIME_OMIT then stat_answer else Inr (0, 0)) of
       Inl e \<Rightarrow> Inl e
     | Inr (atime, mtime) \<Rightarrow> Inr (pick_time now atime a, pick_time now mtime m))"

text \<open>The text of a \<open>/proc\<close> path in the 64-byte array; \<open>vsprintf\<close> formats the numbers.\<close>

definition procpath ::
    "path_env \<Rightarrow> (string \<Rightarrow> int list \<Rightarrow> string option) \<Rightarrow> cbuf \<Rightarrow> string \<Rightarrow> int list \<Rightarrow> string option" where
  "procpath env vsprintf buf fmt nums =
     (case solcompat_snprintf (usable env) vsprintf (fmt_buf env) (Ptr buf) 64 fmt nums of
        None \<Rightarrow> None
      | Some r \<Rightarrow> (case vr_str r of Ptr b \<Rightarrow> Some (cstr b 0) | NULL \<Rightarrow> None))"

definition futimens where
  "futimens os env vsprintf buf fd tms s =
     (case (case tms of NULL \<Rightarrow> Inr None
            | Ptr ts \<Rightarrow> map_sum id Some (new_times (t_now os) (t_fstat os fd (disk s)) ts)) of
        Inl e \<Rightarrow> Some (Some e, s)
      | Inr ut \<Rightarrow> do {
          p1 \<leftarrow> procpath env vsprintf buf ''/proc/self/fd/%d'' [fd];
          (case utime os p1 ut s of
             (None, s) \<Rightarrow> Some (None, s)
           | (Some _, s) \<Rightarrow> do {
               p2 \<leftarrow> procpath env vsprintf buf ''/proc/%d/fd/%d'' [t_pid os, fd];
               (case utime os p2 ut s of
                  (None, s) \<Rightarrow> Some (None, s)
                | (Some _, s) \<Rightarrow> Some (Some ENOTSUP, s)) }) })"

text \<open>\<open>EOTHER 0\<close> stands for the error of the step that failed while the path was resolved.\<close>

definition utimensat ::
    "'w time_os \<Rightarrow> path_env \<Rightarrow> int \<Rightarrow> int \<Rightarrow> string \<Rightarrow> (timespec \<times> timespec) ptr \<Rightarrow> int \<Rightarrow> 'w fs
     \<Rightarrow> (errno option \<times> 'w fs) option" where
  "utimensat os env dot dirfd pathname tms flags s = do {
     (fullpath, s) \<leftarrow> full_path env dot dirfd pathname s;
     (case fullpath of
        None \<Rightarrow> Some (Some (EOTHER 0), s)
      | Some b \<Rightarrow>
          let path = cstr b 0 in
          (case tms of
             NULL \<Rightarrow> Some (utime os path None s)
           | Ptr ts \<Rightarrow>
               (case new_times (t_now os) (t_stat os (cwd s) path (disk s)) ts of
                  Inl e \<Rightarrow> Some (Some e, s)
                | Inr ut \<Rightarrow> Some (utime os path (Some ut) s)))) }"

definition to_timespec :: "timeval \<Rightarrow> timespec" where
  "to_timespec tv = \<lparr>tv_sec = sec tv, tv_nsec = i32 (usec tv * 1000)\<rparr>"

definition futimesat where
  "futimesat os env dot dirfd pathname tms s =
     (case tms of
        NULL \<Rightarrow> utimensat os env dot dirfd pathname NULL 0 s
      | Ptr (a, m) \<Rightarrow> utimensat os env dot dirfd pathname (Ptr (to_timespec a, to_timespec m)) 0 s)"

section \<open>Locking a file\<close>

datatype lock_type = F_RDLCK | F_WRLCK | F_UNLCK

text \<open>\<open>fcntl\<close> with a lock on the whole file; the flag says whether it waits.\<close>

definition flock :: "(int \<Rightarrow> bool \<Rightarrow> lock_type \<Rightarrow> 'w \<Rightarrow> errno option \<times> 'w) \<Rightarrow> int \<Rightarrow> int \<Rightarrow> 'w \<Rightarrow> errno option \<times> 'w" where
  "flock fcntl fd op w =
     (case (if op AND 8 \<noteq> 0 then Some F_UNLCK else if op AND 2 \<noteq> 0 then Some F_WRLCK
            else if op AND 1 \<noteq> 0 then Some F_RDLCK else None) of
        None \<Rightarrow> (Some EINVAL, w)
      | Some l_type \<Rightarrow>
          (case fcntl fd (op AND 4 = 0) l_type w of
             (None, w) \<Rightarrow> (None, w)
           | (Some e, w) \<Rightarrow> (Some (if e = EACCES then EWOULDBLOCK else e), w)))"

section \<open>Reading a directory\<close>

text \<open>An entry as \<open>readdir\<close> gives it: its number, and the name packed after the structure.\<close>

record dirent =
  d_ino :: nat
  d_name :: cbuf

text \<open>The blocks allocated, the allocations asked for so far, the open directories.\<close>

record sstate =
  sc_live :: nat
  sc_allocs :: nat
  sc_dirs :: nat

type_synonym alloc_answers = "nat \<Rightarrow> bool"

definition sc_malloc :: "alloc_answers \<Rightarrow> sstate \<Rightarrow> bool \<times> sstate" where
  "sc_malloc ok s = (ok (sc_allocs s),
     s\<lparr>sc_allocs := sc_allocs s + 1, sc_live := (if ok (sc_allocs s) then sc_live s + 1 else sc_live s)\<rparr>)"

definition sc_realloc :: "alloc_answers \<Rightarrow> sstate \<Rightarrow> bool \<times> sstate" where
  "sc_realloc ok s = (ok (sc_allocs s), s\<lparr>sc_allocs := sc_allocs s + 1\<rparr>)"

text \<open>The failure exits: free the entries and the list, close the directory.\<close>

definition scandir_fail :: "nat \<Rightarrow> sstate \<Rightarrow> sstate" where
  "scandir_fail count s = s\<lparr>sc_live := sc_live s - count - 1, sc_dirs := sc_dirs s - 1\<rparr>"

definition dup_entry :: "dirent \<Rightarrow> dirent option" where
  "dup_entry e = map_option (\<lambda>n. e\<lparr>d_name := take (n + 1) (d_name e)\<rparr>) (strlen_at (d_name e) 0)"

text \<open>
  \<open>arr\<close> is the array of pointers, as the entries they point to; pointers have 4 bytes, so the array has
  a quarter of the bytes asked for, which are computed modulo \<open>2\<^sup>3\<^sup>2\<close>.
\<close>

definition grow_array :: "dirent \<Rightarrow> nat \<Rightarrow> dirent list \<Rightarrow> dirent list" where
  "grow_array junk allocated arr =
     (let n = sz (allocated * 4) div 4 in take n arr @ replicate (n - length arr) junk)"

fun scandir_loop ::
    "alloc_answers \<Rightarrow> dirent \<Rightarrow> (dirent \<Rightarrow> bool) ptr \<Rightarrow> dirent list \<Rightarrow> dirent list \<Rightarrow> nat \<Rightarrow> nat \<Rightarrow> sstate
     \<Rightarrow> (dirent list option \<times> sstate) option" where
  "scandir_loop ok junk flt [] arr count allocated s = Some (Some (take count arr), s)"
| "scandir_loop ok junk flt (e # es) arr count allocated s =
     (if (case flt of NULL \<Rightarrow> False | Ptr f \<Rightarrow> \<not> f e)
      then scandir_loop ok junk flt es arr count allocated s
      else
        (case (if count \<ge> allocated
               then (case sc_realloc ok s of (got, s) \<Rightarrow> (got, grow_array junk (sz (allocated * 2)) arr, sz (allocated * 2), s))
               else (True, arr, allocated, s)) of
           (got, arr, allocated, s) \<Rightarrow>
             if \<not> got then Some (None, scandir_fail count s)
             else (case sc_malloc ok s of (got, s) \<Rightarrow>
               if \<not> got then Some (None, scandir_fail count s)
               else do {
                 d \<leftarrow> dup_entry e;
                 arr \<leftarrow> wr arr count d;
                 scandir_loop ok junk flt es arr (count + 1) allocated s })))"

text \<open>\<open>entries\<close> is what the directory holds, none when it cannot be opened; the result is the list or -1.\<close>

definition scandir ::
    "alloc_answers \<Rightarrow> ((dirent \<Rightarrow> dirent \<Rightarrow> int) \<Rightarrow> dirent list \<Rightarrow> dirent list) \<Rightarrow> dirent \<Rightarrow> dirent list ptr
     \<Rightarrow> (dirent \<Rightarrow> bool) ptr \<Rightarrow> (dirent \<Rightarrow> dirent \<Rightarrow> int) ptr \<Rightarrow> sstate \<Rightarrow> (dirent list option \<times> sstate) option" where
  "scandir ok qsort junk entries flt compar s =
     (case entries of
        NULL \<Rightarrow> Some (None, s)
      | Ptr es \<Rightarrow>
          let s = s\<lparr>sc_dirs := sc_dirs s + 1\<rparr> in
          (case sc_malloc ok s of (got, s) \<Rightarrow>
             if \<not> got then Some (None, s\<lparr>sc_dirs := sc_dirs s - 1\<rparr>)
             else do {
               (r, s) \<leftarrow> scandir_loop ok junk flt es (replicate 32 junk) 0 32 s;
               (case r of
                  None \<Rightarrow> Some (None, s)
                | Some xs \<Rightarrow>
                    Some (Some (case compar of
                                  NULL \<Rightarrow> xs
                                | Ptr c \<Rightarrow> if length xs > 1 then qsort c xs else xs),
                          s\<lparr>sc_dirs := sc_dirs s - 1\<rparr>)) }))"

definition alphasort :: "(string \<Rightarrow> string \<Rightarrow> int) \<Rightarrow> dirent \<Rightarrow> dirent \<Rightarrow> int" where
  "alphasort strcoll a b = strcoll (cstr (d_name a) 0) (cstr (d_name b) 0)"

text \<open>\<open>fdopendir\<close> opens the directory by its name; \<open>opendir\<close> is a parameter.\<close>

definition fdopendir :: "(string \<Rightarrow> 'd ptr) \<Rightarrow> path_env \<Rightarrow> int \<Rightarrow> int \<Rightarrow> 'w fs \<Rightarrow> (errno + 'd ptr) \<times> 'w fs" where
  "fdopendir opendir env dot fd s =
     (case resolve_dirfd_path env dot fd 1024 s of
        (None, s) \<Rightarrow> (Inl EBADF, s)
      | (Some dirpath, s) \<Rightarrow> (Inr (opendir dirpath), s))"

definition dirfd :: "int ptr \<Rightarrow> errno + int" where
  "dirfd dir_stream = (case dir_stream of NULL \<Rightarrow> Inl EINVAL | Ptr dd_fd \<Rightarrow> Inr dd_fd)"

definition posix_fadvise :: "int \<Rightarrow> int \<Rightarrow> int \<Rightarrow> int \<Rightarrow> errno option" where
  "posix_fadvise fd offset len advice = None"

section \<open>Extending a file\<close>

text \<open>\<open>off_t\<close> has 64 bits; the state is the size of the file.\<close>

definition i64 :: "int \<Rightarrow> int" where
  "i64 n = (n + 2 ^ 63) mod 2 ^ 64 - 2 ^ 63"

definition posix_fallocate :: "errno option \<Rightarrow> (int \<Rightarrow> errno option) \<Rightarrow> int \<Rightarrow> int \<Rightarrow> int \<Rightarrow> errno option \<times> int" where
  "posix_fallocate fstat_err ftruncate offset len st_size =
     (if offset < 0 \<or> len \<le> 0 then (Some EINVAL, st_size)
      else let required_size = i64 (offset + len) in
        (case fstat_err of
           Some e \<Rightarrow> (Some e, st_size)
         | None \<Rightarrow>
             if st_size \<ge> required_size then (None, st_size)
             else (case ftruncate required_size of
                     Some e \<Rightarrow> (Some e, st_size)
                   | None \<Rightarrow> (None, required_size))))"

section \<open>Extended attributes\<close>

definition getxattr :: "string \<Rightarrow> string \<Rightarrow> cbuf \<Rightarrow> nat \<Rightarrow> errno + nat" where "getxattr path name value n = Inl ENOTSUP"
definition lgetxattr :: "string \<Rightarrow> string \<Rightarrow> cbuf \<Rightarrow> nat \<Rightarrow> errno + nat" where "lgetxattr path name value n = Inl ENOTSUP"
definition fgetxattr :: "int \<Rightarrow> string \<Rightarrow> cbuf \<Rightarrow> nat \<Rightarrow> errno + nat" where "fgetxattr fd name value n = Inl ENOTSUP"
definition setxattr :: "string \<Rightarrow> string \<Rightarrow> cbuf \<Rightarrow> nat \<Rightarrow> int \<Rightarrow> errno option" where "setxattr path name value n flags = Some ENOTSUP"
definition lsetxattr :: "string \<Rightarrow> string \<Rightarrow> cbuf \<Rightarrow> nat \<Rightarrow> int \<Rightarrow> errno option" where "lsetxattr path name value n flags = Some ENOTSUP"
definition fsetxattr :: "int \<Rightarrow> string \<Rightarrow> cbuf \<Rightarrow> nat \<Rightarrow> int \<Rightarrow> errno option" where "fsetxattr fd name value n flags = Some ENOTSUP"
definition listxattr :: "string \<Rightarrow> cbuf \<Rightarrow> nat \<Rightarrow> errno + nat" where "listxattr path list n = Inl ENOTSUP"
definition llistxattr :: "string \<Rightarrow> cbuf \<Rightarrow> nat \<Rightarrow> errno + nat" where "llistxattr path list n = Inl ENOTSUP"
definition flistxattr :: "int \<Rightarrow> cbuf \<Rightarrow> nat \<Rightarrow> errno + nat" where "flistxattr fd list n = Inl ENOTSUP"
definition removexattr :: "string \<Rightarrow> string \<Rightarrow> errno option" where "removexattr path name = Some ENOTSUP"
definition lremovexattr :: "string \<Rightarrow> string \<Rightarrow> errno option" where "lremovexattr path name = Some ENOTSUP"
definition fremovexattr :: "int \<Rightarrow> string \<Rightarrow> errno option" where "fremovexattr fd name = Some ENOTSUP"

section \<open>Directory lists\<close>

definition kept :: "(dirent \<Rightarrow> bool) ptr \<Rightarrow> dirent \<Rightarrow> bool" where
  "kept flt e \<longleftrightarrow> (case flt of NULL \<Rightarrow> True | Ptr f \<Rightarrow> f e)"

text \<open>The copy of an entry: the whole name and its terminator.\<close>

definition copy_of :: "dirent \<Rightarrow> dirent" where
  "copy_of e = e\<lparr>d_name := cstr (d_name e) 0 @ [NUL]\<rparr>"

definition wf_entry :: "dirent \<Rightarrow> bool" where
  "wf_entry e \<longleftrightarrow> strlen_at (d_name e) 0 \<noteq> None"

lemma dup_entry_copy:
  assumes "wf_entry e"
  shows "dup_entry e = Some (copy_of e)"
proof -
  obtain n where n: "strlen_at (d_name e) 0 = Some n" using assms by (auto simp: wf_entry_def)
  obtain r where "d_name e = cstr (d_name e) 0 @ NUL # r" "n = length (cstr (d_name e) 0)"
    by (rule strlen_at_SomeE [OF n])
  then have "take (n + 1) (d_name e) = cstr (d_name e) 0 @ [NUL]"
    by (metis append.left_neutral append_Cons append_assoc append_eq_conv_conj length_append_singleton Suc_eq_plus1)
  with n show ?thesis by (simp add: dup_entry_def copy_of_def)
qed

definition scandir_post :: "alloc_answers \<Rightarrow> dirent list \<Rightarrow> nat \<Rightarrow> nat \<Rightarrow> dirent list option \<times> sstate \<Rightarrow> bool" where
  "scandir_post ok xs base dirs = (\<lambda>(r, s).
     case r of
       None \<Rightarrow> sc_live s = base \<and> sc_dirs s = dirs - 1 \<and> (\<exists>k. \<not> ok k)
     | Some ys \<Rightarrow> ys = xs \<and> sc_live s = base + length xs + 1 \<and> sc_dirs s = dirs)"

lemma scandir_loop_run:
  assumes "length arr = allocated" "count \<le> allocated" "0 < allocated" "sc_live s = base + count + 1"
    and "count + length es < 2 ^ 29" and "list_all wf_entry es"
  shows "\<exists>r. scandir_loop ok junk flt es arr count allocated s = Some r
    \<and> scandir_post ok (take count arr @ map copy_of (filter (kept flt) es)) base (sc_dirs s) r"
  using assms
proof (induction es arbitrary: arr count allocated s)
  case Nil
  then show ?case by (auto simp: scandir_post_def)
next
  case (Cons e es)
  show ?case
  proof (cases "kept flt e")
    case False
    then have "scandir_loop ok junk flt (e # es) arr count allocated s = scandir_loop ok junk flt es arr count allocated s"
      by (auto simp: kept_def split: ptr.splits)
    then show ?thesis using Cons.IH [of arr allocated count s] Cons.prems False by simp
  next
    case True
    define grown where "grown \<longleftrightarrow> allocated \<le> count"
    define n where "n = (if grown then allocated * 2 else allocated)"
    define s1 where "s1 = (if grown then snd (sc_realloc ok s) else s)"
    define arr1 where "arr1 = (if grown then grow_array junk n arr else arr)"
    have n: "grown \<Longrightarrow> sz (allocated * 2) = n" "grown \<Longrightarrow> sz (n * 4) div 4 = n" "count < n"
      using Cons.prems by (auto simp: n_def grown_def)
    have arr1: "length arr1 = n" "take count arr1 = take count arr"
      using n Cons.prems by (auto simp: arr1_def n_def grow_array_def Let_def)
    have s1: "sc_live s1 = base + count + 1" "sc_dirs s1 = sc_dirs s"
      using Cons.prems by (auto simp: s1_def sc_realloc_def)
    have step: "scandir_loop ok junk flt (e # es) arr count allocated s =
        (if grown \<and> \<not> ok (sc_allocs s) then Some (None, scandir_fail count s1)
         else if \<not> ok (sc_allocs s1) then Some (None, scandir_fail count (snd (sc_malloc ok s1)))
         else scandir_loop ok junk flt es (arr1[count := copy_of e]) (count + 1) n (snd (sc_malloc ok s1)))"
      using True n arr1 Cons.prems dup_entry_copy [of e]
      by (auto simp: kept_def grown_def s1_def arr1_def n_def sc_realloc_def sc_malloc_def wr_def
          scandir_fail_def split: ptr.splits)
    show ?thesis
    proof (cases "(grown \<and> \<not> ok (sc_allocs s)) \<or> \<not> ok (sc_allocs s1)")
      case fails: True
      then show ?thesis
        using step s1 by (auto simp: scandir_post_def scandir_fail_def sc_malloc_def)
    next
      case False
      let ?s = "snd (sc_malloc ok s1)"
      have "sc_live ?s = base + (count + 1) + 1" "sc_dirs ?s = sc_dirs s"
        using False s1 by (auto simp: sc_malloc_def)
      moreover have "take (count + 1) (arr1[count := copy_of e]) = take count arr @ [copy_of e]"
        using arr1 n(3) by (simp add: take_Suc_conv_app_nth)
      ultimately show ?thesis
        using Cons.IH [of "arr1[count := copy_of e]" n "count + 1" ?s] False step arr1 n(3) True Cons.prems by auto
    qed
  qed
qed

section \<open>Properties\<close>

text \<open>
  C20. \<^verbatim>\<open>scandir\<close> returns the filtered entries and leaks nothing: whatever allocations fail, it never writes
  outside its growing array, closes the directory on every path, and either fails with no block left
  allocated, which needs a failed allocation or an unreadable directory, or gives one copy of each
  entry the filter keeps, whole name included, in directory order before sorting, with exactly the
  list and one block per entry allocated.
\<close>

theorem scandir_complete_or_clean:
  assumes "list_all wf_entry es" and "length es < 2 ^ 29"
    and "xs = map copy_of (filter (kept flt) es)"
  shows "\<exists>r s'. scandir ok qsort junk (Ptr es) flt compar s = Some (r, s') \<and> sc_dirs s' = sc_dirs s \<and>
    (r = None \<and> sc_live s' = sc_live s \<and> (\<exists>k. \<not> ok k)
     \<or> r = Some (case compar of NULL \<Rightarrow> xs | Ptr c \<Rightarrow> if length xs > 1 then qsort c xs else xs)
       \<and> sc_live s' = sc_live s + length xs + 1)"
proof -
  let ?s = "snd (sc_malloc ok (s\<lparr>sc_dirs := sc_dirs s + 1\<rparr>))"
  show ?thesis
  proof (cases "ok (sc_allocs s)")
    case True
    then have s: "sc_live ?s = sc_live s + 1" "sc_dirs ?s = sc_dirs s + 1" by (simp_all add: sc_malloc_def)
    obtain r where r: "scandir_loop ok junk flt es (replicate 32 junk) 0 32 ?s = Some r"
      "scandir_post ok (take 0 (replicate 32 junk) @ map copy_of (filter (kept flt) es)) (sc_live s) (sc_dirs ?s) r"
      using scandir_loop_run [of "replicate 32 junk" 32 0 ?s "sc_live s" es ok junk flt] assms(1,2) s by auto
    have "scandir_post ok xs (sc_live s) (sc_dirs s + 1) r" using r(2) s by (simp add: assms(3))
    with True r(1) show ?thesis
      by (cases r; cases "fst r")
         (auto simp: scandir_def Let_def scandir_post_def sc_malloc_def split: ptr.splits)
  qed (auto simp: scandir_def sc_malloc_def Let_def)
qed

theorem scandir_complete_or_clean_witness:
  "\<exists>r s'. scandir (\<lambda>k. k < 2) (\<lambda>c xs. xs) \<lparr>d_ino = 0, d_name = []\<rparr>
       (Ptr [\<lparr>d_ino = 4, d_name = ''a'' @ [NUL]\<rparr>, \<lparr>d_ino = 5, d_name = ''b'' @ [NUL]\<rparr>]) NULL NULL
       \<lparr>sc_live = 9, sc_allocs = 0, sc_dirs = 0\<rparr> = Some (r, s') \<and> sc_dirs s' = 0"
  using scandir_complete_or_clean [of "[\<lparr>d_ino = 4, d_name = ''a'' @ [NUL]\<rparr>, \<lparr>d_ino = 5, d_name = ''b'' @ [NUL]\<rparr>]"
      _ NULL "\<lambda>k. k < 2" "\<lambda>c xs. xs" "\<lparr>d_ino = 0, d_name = []\<rparr>" NULL "\<lparr>sc_live = 9, sc_allocs = 0, sc_dirs = 0\<rparr>"]
  by (auto simp: wf_entry_def strlen_at_def cstr_def)

lemma to_timespec_plain: "tv_nsec (to_timespec tv) \<noteq> UTIME_NOW" "tv_nsec (to_timespec tv) \<noteq> UTIME_OMIT"
proof -
  have "(8 :: int) dvd i32 (usec tv * 1000)"
  proof -
    have "(8 :: int) dvd usec tv * 1000 + 2 ^ 31" by (intro dvd_add dvd_mult) simp_all
    then have "(8 :: int) dvd (usec tv * 1000 + 2 ^ 31) mod 2 ^ 32" by (rule dvd_mod) simp
    then show ?thesis unfolding i32_def by (rule dvd_diff) simp
  qed
  then show "tv_nsec (to_timespec tv) \<noteq> UTIME_NOW" "tv_nsec (to_timespec tv) \<noteq> UTIME_OMIT"
    by (auto simp: to_timespec_def UTIME_NOW_def UTIME_OMIT_def)
qed

text \<open>
  \<^verbatim>\<open>utimensat\<close> sets the times asked for on the designated file: when the full name fits the array, it is
  \<^verbatim>\<open>utime\<close> on that name with the current time for \<open>UTIME_NOW\<close>, the file's own time for \<open>UTIME_OMIT\<close> and the
  seconds otherwise, the working directory and the descriptors as before; \<^verbatim>\<open>futimesat\<close> sets the seconds of
  both times whatever the microseconds are, which are never mistaken for the two special values.
\<close>

lemma utimensat_sets_times:
  assumes "wf_env env" and "wf_cstr path" "length path < 4096" and "new_fd dot s" "dfd \<noteq> dot" "all_searchable s"
    and "full_name env dfd path s = Some name" and "length name < 1024"
  shows "utimensat os env dot dfd path NULL flags s = Some (utime os name None s)
    \<and> utimensat os env dot dfd path (Ptr ts) flags s =
      Some (case new_times (t_now os) (t_stat os (cwd s) name (disk s)) ts of
              Inl e \<Rightarrow> (Some e, s) | Inr ut \<Rightarrow> utime os name (Some ut) s)
    \<and> futimesat os env dot dfd path (Ptr (a, m)) s = Some (utime os name (Some (sec a, sec m)) s)"
proof -
  obtain b where b: "full_path env dot dfd path s = Some (b, s)"
    "map_option (\<lambda>b. cstr b 0) b = map_option (take 1023) (full_name env dfd path s)"
    using full_path_run [OF assms(1-6)] by blast
  then obtain b' where "b = Some b'" "cstr b' 0 = name" using assms(7,8) by auto
  with b(1) have plain: "utimensat os env dot dfd path tm flags s =
      Some (case tm of NULL \<Rightarrow> utime os name None s
            | Ptr ts \<Rightarrow> (case new_times (t_now os) (t_stat os (cwd s) name (disk s)) ts of
                Inl e \<Rightarrow> (Some e, s) | Inr ut \<Rightarrow> utime os name (Some ut) s))" for tm flags
    by (auto simp: utimensat_def split: ptr.split sum.split)
  have "new_times now st (to_timespec a, to_timespec m) = Inr (sec a, sec m)" for now st
    by (simp add: new_times_def to_timespec_plain pick_time_def) (simp add: to_timespec_def)
  then show ?thesis by (simp add: plain futimesat_def)
qed

definition sample_time_os :: "string list time_os" where
  "sample_time_os = \<lparr>t_utime = (\<lambda>d p tm w. (None, w @ [p])), t_stat = (\<lambda>_ _ _. Inr (1, 2)), t_fstat = (\<lambda>_ _. Inr (1, 2)),
     t_now = 100, t_pid = 7\<rparr>"

theorem utimensat_sets_times_witness:
  "utimensat sample_time_os sample_path_env 3 4 ''f'' (Ptr (\<lparr>tv_sec = 5, tv_nsec = UTIME_OMIT\<rparr>, \<lparr>tv_sec = 6, tv_nsec = 0\<rparr>)) 0 sample_fs
     = Some (None, sample_fs\<lparr>disk := [''/srv/f'']\<rparr>)
   \<and> new_times 100 (Inr (1, 2)) (\<lparr>tv_sec = 5, tv_nsec = UTIME_OMIT\<rparr>, \<lparr>tv_sec = 6, tv_nsec = 0\<rparr>) = Inr (1, 6)"
  using utimensat_sets_times [of sample_path_env "''f''" 3 sample_fs 4 "''/srv/f''" sample_time_os 0
      "(\<lparr>tv_sec = 5, tv_nsec = UTIME_OMIT\<rparr>, \<lparr>tv_sec = 6, tv_nsec = 0\<rparr>)"] sample_path_env_wf
  by (simp add: sample_names sample_time_os_def utime_def new_times_def pick_time_def UTIME_OMIT_def UTIME_NOW_def)

text \<open>
  \<^verbatim>\<open>posix_fallocate\<close> makes the file at least \<open>offset + len\<close> bytes long, without shrinking it, or fails and
  leaves its size: for a range that does not pass the largest offset, success means the new size is the
  larger of the two, and bad arguments, a failing \<^verbatim>\<open>fstat\<close> and a failing \<^verbatim>\<open>ftruncate\<close> are reported.
\<close>

theorem posix_fallocate_extends:
  assumes "offset + len < 2 ^ 63"
  shows "posix_fallocate fstat_err trunc offset len st_size =
    (if offset < 0 \<or> len \<le> 0 then (Some EINVAL, st_size)
     else if fstat_err \<noteq> None then (fstat_err, st_size)
     else if offset + len \<le> st_size then (None, st_size)
     else if trunc (offset + len) \<noteq> None then (trunc (offset + len), st_size)
     else (None, max st_size (offset + len)))"
proof -
  have "i64 (offset + len) = offset + len" if "\<not> (offset < 0 \<or> len \<le> 0)"
    using assms that by (simp add: i64_def)
  then show ?thesis by (auto simp: posix_fallocate_def Let_def split: option.split)
qed

theorem posix_fallocate_extends_witness:
  "posix_fallocate None (\<lambda>_. None) 10 5 12 = (None, 15)"
  using posix_fallocate_extends [of 10 5 None "\<lambda>_. None" 12] by simp

text \<open>The sum is not checked: past the largest offset it wraps, and the call reports success and does nothing.\<close>

lemma posix_fallocate_overflow:
  assumes "0 \<le> offset" "offset < 2 ^ 63" "0 < len" "len < 2 ^ 63" "2 ^ 63 \<le> offset + len" "0 \<le> st_size"
  shows "posix_fallocate None trunc offset len st_size = (None, st_size)"
proof -
  have "(offset + len + 2 ^ 63) mod 2 ^ 64 = (offset + len + 2 ^ 63 - 2 ^ 64) mod 2 ^ 64"
    by (rule minus_mod_self2 [symmetric])
  also have "\<dots> = offset + len + 2 ^ 63 - 2 ^ 64" using assms by (intro mod_pos_pos_trivial) simp_all
  finally have "i64 (offset + len) = offset + len - 2 ^ 64" by (simp add: i64_def)
  then show ?thesis using assms by (simp add: posix_fallocate_def)
qed

end
