(* ===== verification/Alloc.thy ===== *)
theory Alloc
  imports Prelude
begin

text \<open>
  Allocation, \<open>src/src/memory.c\<close>: \<open>posix_memalign\<close>, \<open>aligned_alloc\<close>, \<open>reallocarray\<close>, and the mapping
  wrappers that turn anonymous mappings into mappings of the zero device.

  Sizes are 32-bit words, as on the target. \<open>memalign\<close>, \<open>realloc\<close>, the system's \<open>mmap\<close> and the \<open>open\<close> of the
  zero device are parameters.
\<close>

section \<open>Aligned and array allocation\<close>

unbundle bit_operations_syntax

definition posix_memalign :: "(u32 \<Rightarrow> u32 \<Rightarrow> u32 ptr) \<Rightarrow> u32 ptr \<Rightarrow> u32 \<Rightarrow> u32 \<Rightarrow> errno option \<times> u32 ptr" where
  "posix_memalign memalign memptr alignment n =
     (if alignment < 4 then (Some EINVAL, memptr)
      else if alignment AND (alignment - 1) \<noteq> 0 then (Some EINVAL, memptr)
      else (case memalign alignment n of NULL \<Rightarrow> (Some ENOMEM, memptr) | Ptr p \<Rightarrow> (None, Ptr p)))"

text \<open>The result and \<open>errno\<close>, when the call itself sets it.\<close>

definition aligned_alloc :: "(u32 \<Rightarrow> u32 \<Rightarrow> u32 ptr) \<Rightarrow> u32 \<Rightarrow> u32 \<Rightarrow> u32 ptr \<times> errno option" where
  "aligned_alloc memalign alignment n =
     (if alignment = 0 \<or> n mod alignment \<noteq> 0 then (NULL, Some EINVAL) else (memalign alignment n, None))"

definition reallocarray :: "(u32 ptr \<Rightarrow> u32 \<Rightarrow> u32 ptr) \<Rightarrow> u32 ptr \<Rightarrow> u32 \<Rightarrow> u32 \<Rightarrow> u32 ptr \<times> errno option" where
  "reallocarray realloc p nmemb n =
     (if nmemb \<noteq> 0 \<and> n \<noteq> 0 \<and> nmemb > (- 1) div n then (NULL, Some ENOMEM) else (realloc p (nmemb * n), None))"

section \<open>Anonymous mappings\<close>

text \<open>
  A mapping request; the system's answer is an address or failure. The state is the set of open
  descriptors; \<open>zero_fd\<close> is the answer of \<open>open("/dev/zero", O_RDWR)\<close>.
\<close>

record map_req =
  mr_addr :: u32
  mr_len :: u32
  mr_prot :: u32
  mr_flags :: u32
  mr_fd :: int
  mr_off :: int

type_synonym mmap_fn = "int set \<Rightarrow> map_req \<Rightarrow> u32 ptr"

text \<open>\<open>init_real_mmap\<close> looks the system's functions up once; \<open>found\<close> is the answer of \<open>dlsym\<close>.\<close>

definition init_real :: "mmap_fn ptr \<Rightarrow> mmap_fn ptr \<Rightarrow> mmap_fn ptr" where
  "init_real found orig = (if orig = NULL then found else orig)"

text \<open>Calling a null function pointer is undefined.\<close>

definition call_map :: "mmap_fn ptr \<Rightarrow> int set \<Rightarrow> map_req \<Rightarrow> u32 ptr option" where
  "call_map f open_fds q = (case f of NULL \<Rightarrow> None | Ptr g \<Rightarrow> Some (g open_fds q))"

definition solcompat_mmap_anon ::
    "mmap_fn ptr \<Rightarrow> mmap_fn ptr \<Rightarrow> int \<Rightarrow> u32 \<Rightarrow> u32 \<Rightarrow> u32 \<Rightarrow> u32 \<Rightarrow> int set \<Rightarrow> (u32 ptr \<times> int set) option" where
  "solcompat_mmap_anon found orig zero_fd addr len prot flags fds =
     (let orig_mmap = init_real found orig in
      if zero_fd < 0 then Some (NULL, fds)
      else
        let fds = insert zero_fd fds; flags = flags AND NOT 0x100 in
        case call_map orig_mmap fds \<lparr>mr_addr = addr, mr_len = len, mr_prot = prot, mr_flags = flags, mr_fd = zero_fd, mr_off = 0\<rparr> of
          None \<Rightarrow> None
        | Some r \<Rightarrow> Some (r, fds - {zero_fd}))"

definition do_mmap_anon_fixup :: "mmap_fn ptr \<Rightarrow> mmap_fn ptr \<Rightarrow> int \<Rightarrow> map_req \<Rightarrow> int set \<Rightarrow> (u32 ptr \<times> int set) option" where
  "do_mmap_anon_fixup found orig zero_fd q fds =
     (let orig_mmap = init_real found orig in
      if mr_flags q AND 0x100 \<noteq> 0 then
        if zero_fd < 0 then Some (NULL, fds)
        else
          let fds = insert zero_fd fds in
          case call_map orig_mmap fds (q\<lparr>mr_flags := mr_flags q AND NOT 0x100, mr_fd := zero_fd, mr_off := 0\<rparr>) of
            None \<Rightarrow> None
          | Some r \<Rightarrow> Some (r, fds - {zero_fd})
      else map_option (\<lambda>r. (r, fds)) (call_map orig_mmap fds q))"

definition do_mmap64_anon_fixup :: "mmap_fn ptr \<Rightarrow> mmap_fn ptr \<Rightarrow> int \<Rightarrow> map_req \<Rightarrow> int set \<Rightarrow> (u32 ptr \<times> int set) option" where
  "do_mmap64_anon_fixup found orig zero_fd q fds =
     (let orig_mmap64 = init_real found orig in
      if mr_flags q AND 0x100 \<noteq> 0 then
        if zero_fd < 0 then Some (NULL, fds)
        else
          let fds = insert zero_fd fds in
          case call_map orig_mmap64 fds (q\<lparr>mr_flags := mr_flags q AND NOT 0x100, mr_fd := zero_fd, mr_off := 0\<rparr>) of
            None \<Rightarrow> None
          | Some r \<Rightarrow> Some (r, fds - {zero_fd})
      else map_option (\<lambda>r. (r, fds)) (call_map orig_mmap64 fds q))"

definition solcompat_mmap where
  "solcompat_mmap found orig zero_fd q fds = do_mmap_anon_fixup found orig zero_fd q fds"

definition solcompat_mmap64 where
  "solcompat_mmap64 found orig zero_fd q fds = do_mmap64_anon_fixup found orig zero_fd q fds"

definition mmap where
  "mmap found orig zero_fd q fds = do_mmap_anon_fixup found orig zero_fd q fds"

definition mmap64 where
  "mmap64 found orig zero_fd q fds = do_mmap64_anon_fixup found orig zero_fd q fds"

section \<open>Powers of two\<close>

lemma pow2_and_pred:
  assumes "k < 32"
  shows "(2 ^ k :: u32) AND (2 ^ k - 1) = 0"
proof -
  have "(2 ^ k - 1 :: u32) = mask k" by (simp add: mask_eq_exp_minus_1)
  then show ?thesis by (auto intro!: bit_word_eqI simp: bit_simps)
qed

text \<open>Clearing the lowest set bit leaves nothing only of a power of two.\<close>

lemma and_pred_pow2:
  fixes w :: u32
  assumes "w AND (w - 1) = 0" and "w \<noteq> 0"
  shows "\<exists>k<32. w = 2 ^ k"
proof -
  obtain k where k: "bit w k" using assms(2) by (metis bit_eqI bit_0_eq bot_apply bot_bool_def)
  then have k32: "k < 32" using bit_imp_le_length by fastforce
  define n where "n = (LEAST i. bit w i)"
  have n: "bit w n" "\<And>i. i < n \<Longrightarrow> \<not> bit w i" "n \<le> k"
    unfolding n_def using k by (auto intro: LeastI dest: not_less_Least intro: Least_le)
  have "take_bit (Suc n) w = 2 ^ n"
    by (rule bit_word_eqI) (use n k32 in \<open>auto simp: bit_simps less_Suc_eq\<close>)
  then obtain u where u: "w = push_bit (Suc n) u + 2 ^ n"
    by (metis bits_ident)
  have pred: "w - 1 = push_bit (Suc n) u + mask n" by (simp add: u mask_eq_exp_minus_1)
  have dis: "push_bit (Suc n) u + mask n = push_bit (Suc n) u OR mask n" "push_bit (Suc n) u + 2 ^ n = push_bit (Suc n) u OR 2 ^ n"
    by (rule disjunctive_add, simp add: bit_simps del: push_bit_Suc)+
  have "push_bit (Suc n) u = w AND (w - 1)"
    unfolding pred unfolding u dis by (rule bit_word_eqI) (auto simp: bit_simps simp del: push_bit_Suc)
  then have "w = 2 ^ n" using assms(1) u by simp
  with n(3) k32 show ?thesis by (intro exI [of _ n]) auto
qed

section \<open>Properties\<close>

text \<open>
  \<^verbatim>\<open>reallocarray\<close> never asks for less than the array needs: it refuses with \<open>ENOMEM\<close> exactly when the
  product of the two sizes is \<open>2\<^sup>3\<^sup>2\<close> or more, and otherwise passes the exact product to \<^verbatim>\<open>realloc\<close>.
\<close>

lemma reallocarray_exact:
  "reallocarray realloc p nmemb n =
     (if 2 ^ 32 \<le> unat nmemb * unat n then (NULL, Some ENOMEM)
      else (realloc p (of_nat (unat nmemb * unat n)), None))"
proof -
  have top: "unat (- 1 :: u32) = 2 ^ 32 - 1" by (simp add: unsigned_minus_1_eq_mask mask_eq_exp_minus_1)
  have "(unat nmemb \<le> (2 ^ 32 - 1) div unat n) \<longleftrightarrow> unat nmemb * unat n \<le> 2 ^ 32 - 1" if "n \<noteq> 0"
    using that by (intro less_eq_div_iff_mult_less_eq) (simp add: unat_gt_0)
  then have "((- 1) div n < nmemb) \<longleftrightarrow> 2 ^ 32 \<le> unat nmemb * unat n" if "n \<noteq> 0"
    using that top by (auto simp: word_less_nat_alt unat_div not_le)
  then show ?thesis
    by (cases "n = 0"; cases "nmemb = 0") (auto simp: reallocarray_def)
qed

text \<open>
  \<^verbatim>\<open>posix_memalign\<close> accepts exactly the alignments POSIX names, the powers of two that are multiples of
  the size of a pointer; with any other it fails with \<open>EINVAL\<close> and on exhaustion with \<open>ENOMEM\<close>, leaving the
  caller's pointer, and otherwise it stores the block \<^verbatim>\<open>memalign\<close> gives for that alignment and size.
\<close>

lemma posix_memalign_spec:
  "posix_memalign memalign memptr alignment n =
     (if \<exists>k. 2 \<le> k \<and> k < 32 \<and> alignment = 2 ^ k
      then (case memalign alignment n of NULL \<Rightarrow> (Some ENOMEM, memptr) | Ptr p \<Rightarrow> (None, Ptr p))
      else (Some EINVAL, memptr))"
proof -
  have small: "(2 ^ k :: u32) < 4 \<longleftrightarrow> k < 2" if "k < 32" for k
  proof -
    have "(2 :: nat) ^ k < 2 ^ 32" using that by (rule power_strict_increasing) simp
    moreover have "unat (2 ^ k :: u32) = unat (of_nat (2 ^ k) :: u32)" by simp
    ultimately have "unat (2 ^ k :: u32) = 2 ^ k" by (simp only: unat_of_nat) simp
    then have "(2 ^ k :: u32) < 4 \<longleftrightarrow> (2 :: nat) ^ k < 2 ^ 2" by (simp add: word_less_nat_alt)
    then show ?thesis by (simp only: power_strict_increasing_iff one_less_numeral_iff semiring_norm)
  qed
  have "(\<exists>k. 2 \<le> k \<and> k < 32 \<and> alignment = 2 ^ k) \<longleftrightarrow> \<not> alignment < 4 \<and> alignment AND (alignment - 1) = 0"
  proof
    assume "\<exists>k. 2 \<le> k \<and> k < 32 \<and> alignment = 2 ^ k"
    then show "\<not> alignment < 4 \<and> alignment AND (alignment - 1) = 0" using small pow2_and_pred by auto
  next
    assume *: "\<not> alignment < 4 \<and> alignment AND (alignment - 1) = 0"
    then have "alignment \<noteq> 0" by auto
    then obtain k where "k < 32" "alignment = 2 ^ k" using and_pred_pow2 * by blast
    with * show "\<exists>k. 2 \<le> k \<and> k < 32 \<and> alignment = 2 ^ k" using small by (intro exI [of _ k]) auto
  qed
  then show ?thesis by (simp add: posix_memalign_def)
qed

text \<open>
  An anonymous request becomes one of the zero device with the flag removed, and the descriptor does
  not stay open; any other request reaches the system unchanged.
\<close>

lemma anonymous_mapping:
  assumes "0 \<le> zfd" and "zfd \<notin> open_fds" and "orig = Ptr f"
  shows "mmap found orig zfd q open_fds =
    (if mr_flags q AND 0x100 = 0 then Some (f open_fds q, open_fds)
     else Some (f (insert zfd open_fds) (q\<lparr>mr_flags := mr_flags q AND NOT 0x100, mr_fd := zfd, mr_off := 0\<rparr>), open_fds))"
  using assms by (auto simp: mmap_def do_mmap_anon_fixup_def init_real_def call_map_def Let_def)

end
