(* ===== verification/Wide_Char.thy ===== *)
theory Wide_Char
  imports Prelude
begin

text \<open>
  Wide characters, \<open>src/src/wchar.c\<close>: the \<open>wmem\<close> operations, \<open>wcsstr\<close>, \<open>wcsnlen\<close>, \<open>wcsdup\<close>, \<open>wctob\<close>, and the
  UTF-16 and UTF-32 conversions over the C library's \<open>mbrtowc\<close> and \<open>wcrtomb\<close>.

  A wide character is a 32-bit word, compared as a signed number. Wide objects and strings follow the
  conventions of \<open>Prelude\<close>: a read-only string is its characters before the terminator.
\<close>

unbundle bit_operations_syntax

type_synonym wchar = u32

section \<open>Wide memory\<close>

text \<open>The loops, with the offset reached and the iterations left; the result is an offset.\<close>

fun wmemchr_loop :: "wchar list \<Rightarrow> wchar \<Rightarrow> nat \<Rightarrow> nat \<Rightarrow> nat ptr option" where
  "wmemchr_loop s c i 0 = Some NULL"
| "wmemchr_loop s c i (Suc n) = do { v \<leftarrow> rd s i; if v = c then Some (Ptr i) else wmemchr_loop s c (i + 1) n }"

definition wmemchr :: "wchar list \<Rightarrow> wchar \<Rightarrow> nat \<Rightarrow> nat ptr option" where
  "wmemchr s c n = wmemchr_loop s c 0 n"

fun wmemcmp_loop :: "wchar list \<Rightarrow> wchar list \<Rightarrow> nat \<Rightarrow> nat \<Rightarrow> int option" where
  "wmemcmp_loop s1 s2 i 0 = Some 0"
| "wmemcmp_loop s1 s2 i (Suc n) = do {
     a \<leftarrow> rd s1 i;
     b \<leftarrow> rd s2 i;
     if a \<noteq> b then Some (if sint a > sint b then 1 else -1) else wmemcmp_loop s1 s2 (i + 1) n }"

definition wmemcmp :: "wchar list \<Rightarrow> wchar list \<Rightarrow> nat \<Rightarrow> int option" where
  "wmemcmp s1 s2 n = wmemcmp_loop s1 s2 0 n"

text \<open>The byte count \<open>n * sizeof(wchar_t)\<close> is a \<open>size_t\<close>.\<close>

definition wcount :: "nat \<Rightarrow> nat" where
  "wcount n = sz (n * 4) div 4"

definition wmemcpy :: "wchar list \<Rightarrow> wchar list \<Rightarrow> nat \<Rightarrow> wchar list option" where
  "wmemcpy dst src n = memcpy dst 0 src 0 (wcount n)"

text \<open>\<open>memmove\<close> within one object, from offset \<open>s\<close> to offset \<open>d\<close>.\<close>

definition wmemmove :: "wchar list \<Rightarrow> nat \<Rightarrow> nat \<Rightarrow> nat \<Rightarrow> wchar list option" where
  "wmemmove b d s n =
     (let k = wcount n in
      if d + k \<le> length b \<and> s + k \<le> length b
      then Some (take d b @ take k (drop s b) @ drop (d + k) b) else None)"

fun wmemset_loop :: "wchar list \<Rightarrow> wchar \<Rightarrow> nat \<Rightarrow> nat \<Rightarrow> wchar list option" where
  "wmemset_loop s c i 0 = Some s"
| "wmemset_loop s c i (Suc n) = do { s \<leftarrow> wr s i c; wmemset_loop s c (i + 1) n }"

definition wmemset :: "wchar list \<Rightarrow> wchar \<Rightarrow> nat \<Rightarrow> wchar list option" where
  "wmemset s c n = wmemset_loop s c 0 n"

section \<open>Wide strings\<close>

text \<open>\<open>wcsncmp(h, n, length n) == 0\<close> for strings is that the second is a prefix of the first.\<close>

fun wcsstr_loop :: "wchar list \<Rightarrow> wchar list \<Rightarrow> nat \<Rightarrow> nat ptr" where
  "wcsstr_loop [] needle i = NULL"
| "wcsstr_loop (h # hs) needle i =
     (if h = hd needle \<and> take (length needle) (h # hs) = needle then Ptr i else wcsstr_loop hs needle (i + 1))"

definition wcsstr :: "wchar list \<Rightarrow> wchar list \<Rightarrow> nat ptr" where
  "wcsstr haystack needle = (if needle = [] then Ptr 0 else wcsstr_loop haystack needle 0)"

definition wctob :: "int \<Rightarrow> int" where
  "wctob c = (if c \<ge> 0 \<and> c < 256 then c else -1)"

definition wcsdup :: "(nat \<Rightarrow> wchar list ptr) \<Rightarrow> wchar list \<Rightarrow> wchar list ptr option" where
  "wcsdup malloc s =
     (let byte_count = sz ((length s + 1) * 4) in
      case malloc byte_count of
        NULL \<Rightarrow> Some NULL
      | Ptr copy \<Rightarrow> map_option Ptr (memcpy copy 0 (s @ [0]) 0 (byte_count div 4)))"

fun wcsnlen_loop :: "wchar list \<Rightarrow> nat \<Rightarrow> nat \<Rightarrow> nat option" where
  "wcsnlen_loop b count 0 = Some count"
| "wcsnlen_loop b count (Suc n) = do { c \<leftarrow> rd b count; if c \<noteq> 0 then wcsnlen_loop b (count + 1) n else Some count }"

definition wcsnlen :: "wchar list \<Rightarrow> nat \<Rightarrow> nat option" where
  "wcsnlen b maxlen = wcsnlen_loop b 0 maxlen"

section \<open>Unicode conversions\<close>

text \<open>
  The conversion state: what the C library keeps in it, and its last two bytes, in which this code
  stores half of a surrogate pair. \<open>mbrtowc s n st\<close> gives the \<open>size_t\<close> it returns, the character and the
  state; \<open>wcrtomb\<close> the count and the bytes. Null strings are the \<open>NULL\<close> of \<open>ptr\<close>.
\<close>

record 'l mbstate =
  ms_libc :: 'l
  ms_lo :: u8
  ms_hi :: u8

type_synonym 'l mbrtowc_fn = "string \<Rightarrow> nat \<Rightarrow> 'l mbstate \<Rightarrow> u32 \<times> wchar \<times> 'l mbstate"
type_synonym 'l wcrtomb_fn = "bool \<Rightarrow> wchar \<Rightarrow> 'l mbstate \<Rightarrow> u32 \<times> string \<times> 'l mbstate"

text \<open>The result: what is returned, what is stored through the pointer (if it is not null), the state.\<close>

definition mbrtoc32 ::
    "'l mbrtowc_fn \<Rightarrow> bool \<Rightarrow> string ptr \<Rightarrow> nat \<Rightarrow> 'l mbstate \<Rightarrow> u32 \<times> u32 option \<times> 'l mbstate" where
  "mbrtoc32 mbrtowc want s n ps =
     (let (s, n, want) = (case s of NULL \<Rightarrow> ([], 1, False) | Ptr s \<Rightarrow> (s, n, want)) in
      case mbrtowc s n ps of (r, wc, ps) \<Rightarrow>
        (r, if want \<and> r \<noteq> -1 \<and> r \<noteq> -2 then Some wc else None, ps))"

definition c32rtomb :: "'l wcrtomb_fn \<Rightarrow> bool \<Rightarrow> u32 \<Rightarrow> 'l mbstate \<Rightarrow> u32 \<times> string \<times> 'l mbstate" where
  "c32rtomb wcrtomb has_s c32 ps = (if \<not> has_s then wcrtomb False 0 ps else wcrtomb True c32 ps)"

definition stash :: "u16 \<Rightarrow> 'l mbstate \<Rightarrow> 'l mbstate" where
  "stash c st = st\<lparr>ms_lo := ucast (c AND 0xFF), ms_hi := ucast (drop_bit 8 c AND 0xFF)\<rparr>"

definition stashed :: "'l mbstate \<Rightarrow> u16" where
  "stashed st = ucast (ms_lo st) OR push_bit 8 (ucast (ms_hi st))"

definition clear_stash :: "'l mbstate \<Rightarrow> 'l mbstate" where
  "clear_stash st = st\<lparr>ms_lo := 0, ms_hi := 0\<rparr>"

definition high_surrogate :: "u32 \<Rightarrow> u16" where
  "high_surrogate wc = ucast (0xD800 OR drop_bit 10 (wc - 0x10000))"

definition low_surrogate :: "u32 \<Rightarrow> u16" where
  "low_surrogate wc = ucast (0xDC00 OR ((wc - 0x10000) AND 0x3FF))"

definition mbrtoc16 ::
    "'l mbrtowc_fn \<Rightarrow> bool \<Rightarrow> string ptr \<Rightarrow> nat \<Rightarrow> 'l mbstate \<Rightarrow> u32 \<times> u16 option \<times> 'l mbstate" where
  "mbrtoc16 mbrtowc want s n state =
     (let pending = stashed state in
      if pending \<noteq> 0 then (-3, if want then Some pending else None, clear_stash state)
      else
        let (s, n, want) = (case s of NULL \<Rightarrow> ([], 1, False) | Ptr s \<Rightarrow> (s, n, want)) in
        case mbrtowc s n state of (r, wc, state) \<Rightarrow>
          if r = -1 \<or> r = -2 then (r, None, state)
          else if wc \<le> 0xFFFF then (r, if want then Some (ucast wc) else None, state)
          else (r, if want then Some (high_surrogate wc) else None, stash (low_surrogate wc) state))"

definition join_surrogates :: "u16 \<Rightarrow> u16 \<Rightarrow> u32" where
  "join_surrogates high c16 = 0x10000 + push_bit 10 (ucast (high - 0xD800)) + ucast (c16 - 0xDC00)"

definition c16rtomb :: "'l wcrtomb_fn \<Rightarrow> bool \<Rightarrow> u16 \<Rightarrow> 'l mbstate \<Rightarrow> u32 \<times> string \<times> 'l mbstate" where
  "c16rtomb wcrtomb has_s c16 state =
     (if \<not> has_s then wcrtomb False 0 state
      else if 0xD800 \<le> c16 \<and> c16 \<le> 0xDBFF then (0, [], stash c16 state)
      else if 0xDC00 \<le> c16 \<and> c16 \<le> 0xDFFF then
        let high = stashed state; state = clear_stash state in
        if 0xD800 \<le> high \<and> high \<le> 0xDBFF then wcrtomb True (join_surrogates high c16) state
        else (-1, [], state)
      else wcrtomb True (ucast c16) state)"

section \<open>Surrogate pairs\<close>

lemma and_masks: "(c :: u16) AND 0xFF = take_bit 8 c" "(v :: u32) AND 0x3FF = take_bit 10 v"
  by (simp_all add: take_bit_eq_mask mask_eq_exp_minus_1)

lemma stashed_stash [simp]: "stashed (stash c st) = c"
  by (rule bit_word_eqI) (auto simp: stashed_def stash_def and_masks bit_simps)

lemma stashed_clear [simp]: "stashed (clear_stash st) = 0" "clear_stash (stash c st) = clear_stash st"
  by (simp_all add: stashed_def clear_stash_def stash_def)

lemma clear_stash_id: "stashed st = 0 \<Longrightarrow> clear_stash st = st"
proof -
  assume a: "stashed st = 0"
  have "ms_lo st = ucast (take_bit 8 (stashed st))" "ms_hi st = ucast (drop_bit 8 (stashed st))"
    by (rule bit_word_eqI; auto simp: stashed_def bit_simps dest: bit_imp_le_length)+
  then show ?thesis using a by (cases st) (simp add: clear_stash_def)
qed

text \<open>Adding to a word whose low bits are free sets them.\<close>

lemma push_or_take: "push_bit n a OR take_bit n b = push_bit n a + take_bit n (b :: 'a::len word)"
  by (rule disjunctive_add [symmetric]) (auto simp: bit_simps)

text \<open>The characters above the basic plane, and their offset.\<close>

definition astral :: "u32 \<Rightarrow> bool" where
  "astral wc \<longleftrightarrow> 0x10000 \<le> wc \<and> wc \<le> 0x10FFFF"

definition plane_offset :: "u32 \<Rightarrow> nat" where
  "plane_offset wc = unat wc - 0x10000"

lemma plane_offset_less: "astral wc \<Longrightarrow> plane_offset wc < 2 ^ 20"
  by (auto simp: astral_def plane_offset_def word_le_nat_alt)

lemma unat_offset: "astral wc \<Longrightarrow> unat (wc - 0x10000) = plane_offset wc"
  by (simp add: astral_def plane_offset_def unat_sub)

lemma high_surrogate_unat:
  assumes "astral wc"
  shows "unat (high_surrogate wc) = 0xD800 + plane_offset wc div 1024"
proof -
  let ?h = "drop_bit 10 (wc - 0x10000)"
  have h: "unat ?h = plane_offset wc div 1024" by (simp add: unat_div unat_offset [OF assms] drop_bit_eq_div)
  then have small: "unat ?h < 1024" using plane_offset_less [OF assms] by simp
  then have "unat (take_bit 10 ?h) = unat ?h" unfolding unsigned_take_bit_eq by (simp add: take_bit_nat_eq_self)
  then have "take_bit 10 ?h = ?h" by (simp only: word_unat_eq_iff)
  then have "0xD800 OR ?h = 0xD800 + ?h" using push_or_take [of 10 "0x36" ?h] by simp
  moreover have "unat (0xD800 + ?h) = 0xD800 + unat ?h" using small by (simp add: unat_word_ariths)
  ultimately show ?thesis
    using h small by (simp add: high_surrogate_def unsigned_ucast_eq take_bit_nat_eq_self)
qed

lemma low_surrogate_unat:
  assumes "astral wc"
  shows "unat (low_surrogate wc) = 0xDC00 + plane_offset wc mod 1024"
proof -
  let ?l = "take_bit 10 (wc - 0x10000)"
  have l: "unat ?l = plane_offset wc mod 1024" by (simp add: unat_mod unat_offset [OF assms] take_bit_eq_mod)
  then have small: "unat ?l < 1024" by simp
  have "0xDC00 OR ?l = 0xDC00 + ?l" using push_or_take [of 10 "0x37" "wc - 0x10000"] by simp
  moreover have "unat (0xDC00 + ?l) = 0xDC00 + unat ?l" using small by (simp add: unat_word_ariths)
  ultimately show ?thesis
    using l small by (simp add: low_surrogate_def and_masks unsigned_ucast_eq take_bit_nat_eq_self)
qed

lemma surrogate_ranges:
  assumes "astral wc"
  shows "0xD800 \<le> high_surrogate wc" "high_surrogate wc \<le> 0xDBFF" "0xDC00 \<le> low_surrogate wc" "low_surrogate wc \<le> 0xDFFF"
  using high_surrogate_unat [OF assms] low_surrogate_unat [OF assms] plane_offset_less [OF assms]
  by (simp_all add: word_le_nat_alt less_Suc_eq_le [symmetric] div_less_iff_less_mult)

lemma join_surrogates_inverse:
  assumes "astral wc"
  shows "join_surrogates (high_surrogate wc) (low_surrogate wc) = wc"
proof -
  let ?v = "plane_offset wc"
  have h: "unat (high_surrogate wc - 0xD800) = ?v div 1024"
    using surrogate_ranges(1) [OF assms] high_surrogate_unat [OF assms] by (simp add: unat_sub)
  have l: "unat (low_surrogate wc - 0xDC00) = ?v mod 1024"
    using surrogate_ranges(3) [OF assms] low_surrogate_unat [OF assms] by (simp add: unat_sub)
  have "(ucast (high_surrogate wc - 0xD800) :: u32) = of_nat (?v div 1024)" by (simp flip: h)
  moreover have "(ucast (low_surrogate wc - 0xDC00) :: u32) = of_nat (?v mod 1024)" by (simp flip: l)
  ultimately have "join_surrogates (high_surrogate wc) (low_surrogate wc)
      = of_nat (0x10000 + (?v div 1024) * 1024 + ?v mod 1024)"
    unfolding join_surrogates_def of_nat_add of_nat_mult by (simp add: push_bit_eq_mult del: div_mult_mod_eq)
  also have "0x10000 + (?v div 1024) * 1024 + ?v mod 1024 = unat wc"
    using assms by (simp add: plane_offset_def astral_def word_le_nat_alt)
  finally show ?thesis by simp
qed

section \<open>Searches\<close>

lemma wmemchr_loop_spec:
  "i + n \<le> length s \<Longrightarrow> wmemchr_loop s c i n = Some
     (if c \<in> set (take n (drop i s)) then Ptr (i + length (takeWhile (\<lambda>x. x \<noteq> c) (take n (drop i s)))) else NULL)"
proof (induction n arbitrary: i)
  case (Suc n)
  then have "take (Suc n) (drop i s) = s ! i # take n (drop (i + 1) s)"
    by (metis Cons_nth_drop_Suc Suc_eq_plus1 add_Suc_right le_imp_less_Suc add_leD1 less_eq_Suc_le add_Suc take_Suc_Cons)
  with Suc show ?case by (auto simp: mem_simps)
qed simp

lemma wcsstr_loop_first:
  assumes "needle \<noteq> []"
  shows "wcsstr_loop h needle i = (if \<exists>k. take (length needle) (drop k h) = needle
    then Ptr (i + (LEAST k. take (length needle) (drop k h) = needle)) else NULL)"
proof (induction h arbitrary: i)
  case Nil
  then show ?case using assms by simp
next
  case (Cons x h)
  let ?P = "\<lambda>k. take (length needle) (drop k (x # h)) = needle"
  have hd: "x = hd needle" if "?P 0" using that assms by (cases needle) auto
  show ?case
  proof (cases "?P 0")
    case True
    then have "(LEAST k. ?P k) = 0" by (intro Least_equality) auto
    then show ?thesis using True hd by (auto intro: exI [of _ 0])
  next
    case False
    have ex: "(\<exists>k. ?P k) \<longleftrightarrow> (\<exists>k. take (length needle) (drop k h) = needle)"
    proof
      assume "\<exists>k. ?P k"
      then obtain k where "?P k" by blast
      with False show "\<exists>k. take (length needle) (drop k h) = needle" by (cases k) auto
    next
      assume "\<exists>k. take (length needle) (drop k h) = needle"
      then obtain k where "?P (Suc k)" by auto
      then show "\<exists>k. ?P k" by blast
    qed
    have least: "(LEAST k. ?P k) = Suc (LEAST k. take (length needle) (drop k h) = needle)"
      if "\<exists>k. ?P k"
      using that False Least_Suc [of ?P] by auto
    show ?thesis using Cons.IH [of "i + 1"] False ex least by (auto simp del: take_Suc_Cons)
  qed
qed

section \<open>Properties\<close>

text \<open>The code units of one character, by as many calls as it takes, and the bytes of a list of units.\<close>

definition decode16 :: "'l mbrtowc_fn \<Rightarrow> string \<Rightarrow> nat \<Rightarrow> 'l mbstate \<Rightarrow> u32 \<times> u16 option list \<times> 'l mbstate" where
  "decode16 mbrtowc s n st = (case mbrtoc16 mbrtowc True (Ptr s) n st of (r, u, st) \<Rightarrow>
     if stashed st = 0 then (r, [u], st)
     else case mbrtoc16 mbrtowc True (Ptr s) n st of (_, u', st) \<Rightarrow> (r, [u, u'], st))"

fun encode16 :: "'l wcrtomb_fn \<Rightarrow> u16 option list \<Rightarrow> 'l mbstate \<Rightarrow> u32 \<times> string \<times> 'l mbstate" where
  "encode16 wcrtomb [] t = (0, [], t)"
| "encode16 wcrtomb (None # us) t = encode16 wcrtomb us t"
| "encode16 wcrtomb [Some u] t = c16rtomb wcrtomb True u t"
| "encode16 wcrtomb (Some u # us) t = (case c16rtomb wcrtomb True u t of (r, bs, t) \<Rightarrow>
     case encode16 wcrtomb us t of (r', bs', t) \<Rightarrow> (r', bs @ bs', t))"

text \<open>
  C12. The UTF-16 conversions are inverse to each other: for every Unicode character the multibyte decoder
  yields, in any plane, the one or two code units \<^verbatim>\<open>mbrtoc16\<close> gives (the second without consuming input,
  and with the state then clean) make \<^verbatim>\<open>c16rtomb\<close> hand exactly that character to \<^verbatim>\<open>wcrtomb\<close>, once, in a
  clean state.
\<close>

theorem utf16_round_trip:
  assumes "astral wc \<or> wc \<le> 0xFFFF \<and> (wc < 0xD800 \<or> 0xDFFF < wc)"
    and "mbrtowc s n st = (r, wc, st1)" and "r \<noteq> -1" "r \<noteq> -2" and "stashed st = 0" "stashed st1 = 0" and "stashed t = 0"
  shows "\<exists>units. decode16 mbrtowc s n st = (r, units, st1) \<and> encode16 wcrtomb units t = wcrtomb True wc t"
proof (cases "astral wc")
  case True
  then have big: "\<not> wc \<le> 0xFFFF" by (auto simp: astral_def word_le_nat_alt)
  have lo: "low_surrogate wc \<noteq> 0" using surrogate_ranges(3) [OF True] by auto
  have "decode16 mbrtowc s n st = (r, [Some (high_surrogate wc), Some (low_surrogate wc)], st1)"
    using assms(2-6) big lo clear_stash_id [of st1] by (simp add: decode16_def mbrtoc16_def)
  moreover have "\<not> low_surrogate wc \<le> 0xDBFF" "\<not> (0xDC00 \<le> high_surrogate wc)"
    using surrogate_ranges [OF True] by (auto simp: word_le_nat_alt)
  then have "encode16 wcrtomb [Some (high_surrogate wc), Some (low_surrogate wc)] t = wcrtomb True wc t"
    using surrogate_ranges [OF True] join_surrogates_inverse [OF True] clear_stash_id [OF assms(7)]
    by (simp add: c16rtomb_def Let_def split: prod.split)
  ultimately show ?thesis by blast
next
  case False
  then have bmp: "wc \<le> 0xFFFF" "wc < 0xD800 \<or> 0xDFFF < wc" using assms(1) by auto
  have u: "unat (ucast wc :: u16) = unat wc" "(ucast (ucast wc :: u16) :: u32) = wc"
  proof -
    show "unat (ucast wc :: u16) = unat wc"
      using bmp(1) by (simp add: unsigned_ucast_eq take_bit_nat_eq_self word_le_nat_alt)
    then have "unat (ucast (ucast wc :: u16) :: u32) = unat wc"
      using unat_u32 [of wc] by (simp only: unsigned_ucast_eq [of "ucast wc :: u16"]) (simp add: take_bit_nat_eq_self)
    then show "(ucast (ucast wc :: u16) :: u32) = wc" by (simp only: word_unat_eq_iff)
  qed
  have "decode16 mbrtowc s n st = (r, [Some (ucast wc)], st1)"
    using assms(2-6) bmp by (simp add: decode16_def mbrtoc16_def)
  moreover have "encode16 wcrtomb [Some (ucast wc)] t = wcrtomb True wc t"
    using bmp(2) u by (auto simp: c16rtomb_def word_le_nat_alt word_less_nat_alt)
  ultimately show ?thesis by blast
qed

text \<open>A decoder that knows one astral character, and an encoder that prints the code.\<close>

definition emoji_decoder :: "unit mbrtowc_fn" where
  "emoji_decoder s n st = (4, 0x1F600, st)"

theorem utf16_round_trip_witness:
  "\<exists>units. decode16 emoji_decoder ''xxxx'' 4 \<lparr>ms_libc = (), ms_lo = 0, ms_hi = 0\<rparr> = (4, units, \<lparr>ms_libc = (), ms_lo = 0, ms_hi = 0\<rparr>)
     \<and> encode16 (\<lambda>_ c st. (if c = 0x1F600 then 4 else 0, [], st)) units \<lparr>ms_libc = (), ms_lo = 0, ms_hi = 0\<rparr>
        = (4, [], \<lparr>ms_libc = (), ms_lo = 0, ms_hi = 0\<rparr>)"
  using utf16_round_trip [of "0x1F600" emoji_decoder "''xxxx''" 4 "\<lparr>ms_libc = (), ms_lo = 0, ms_hi = 0\<rparr>" 4
      "\<lparr>ms_libc = (), ms_lo = 0, ms_hi = 0\<rparr>" "\<lparr>ms_libc = (), ms_lo = 0, ms_hi = 0\<rparr>"
      "\<lambda>_ c st. (if c = 0x1F600 then 4 else 0, [], st)"]
  by (simp add: astral_def emoji_decoder_def stashed_def)

text \<open>
  A high surrogate that is not followed by a low one stays stored: after an ordinary character in between,
  a low surrogate is joined with the stale half instead of being refused.
\<close>

lemma c16rtomb_stale_high:
  assumes "astral wc" and "\<And>c st. wcrtomb True c st = (1, [], st)"
  shows "encode16 wcrtomb [Some (high_surrogate wc), Some 0x41, Some (low_surrogate wc)] t = wcrtomb True wc (clear_stash t)"
proof -
  have "\<not> low_surrogate wc \<le> 0xDBFF" using surrogate_ranges [OF assms(1)] by (auto simp: word_le_nat_alt)
  then show ?thesis
    using surrogate_ranges [OF assms(1)] join_surrogates_inverse [OF assms(1)] assms(2) by (simp add: c16rtomb_def Let_def)
qed

text \<open>A null string does not reset a pending low surrogate: it is returned instead.\<close>

lemma mbrtoc16_null_pending: "stashed st \<noteq> 0 \<Longrightarrow> mbrtoc16 mbrtowc want NULL n st = (-3, if want then Some (stashed st) else None, clear_stash st)"
  by (simp add: mbrtoc16_def)

end
