(* ===== verification/Stubs.thy ===== *)
theory Stubs
  imports Process
begin

text \<open>
  Threads, locales and semaphores, \<open>src/src/stubs.c\<close>: the locale objects over one process-wide locale,
  \<open>sem_timedwait\<close>, the translation of a monotonic deadline for condition variables, and the functions
  that only answer or fail.

  Locale objects are blocks of the heap that hold a name; \<open>(locale_t)-1\<close> is the global locale.
\<close>

section \<open>Thread names\<close>

definition pthread_setname_np :: "nat \<Rightarrow> string \<Rightarrow> int" where
  "pthread_setname_np thread name = 0"

definition pthread_getname_np :: "nat \<Rightarrow> cbuf \<Rightarrow> nat \<Rightarrow> (int \<times> cbuf) option" where
  "pthread_getname_np thread name len =
     map_option (\<lambda>b. (0, b)) (if len > 0 then wr name 0 NUL else Some name)"

section \<open>Locales\<close>

datatype loc = LNull | LGlobal | LObj nat

text \<open>The heap of names, the next block, the static variable of \<open>uselocale\<close>, the locale of the process.\<close>

record lstate =
  l_heap :: "nat \<Rightarrow> string option"
  l_next :: nat
  l_current :: loc
  l_setlocale :: string

definition loc_free :: "loc \<Rightarrow> lstate \<Rightarrow> lstate option" where
  "loc_free l s = (case l of
       LNull \<Rightarrow> Some s
     | LGlobal \<Rightarrow> None
     | LObj a \<Rightarrow> if l_heap s a = None then None else Some (s\<lparr>l_heap := (l_heap s)(a := None)\<rparr>))"

text \<open>\<open>ok\<close> is whether \<open>strdup\<close> gets its block.\<close>

definition newlocale :: "bool \<Rightarrow> int \<Rightarrow> string ptr \<Rightarrow> loc \<Rightarrow> lstate \<Rightarrow> (loc \<times> errno option \<times> lstate) option" where
  "newlocale ok category_mask locale_name base s = do {
     s \<leftarrow> (if base \<noteq> LNull then loc_free base s else Some s);
     if \<not> ok then Some (LNull, Some ENOMEM, s)
     else Some (LObj (l_next s), None,
            s\<lparr>l_heap := (l_heap s)(l_next s \<mapsto> (case locale_name of NULL \<Rightarrow> ''C'' | Ptr n \<Rightarrow> n)), l_next := l_next s + 1\<rparr>) }"

text \<open>The locale the C library knows by a name; an unknown name leaves the locale of the process.\<close>

definition setlocale :: "(string \<Rightarrow> bool) \<Rightarrow> string \<Rightarrow> lstate \<Rightarrow> lstate" where
  "setlocale known name s = (if known name then s\<lparr>l_setlocale := name\<rparr> else s)"

definition uselocale :: "(string \<Rightarrow> bool) \<Rightarrow> loc \<Rightarrow> lstate \<Rightarrow> (loc \<times> lstate) option" where
  "uselocale known newloc s =
     (let old = l_current s; answer = (if old \<noteq> LNull then old else LGlobal) in
      case newloc of
        LGlobal \<Rightarrow> Some (answer, s)
      | LNull \<Rightarrow> Some (answer, s)
      | LObj a \<Rightarrow>
          (case l_heap s a of
             None \<Rightarrow> None
           | Some name \<Rightarrow> Some (answer, (setlocale known name s)\<lparr>l_current := newloc\<rparr>)))"

definition freelocale :: "loc \<Rightarrow> lstate \<Rightarrow> lstate option" where
  "freelocale locobj s = (if locobj \<noteq> LNull \<and> locobj \<noteq> LGlobal then loc_free locobj s else Some s)"

definition duplocale :: "bool \<Rightarrow> loc \<Rightarrow> lstate \<Rightarrow> (loc \<times> errno option \<times> lstate) option" where
  "duplocale ok locobj s = (case locobj of
       LObj a \<Rightarrow> (case l_heap s a of None \<Rightarrow> None | Some name \<Rightarrow> newlocale ok 0 (Ptr name) LNull s)
     | _ \<Rightarrow> newlocale ok 0 (Ptr ''C'') LNull s)"

definition nl_langinfo_l :: "(int \<Rightarrow> string) \<Rightarrow> int \<Rightarrow> loc \<Rightarrow> string" where
  "nl_langinfo_l nl_langinfo item locobj = nl_langinfo item"

section \<open>Timed waits\<close>

text \<open>One pass of \<open>sem_timedwait\<close>: the answer of \<open>sem_trywait\<close> (\<open>None\<close>: acquired) and the time of day.\<close>

definition sem_pass :: "(nat \<Rightarrow> errno option) \<Rightarrow> (nat \<Rightarrow> timeval) \<Rightarrow> timespec \<Rightarrow> nat \<Rightarrow> errno option option" where
  "sem_pass trywait now abs_timeout k =
     (case trywait k of
        None \<Rightarrow> Some None
      | Some e \<Rightarrow>
          if e \<noteq> EAGAIN then Some (Some e)
          else if sec (now k) > tv_sec abs_timeout
                  \<or> sec (now k) = tv_sec abs_timeout \<and> i32 (usec (now k) * 1000) \<ge> tv_nsec abs_timeout
               then Some (Some ETIMEDOUT) else None)"

definition sem_timedwait :: "(nat \<Rightarrow> errno option) \<Rightarrow> (nat \<Rightarrow> timeval) \<Rightarrow> timespec \<Rightarrow> (errno option \<times> nat) option" where
  "sem_timedwait trywait now abs_timeout = poll_until (sem_pass trywait now abs_timeout) 0"

text \<open>
  The deadline in real time. \<open>long\<close> and \<open>time_t\<close> have 32 bits and \<open>long long\<close> 64, which the differences of
  32-bit numbers do not leave.
\<close>

definition to_realtime :: "timespec \<Rightarrow> timespec \<Rightarrow> timespec \<Rightarrow> timespec" where
  "to_realtime now_realtime now_monotonic deadline =
     (let delta_sec = tv_sec deadline - tv_sec now_monotonic;
          delta_nsec = i32 (tv_nsec deadline - tv_nsec now_monotonic);
          (delta_sec, delta_nsec) = (if delta_nsec < 0 then (delta_sec - 1, i32 (delta_nsec + 1000000000))
                                     else (delta_sec, delta_nsec));
          s = i32 (tv_sec now_realtime + i32 delta_sec);
          n = i32 (tv_nsec now_realtime + delta_nsec)
      in if n \<ge> 1000000000 then \<lparr>tv_sec = i32 (s + 1), tv_nsec = i32 (n - 1000000000)\<rparr> else \<lparr>tv_sec = s, tv_nsec = n\<rparr>)"

text \<open>\<open>cond_wait\<close> is \<open>pthread_cond_timedwait\<close>, an error number or 0; failures of the function itself give -1.\<close>

definition solcompat_pthread_cond_timedwait_monotonic ::
    "(timespec \<Rightarrow> int) \<Rightarrow> errno + timespec \<Rightarrow> errno + timespec \<Rightarrow> timespec ptr \<Rightarrow> int \<times> errno option" where
  "solcompat_pthread_cond_timedwait_monotonic cond_wait rt mt deadline =
     (case deadline of
        NULL \<Rightarrow> (-1, Some EINVAL)
      | Ptr d \<Rightarrow>
          (case rt of
             Inl e \<Rightarrow> (-1, Some e)
           | Inr r \<Rightarrow>
               (case mt of
                  Inl e \<Rightarrow> (-1, Some e)
                | Inr m \<Rightarrow> (cond_wait (to_realtime r m d), None))))"

definition pthread_condattr_getclock :: "'a \<Rightarrow> int \<times> int" where
  "pthread_condattr_getclock attr = (0, 0)"

definition pthread_condattr_setclock :: "'a \<Rightarrow> int \<Rightarrow> int \<times> 'a" where
  "pthread_condattr_setclock attr clock_id = (0, attr)"

section \<open>Small wrappers\<close>

definition sockatmark :: "errno + int \<Rightarrow> errno + bool" where
  "sockatmark ioctl_answer = map_sum id (\<lambda>at_mark. at_mark \<noteq> 0) ioctl_answer"

definition posix_madvise :: "u32 \<Rightarrow> nat \<Rightarrow> int \<Rightarrow> int" where
  "posix_madvise address length_arg advice = 0"

text \<open>\<open>get\<close> and \<open>put\<close> are the system's stack size accessors.\<close>

definition pthread_attr_getstack :: "('a \<Rightarrow> int \<times> nat) \<Rightarrow> 'a \<Rightarrow> int \<times> u32 ptr \<times> nat" where
  "pthread_attr_getstack get attr = (case get attr of (r, n) \<Rightarrow> (r, NULL, n))"

definition pthread_attr_setstack :: "('a \<Rightarrow> nat \<Rightarrow> int \<times> 'a) \<Rightarrow> 'a \<Rightarrow> u32 ptr \<Rightarrow> nat \<Rightarrow> int \<times> 'a" where
  "pthread_attr_setstack put attr stack_address stack_size = put attr stack_size"

text \<open>The list of interfaces: one terminating entry, when it can be allocated.\<close>

definition if_nameindex :: "bool \<Rightarrow> (nat \<times> string ptr) list ptr" where
  "if_nameindex ok = (if ok then Ptr [(0, NULL)] else NULL)"

definition mq_timedreceive :: "int \<Rightarrow> cbuf \<Rightarrow> nat \<Rightarrow> timespec \<Rightarrow> errno + nat" where
  "mq_timedreceive q buf len abs_timeout = Inl ENOSYS"

definition mq_timedsend :: "int \<Rightarrow> string \<Rightarrow> nat \<Rightarrow> u32 \<Rightarrow> timespec \<Rightarrow> errno option" where
  "mq_timedsend q buf len prio abs_timeout = Some ENOSYS"

section \<open>The translated deadline\<close>

definition nanos :: "timespec \<Rightarrow> int" where
  "nanos t = tv_sec t * 1000000000 + tv_nsec t"

definition proper :: "timespec \<Rightarrow> bool" where
  "proper t \<longleftrightarrow> 0 \<le> tv_nsec t \<and> tv_nsec t < 1000000000"

lemma i32_small: "- (2 ^ 31) \<le> n \<Longrightarrow> n < 2 ^ 31 \<Longrightarrow> i32 n = n"
  by (simp add: i32_def)

text \<open>The seconds of the two clocks and of the result stay inside 32 bits.\<close>

definition in_range :: "timespec \<Rightarrow> timespec \<Rightarrow> timespec \<Rightarrow> bool" where
  "in_range r m d \<longleftrightarrow> - (2 ^ 31) < tv_sec d - tv_sec m \<and> tv_sec d - tv_sec m < 2 ^ 31
     \<and> - (2 ^ 31) < tv_sec r + (tv_sec d - tv_sec m) \<and> tv_sec r + (tv_sec d - tv_sec m) < 2 ^ 31 - 1"

lemma to_realtime_shifts:
  assumes "proper r" "proper m" "proper d" "in_range r m d"
  shows "nanos (to_realtime r m d) - nanos r = nanos d - nanos m \<and> proper (to_realtime r m d)"
proof (cases "tv_nsec d < tv_nsec m")
  case True
  then show ?thesis
    using assms by (auto simp: to_realtime_def proper_def in_range_def i32_small nanos_def Let_def algebra_simps)
next
  case False
  then show ?thesis
    using assms by (auto simp: to_realtime_def proper_def in_range_def i32_small nanos_def Let_def algebra_simps)
qed

section \<open>Properties\<close>

text \<open>
  C32. A monotonic deadline is translated without loss: with both clocks read and the seconds inside 32 bits,
  \<^verbatim>\<open>solcompat_pthread_cond_timedwait_monotonic\<close> waits until a proper time that is as far from the real-time
  clock as the deadline is from the monotonic one, to the nanosecond, also when the deadline has passed or
  a carry or borrow occurs.
\<close>

theorem monotonic_deadline_translated:
  assumes "proper r" "proper m" "proper d" "in_range r m d"
  shows "\<exists>t. solcompat_pthread_cond_timedwait_monotonic cond_wait (Inr r) (Inr m) (Ptr d) = (cond_wait t, None)
    \<and> proper t \<and> nanos t - nanos r = nanos d - nanos m"
  using to_realtime_shifts [OF assms]
  by (intro exI [of _ "to_realtime r m d"]) (simp add: solcompat_pthread_cond_timedwait_monotonic_def)

theorem monotonic_deadline_translated_witness:
  "\<exists>t. solcompat_pthread_cond_timedwait_monotonic (\<lambda>t. tv_sec t) (Inr \<lparr>tv_sec = 1700000000, tv_nsec = 999999999\<rparr>)
      (Inr \<lparr>tv_sec = 50, tv_nsec = 800000000\<rparr>) (Ptr \<lparr>tv_sec = 52, tv_nsec = 100000000\<rparr>) = (tv_sec t, None)
    \<and> nanos t = 1700000002299999999"
  using monotonic_deadline_translated [of "\<lparr>tv_sec = 1700000000, tv_nsec = 999999999\<rparr>" "\<lparr>tv_sec = 50, tv_nsec = 800000000\<rparr>"
      "\<lparr>tv_sec = 52, tv_nsec = 100000000\<rparr>" "\<lambda>t. tv_sec t"]
  by (auto simp: proper_def in_range_def nanos_def)

text \<open>
  \<^verbatim>\<open>sem_timedwait\<close> ends at the first pass where the semaphore is acquired, \<^verbatim>\<open>sem_trywait\<close> fails otherwise
  than by \<open>EAGAIN\<close>, or the deadline is reached, and reports which.
\<close>

theorem sem_timedwait_returns:
  assumes "sem_pass trywait now t n \<noteq> None"
  shows "\<exists>m r. sem_timedwait trywait now t = Some (r, m + 1) \<and> (\<forall>j. j < m \<longrightarrow> trywait j = Some EAGAIN)
    \<and> (r = None \<and> trywait m = None \<or> r \<noteq> None \<and> r = trywait m
       \<or> r = Some ETIMEDOUT \<and> trywait m = Some EAGAIN)"
proof -
  obtain m r where m: "sem_pass trywait now t m = Some r" "\<forall>j. j < m \<longrightarrow> sem_pass trywait now t j = None"
    "poll_until (sem_pass trywait now t) 0 = Some (r, m + 1)"
    using poll_until_first [of "sem_pass trywait now t" n 0] assms by auto
  have "trywait j = Some EAGAIN" if "sem_pass trywait now t j = None" for j
    using that by (auto simp: sem_pass_def split: option.splits if_splits)
  moreover have "r = None \<and> trywait m = None \<or> r \<noteq> None \<and> r = trywait m \<or> r = Some ETIMEDOUT \<and> trywait m = Some EAGAIN"
    using m(1) by (cases "trywait m") (auto simp: sem_pass_def split: if_splits dest: sym)
  ultimately show ?thesis using m by (auto simp: sem_timedwait_def)
qed

text \<open>
  The temporary switch of the locale is not undone: \<^verbatim>\<open>uselocale\<close> answers the global locale for a thread
  that has set none, and given the global locale back it changes nothing, so after the usual sequence the
  process stays in the temporary locale, and once the object is freed the stored locale is a dangling one.
\<close>

lemma uselocale_not_restored:
  assumes "l_current s = LNull" and "l_heap s a = Some name" and "known name"
  shows "\<exists>old s1 s2 s3. uselocale known (LObj a) s = Some (old, s1) \<and> uselocale known old s1 = Some (LObj a, s2)
    \<and> l_setlocale s2 = name \<and> freelocale (LObj a) s2 = Some s3 \<and> l_current s3 = LObj a \<and> l_heap s3 a = None
    \<and> uselocale known (LObj a) s3 = None"
  using assms by (simp add: uselocale_def setlocale_def freelocale_def loc_free_def Let_def)

theorem uselocale_not_restored_witness:
  "\<exists>old s1 s2. uselocale (\<lambda>_. True) (LObj 0) \<lparr>l_heap = [0 \<mapsto> ''C''], l_next = 1, l_current = LNull, l_setlocale = ''de''\<rparr> = Some (old, s1)
    \<and> uselocale (\<lambda>_. True) old s1 = Some (LObj 0, s2) \<and> l_setlocale s2 = ''C''"
  using uselocale_not_restored [of "\<lparr>l_heap = [0 \<mapsto> ''C''], l_next = 1, l_current = LNull, l_setlocale = ''de''\<rparr>" 0 "''C''" "\<lambda>_. True"]
  by auto

text \<open>A failing \<^verbatim>\<open>newlocale\<close> has already freed the base object, which is to stay valid.\<close>

lemma newlocale_destroys_base:
  assumes "l_heap s a = Some name"
  shows "\<exists>s'. newlocale False m n (LObj a) s = Some (LNull, Some ENOMEM, s') \<and> l_heap s' a = None"
  using assms by (simp add: newlocale_def loc_free_def)

end
