(* ===== verification/Pty.thy ===== *)
theory Pty
  imports Process
begin

text \<open>
  Pseudo terminals, \<open>src/src/pty.c\<close>: \<open>posix_openpt\<close>, \<open>openpty\<close>, \<open>login_tty\<close>, \<open>forkpty\<close>, \<open>cfmakeraw\<close>, on the
  descriptor table of \<open>Process\<close>. The answers of the system calls are parameters.
\<close>

unbundle bit_operations_syntax

section \<open>Opening a pair\<close>

text \<open>A descriptor with its new open file description, or an error.\<close>

type_synonym open_answer = "errno + int \<times> nat"

definition sys_open :: "open_answer \<Rightarrow> fdstate \<Rightarrow> (errno + int) \<times> fdstate" where
  "sys_open answer s = (case answer of
       Inl e \<Rightarrow> (Inl e, s)
     | Inr (fd, i) \<Rightarrow> (Inr fd, s\<lparr>fds := (fds s)(fd \<mapsto> \<lparr>ofd = i, cloexec = False\<rparr>), ofd_flags := (ofd_flags s)(i := 2)\<rparr>))"

record pty_os =
  p_ptmx :: open_answer
  p_grant :: "errno option"
  p_unlock :: "errno option"
  p_name :: "string ptr"
  p_slave :: open_answer

definition posix_openpt :: "pty_os \<Rightarrow> fdstate \<Rightarrow> (errno + int) \<times> fdstate" where
  "posix_openpt os s = sys_open (p_ptmx os) s"

text \<open>The slave's line: the modules pushed, its attributes and window size.\<close>

record ('t, 'w) line =
  modules :: "string list"
  termios :: 't
  winsize :: 'w

text \<open>\<open>strcpy\<close> into the caller's array, which the function does not know the size of.\<close>

definition strcpy :: "cbuf \<Rightarrow> string \<Rightarrow> cbuf option" where
  "strcpy dst src = memcpy dst 0 (src @ [NUL]) 0 (length src + 1)"

definition openpty ::
    "pty_os \<Rightarrow> cbuf ptr \<Rightarrow> 't ptr \<Rightarrow> 'w ptr \<Rightarrow> ('t, 'w) line \<Rightarrow> fdstate
     \<Rightarrow> ((errno + int \<times> int) \<times> cbuf ptr \<times> ('t, 'w) line \<times> fdstate) option" where
  "openpty os name termp winp l s =
     (case posix_openpt os s of
        (Inl e, s) \<Rightarrow> Some (Inl e, name, l, s)
      | (Inr master, s) \<Rightarrow>
          (case (if p_grant os \<noteq> None then p_grant os else p_unlock os) of
             Some e \<Rightarrow> Some (Inl e, name, l, close_fd master s)
           | None \<Rightarrow>
               (case p_name os of
                  NULL \<Rightarrow> Some (Inl (EOTHER 0), name, l, close_fd master s)
                | Ptr slavename \<Rightarrow>
                    (case sys_open (p_slave os) s of
                       (Inl e, s) \<Rightarrow> Some (Inl e, name, l, close_fd master s)
                     | (Inr slave, s) \<Rightarrow>
                         let l = l\<lparr>modules := [''ttcompat'', ''ldterm'', ''ptem''] @ modules l\<rparr>;
                             l = (case termp of NULL \<Rightarrow> l | Ptr t \<Rightarrow> l\<lparr>termios := t\<rparr>);
                             l = (case winp of NULL \<Rightarrow> l | Ptr w \<Rightarrow> l\<lparr>winsize := w\<rparr>)
                         in (case name of
                               NULL \<Rightarrow> Some (Inr (master, slave), NULL, l, s)
                             | Ptr b \<Rightarrow> map_option (\<lambda>b. (Inr (master, slave), Ptr b, l, s)) (strcpy b slavename))))))"

section \<open>Logging in on a line\<close>

text \<open>
  The answers of the calls that follow \<open>fork\<close> in the child: the failure of \<open>setsid\<close>, those of \<open>ttyname\<close> and the
  \<open>open\<close> that makes the line the controlling terminal (\<open>NULL\<close>: it has no name), and the failures of \<open>dup2\<close>
  onto each standard descriptor.
\<close>

record login_os =
  l_setsid :: "errno option"
  l_reopen :: "open_answer ptr"
  l_dup2 :: "int \<Rightarrow> errno option"

definition redirect :: "login_os \<Rightarrow> int \<Rightarrow> int \<Rightarrow> fdstate \<Rightarrow> (errno + int) \<times> fdstate" where
  "redirect los fd n s = (case l_dup2 los n of Some e \<Rightarrow> (Inl e, s) | None \<Rightarrow> dup2 fd n s)"

definition login_tty :: "login_os \<Rightarrow> int \<Rightarrow> fdstate \<Rightarrow> errno option \<times> fdstate" where
  "login_tty los fd s =
     (case l_setsid los of
        Some e \<Rightarrow> (Some e, s)
      | None \<Rightarrow>
          let s = (case l_reopen los of
                     NULL \<Rightarrow> s
                   | Ptr a \<Rightarrow> (case sys_open a s of (Inl _, s) \<Rightarrow> s | (Inr tmpfd, s) \<Rightarrow> if tmpfd \<ge> 0 then close_fd tmpfd s else s)) in
          (case redirect los fd 0 s of (Inl e, s) \<Rightarrow> (Some e, s) | (Inr _, s) \<Rightarrow>
          (case redirect los fd 1 s of (Inl e, s) \<Rightarrow> (Some e, s) | (Inr _, s) \<Rightarrow>
          (case redirect los fd 2 s of (Inl e, s) \<Rightarrow> (Some e, s) | (Inr _, s) \<Rightarrow>
             (None, if fd > 2 then close_fd fd s else s)))))"

text \<open>\<open>forked\<close> is the answer of \<open>fork\<close>; the result is the process number, with the master in the parent.\<close>

definition forkpty ::
    "pty_os \<Rightarrow> login_os \<Rightarrow> errno + int \<Rightarrow> cbuf ptr \<Rightarrow> 't ptr \<Rightarrow> 'w ptr \<Rightarrow> ('t, 'w) line \<Rightarrow> fdstate
     \<Rightarrow> ((int \<times> int option) outcome \<times> ('t, 'w) line \<times> fdstate) option" where
  "forkpty os los forked name termp winp l s =
     (case openpty os name termp winp l s of
        None \<Rightarrow> None
      | Some (Inl e, _, l, s) \<Rightarrow> Some (Returns (Inl e), l, s)
      | Some (Inr (master, slave), _, l, s) \<Rightarrow>
          (case forked of
             Inl e \<Rightarrow> Some (Returns (Inl e), l, close_fd slave (close_fd master s))
           | Inr pid \<Rightarrow>
               if pid = 0 then
                 (case login_tty los slave (close_fd master s) of
                    (Some _, s) \<Rightarrow> Some (Exits 1, l, s)
                  | (None, s) \<Rightarrow> Some (Returns (Inr (0, None)), l, s))
               else Some (Returns (Inr (pid, Some master)), l, close_fd slave s)))"

section \<open>Raw mode\<close>

text \<open>The flag words and control characters; the bits are constants of the system's \<open><termios.h>\<close>.\<close>

record tattr =
  c_iflag :: u32
  c_oflag :: u32
  c_lflag :: u32
  c_cflag :: u32
  c_cc :: "u8 list"

record tbits =
  b_in :: "u32 list"
  b_opost :: u32
  b_local :: "u32 list"
  b_csize :: u32
  b_parenb :: u32
  b_cs8 :: u32
  b_vmin :: nat
  b_vtime :: nat

text \<open>
  \<open>b_in\<close> lists \<open>IGNBRK\<close> to \<open>IXON\<close> and \<open>b_local\<close> lists \<open>ECHO\<close> to \<open>IEXTEN\<close>, in the order of the source.
\<close>

definition any_of :: "u32 list \<Rightarrow> u32" where
  "any_of bs = foldl (OR) 0 bs"

definition cfmakeraw :: "tbits \<Rightarrow> tattr \<Rightarrow> tattr option" where
  "cfmakeraw k t = do {
     let t = t\<lparr>c_iflag := c_iflag t AND NOT (any_of (b_in k)), c_oflag := c_oflag t AND NOT (b_opost k),
               c_lflag := c_lflag t AND NOT (any_of (b_local k)),
               c_cflag := (c_cflag t AND NOT (b_csize k OR b_parenb k)) OR b_cs8 k\<rparr>;
     cc \<leftarrow> wr (c_cc t) (b_vmin k) 1;
     cc \<leftarrow> wr cc (b_vtime k) 0;
     Some (t\<lparr>c_cc := cc\<rparr>) }"

section \<open>Descriptors are not leaked\<close>

text \<open>The system hands out descriptors that are not open; those of a new description are kept across \<open>exec\<close>.\<close>

definition opens_new :: "open_answer \<Rightarrow> (int \<Rightarrow> fdesc option) \<Rightarrow> bool" where
  "opens_new a t \<longleftrightarrow> (\<forall>fd i. a = Inr (fd, i) \<longrightarrow> 0 \<le> fd \<and> t fd = None)"

definition kept :: "nat \<Rightarrow> fdesc" where
  "kept i = \<lparr>ofd = i, cloexec = False\<rparr>"

definition opened_in_turn :: "pty_os \<Rightarrow> login_os \<Rightarrow> (int \<Rightarrow> fdesc option) \<Rightarrow> bool" where
  "opened_in_turn os los t \<longleftrightarrow> opens_new (p_ptmx os) t
     \<and> (\<forall>m i. p_ptmx os = Inr (m, i) \<longrightarrow> opens_new (p_slave os) (t(m \<mapsto> kept i)))
     \<and> (\<forall>k j a. p_slave os = Inr (k, j) \<longrightarrow> l_reopen los = Ptr a \<longrightarrow> opens_new a (t(k \<mapsto> kept j)))"

lemma openpty_descriptors:
  assumes "openpty os name termp winp l s = Some (r, name', l', s')" and "opened_in_turn os los (fds s)"
  shows "case r of
      Inl e \<Rightarrow> fds s' = fds s \<and> (p_ptmx os = Inl e \<or> p_grant os = Some e \<or> p_unlock os = Some e \<or> p_name os = NULL \<or> p_slave os = Inl e)
    | Inr (m, k) \<Rightarrow> m \<noteq> k \<and> 0 \<le> k \<and> fds s m = None \<and> fds s k = None
        \<and> (\<exists>i j. p_ptmx os = Inr (m, i) \<and> p_slave os = Inr (k, j) \<and> fds s' = (fds s)(m \<mapsto> kept i, k \<mapsto> kept j))"
proof (cases "p_ptmx os")
  case (Inl e)
  then show ?thesis using assms(1) by (auto simp: openpty_def posix_openpt_def sys_open_def)
next
  case (Inr p)
  obtain m i where p: "p = (m, i)" by (cases p)
  have "(fds s)(m := None) = fds s" using assms(2) Inr p by (auto simp: opened_in_turn_def opens_new_def)
  then show ?thesis
    using assms Inr p
    by (auto simp: openpty_def posix_openpt_def sys_open_def close_fd_def opened_in_turn_def opens_new_def kept_def Let_def
        split: option.splits ptr.splits if_splits sum.splits)
qed

text \<open>The child: the slave on the standard descriptors and nowhere else, or a failure of one of the calls.\<close>

lemma redirect_all:
  assumes "fds s k = Some (kept j)" "0 \<le> k" and "l_dup2 los 0 = None" "l_dup2 los 1 = None" "l_dup2 los 2 = None"
    and "l_setsid los = None" "l_reopen los = NULL"
  shows "login_tty los k s = (None, s\<lparr>fds := (\<lambda>x. if x = 0 \<or> x = 1 \<or> x = 2 then Some (kept j)
      else if x = k then None else fds s x)\<rparr>)"
proof -
  obtain t f where s: "s = \<lparr>fds = t, ofd_flags = f\<rparr>" by (cases s)
  consider "k = 0" | "k = 1" | "k = 2" | "2 < k" using assms(2) by linarith
  then show ?thesis
    by cases (use assms in \<open>auto simp: s login_tty_def redirect_def dup2_def close_fd_def Let_def fun_eq_iff kept_def\<close>)
qed

lemma redirect_reopen [simp]: "redirect (los\<lparr>l_reopen := a\<rparr>) = redirect los"
  by (simp add: redirect_def fun_eq_iff)

lemma login_tty_descriptors:
  assumes "login_tty los k s = (r, s')" and "fds s k = Some (kept j)" "0 \<le> k"
    and "\<And>a. l_reopen los = Ptr a \<Longrightarrow> opens_new a (fds s)"
  shows "if l_setsid los = None \<and> l_dup2 los 0 = None \<and> l_dup2 los 1 = None \<and> l_dup2 los 2 = None
    then r = None \<and> fds s' = (\<lambda>x. if x = 0 \<or> x = 1 \<or> x = 2 then Some (kept j) else if x = k then None else fds s x)
    else r \<noteq> None"
proof -
  define s1 where "s1 = (case l_reopen los of NULL \<Rightarrow> s
    | Ptr a \<Rightarrow> (case sys_open a s of (Inl _, s) \<Rightarrow> s | (Inr tmpfd, s) \<Rightarrow> if tmpfd \<ge> 0 then close_fd tmpfd s else s))"
  have s1: "fds s1 = fds s"
    using assms(4) by (auto simp: s1_def sys_open_def close_fd_def opens_new_def fun_eq_iff split: ptr.split sum.split)
  show ?thesis
  proof (cases "l_setsid los = None")
    case True
    have eq: "login_tty (los\<lparr>l_reopen := NULL\<rparr>) k s1 = (r, s')"
      unfolding login_tty_def redirect_reopen using True assms(1) by (simp add: s1_def [symmetric] login_tty_def)
    have "fst (login_tty (los\<lparr>l_reopen := NULL\<rparr>) k s1) \<noteq> None"
      if "l_dup2 los 0 \<noteq> None \<or> l_dup2 los 1 \<noteq> None \<or> l_dup2 los 2 \<noteq> None"
      using that True unfolding login_tty_def redirect_reopen
      by (cases "l_dup2 los 0"; cases "l_dup2 los 1"; cases "l_dup2 los 2") (auto simp: redirect_def split: prod.split sum.split)
    then show ?thesis
      using True assms(2,3) s1 eq redirect_all [of s1 k j "los\<lparr>l_reopen := NULL\<rparr>"] by auto
  next
    case False
    then obtain e where e: "l_setsid los = Some e" by auto
    then have "r = Some e" using assms(1) by (simp add: login_tty_def)
    with e show ?thesis by simp
  qed
qed

section \<open>Properties\<close>

text \<open>
  C35. \<^verbatim>\<open>forkpty\<close> leaves exactly the descriptors it should, whatever fails: when a call before the fork or the
  fork itself fails, none more than before; in the parent only the master; in the child, once it has logged
  in, the slave on the three standard descriptors and neither the master, nor the descriptor opened to make the line the
  controlling terminal, nor another one for the slave; and a child that cannot log in exits. The system is assumed to
  hand out descriptors that are not open.
\<close>

theorem forkpty_descriptors:
  assumes "opened_in_turn os los (fds s)" and "forkpty os los forked name termp winp l s = Some (r, l', s')"
  shows "case r of
      Exits c \<Rightarrow> c = 1 \<and> forked = Inr 0 \<and> (l_setsid los \<noteq> None \<or> l_dup2 los 0 \<noteq> None \<or> l_dup2 los 1 \<noteq> None \<or> l_dup2 los 2 \<noteq> None)
    | Returns (Inl e) \<Rightarrow> fds s' = fds s \<and> (p_ptmx os = Inl e \<or> p_grant os = Some e \<or> p_unlock os = Some e
        \<or> p_name os = NULL \<or> p_slave os = Inl e \<or> forked = Inl e)
    | Returns (Inr (pid, Some m)) \<Rightarrow> forked = Inr pid \<and> pid \<noteq> 0
        \<and> (\<exists>i. p_ptmx os = Inr (m, i) \<and> fds s' = (fds s)(m \<mapsto> kept i))
    | Returns (Inr (pid, None)) \<Rightarrow> forked = Inr 0 \<and> pid = 0 \<and> l_setsid los = None
        \<and> (\<exists>k j. p_slave os = Inr (k, j) \<and> fds s' = (\<lambda>x. if x = 0 \<or> x = 1 \<or> x = 2 then Some (kept j) else fds s x))"
proof -
  obtain q n1 l1 s1 where o: "openpty os name termp winp l s = Some (q, n1, l1, s1)"
    using assms(2) by (cases "openpty os name termp winp l s") (auto simp: forkpty_def)
  note op = openpty_descriptors [OF o assms(1)]
  show ?thesis
  proof (cases q)
    case (Inl e)
    then show ?thesis using assms(2) o op by (auto simp: forkpty_def)
  next
    case (Inr p)
    then obtain m k i j where p: "p = (m, k)" "m \<noteq> k" "0 \<le> k" "fds s m = None" "fds s k = None"
      and a: "p_ptmx os = Inr (m, i)" "p_slave os = Inr (k, j)" and f: "fds s1 = (fds s)(m \<mapsto> kept i, k \<mapsto> kept j)"
      using op by (cases p) auto
    have child: "fds (close_fd m s1) = (fds s)(k \<mapsto> kept j)" using f p by (auto simp: close_fd_def fun_eq_iff)
    obtain r2 s2 where l: "login_tty los k (close_fd m s1) = (r2, s2)" by fastforce
    have "opens_new b (fds (close_fd m s1))" if "l_reopen los = Ptr b" for b
      using assms(1) a that child by (auto simp: opened_in_turn_def)
    note lt = login_tty_descriptors [OF l _ p(3) this, of j]
    have "(\<lambda>x. if x = 0 \<or> x = 1 \<or> x = 2 then Some (kept j) else if x = k then None else ((fds s)(k \<mapsto> kept j)) x)
        = (\<lambda>x. if x = 0 \<or> x = 1 \<or> x = 2 then Some (kept j) else fds s x)"
      using p(5) by (auto simp: fun_eq_iff)
    with lt [unfolded child] have lt': "if l_setsid los = None \<and> l_dup2 los 0 = None \<and> l_dup2 los 1 = None \<and> l_dup2 los 2 = None
      then r2 = None \<and> fds s2 = (\<lambda>x. if x = 0 \<or> x = 1 \<or> x = 2 then Some (kept j) else fds s x) else r2 \<noteq> None" by simp
    show ?thesis
    proof (cases forked)
      case (Inl e)
      then have "r = Returns (Inl e)" "s' = close_fd k (close_fd m s1)" using assms(2) o \<open>q = Inr p\<close> p by (simp_all add: forkpty_def)
      then show ?thesis using Inl f p by (auto simp: close_fd_def fun_eq_iff)
    next
      case (Inr pid)
      show ?thesis
      proof (cases "pid = 0")
        case True
        then have "(r, s') = (case r2 of Some _ \<Rightarrow> (Exits 1, s2) | None \<Rightarrow> (Returns (Inr (0, None)), s2))"
          using assms(2) o Inr \<open>q = Inr p\<close> p l by (simp add: forkpty_def split: option.splits)
        then show ?thesis using lt' True Inr a by (cases r2) (auto split: if_splits)
      next
        case False
        then have "r = Returns (Inr (pid, Some m))" "s' = close_fd k s1"
          using assms(2) o Inr \<open>q = Inr p\<close> p by (simp_all add: forkpty_def)
        then show ?thesis using False Inr a f p by (auto simp: close_fd_def fun_eq_iff)
      qed
    qed
  qed
qed

definition sample_pty :: pty_os where
  "sample_pty = \<lparr>p_ptmx = Inr (5, 50), p_grant = None, p_unlock = None, p_name = Ptr ''/dev/pts/1'', p_slave = Inr (6, 60)\<rparr>"

definition sample_login :: login_os where
  "sample_login = \<lparr>l_setsid = None, l_reopen = Ptr (Inr (5, 61)), l_dup2 = (\<lambda>_. None)\<rparr>"

theorem forkpty_descriptors_witness:
  "\<exists>l' s'. forkpty sample_pty sample_login (Inr 0) NULL (NULL :: int ptr) (NULL :: int ptr) \<lparr>modules = [], termios = 0, winsize = 0\<rparr>
       \<lparr>fds = Map.empty, ofd_flags = (\<lambda>_. 0)\<rparr> = Some (Returns (Inr (0, None)), l', s')
     \<and> fds s' = (\<lambda>x. if x = 0 \<or> x = 1 \<or> x = 2 then Some (kept 60) else None)"
proof -
  let ?r = "forkpty sample_pty sample_login (Inr 0) NULL (NULL :: int ptr) (NULL :: int ptr) \<lparr>modules = [], termios = 0, winsize = 0\<rparr>
       \<lparr>fds = Map.empty, ofd_flags = (\<lambda>_. 0)\<rparr>"
  obtain l' s' where r: "?r = Some (Returns (Inr (0, None)), l', s')"
    by (simp add: forkpty_def openpty_def posix_openpt_def sys_open_def sample_pty_def sample_login_def login_tty_def redirect_def
        dup2_def close_fd_def Let_def)
  have "fds s' = (\<lambda>x. if x = 0 \<or> x = 1 \<or> x = 2 then Some (kept 60) else None)"
    using forkpty_descriptors [OF _ r] by (simp add: opened_in_turn_def opens_new_def sample_pty_def sample_login_def fun_eq_iff)
  with r show ?thesis by blast
qed

text \<open>
  \<^verbatim>\<open>openpty\<close> writes the whole name whatever the size of the caller's array.
\<close>

lemma openpty_name_overflow:
  assumes "p_ptmx os = Inr (m, i)" "p_grant os = None" "p_unlock os = None" "p_name os = Ptr slavename"
    "p_slave os = Inr (k, j)" "length b \<le> length slavename"
  shows "openpty os (Ptr b) termp winp l s = None"
  using assms by (simp add: openpty_def posix_openpt_def sys_open_def strcpy_def memcpy_def Let_def)

end
