(* ===== verification/Messages.thy ===== *)
theory Messages
  imports Process Snprintf
begin

text \<open>
  Messages: the error and signal texts of \<open>src/src/string.c\<close> (\<open>strerror_r\<close>, \<open>strsignal\<close>, \<open>strerror_l\<close>) with
  its integer conversions, and \<open>error\<close> and \<open>error_at_line\<close> of \<open>src/src/error.c\<close>.

  \<open>strerror\<close>, the signal table and the conversions of the C library are parameters. As for \<open>snprintf\<close>,
  \<open>vsprintf\<close> is the system's formatter, here with one number.
\<close>

section \<open>Texts of errors and signals\<close>

definition strtoimax :: "(string \<Rightarrow> int \<Rightarrow> 'v \<times> nat) \<Rightarrow> string \<Rightarrow> int \<Rightarrow> 'v \<times> nat" where
  "strtoimax strtoll nptr base = strtoll nptr base"

definition strtoumax :: "(string \<Rightarrow> int \<Rightarrow> 'v \<times> nat) \<Rightarrow> string \<Rightarrow> int \<Rightarrow> 'v \<times> nat" where
  "strtoumax strtoull nptr base = strtoull nptr base"

text \<open>The array after the call; the returned pointer is the array.\<close>

definition strerror_r ::
    "(nat \<Rightarrow> nat ptr) \<Rightarrow> (string \<Rightarrow> int \<Rightarrow> string option) \<Rightarrow> cbuf \<Rightarrow> (int \<Rightarrow> string ptr) \<Rightarrow> int \<Rightarrow> cbuf \<Rightarrow> nat \<Rightarrow> cbuf option" where
  "strerror_r usable vsprintf fmt_buf strerror errnum buf buflen =
     (case strerror errnum of
        Ptr msg \<Rightarrow> map_option snd (strlcpy buf (msg @ [NUL]) buflen)
      | NULL \<Rightarrow>
          (case solcompat_snprintf usable vsprintf fmt_buf (Ptr buf) buflen ''Unknown error %d'' errnum of
             None \<Rightarrow> None
           | Some r \<Rightarrow> (case vr_str r of Ptr b \<Rightarrow> Some b | NULL \<Rightarrow> None)))"

definition NSIG :: int where "NSIG = 64"

text \<open>The text returned; \<open>siglist\<close> is \<open>_sys_siglistp\<close>, a table of at least \<open>NSIG\<close> entries, and \<open>unknown_buf\<close> the static array.\<close>

definition strsignal ::
    "(nat \<Rightarrow> nat ptr) \<Rightarrow> (string \<Rightarrow> int \<Rightarrow> string option) \<Rightarrow> cbuf \<Rightarrow> string ptr list ptr \<Rightarrow> cbuf \<Rightarrow> int \<Rightarrow> string option" where
  "strsignal usable vsprintf fmt_buf siglist unknown_buf signum =
     (let unknown = (case solcompat_snprintf usable vsprintf fmt_buf (Ptr unknown_buf) 32 ''Unknown signal %d'' signum of
                       None \<Rightarrow> None
                     | Some r \<Rightarrow> (case vr_str r of Ptr b \<Rightarrow> Some (cstr b 0) | NULL \<Rightarrow> None))
      in if signum > 0 \<and> signum < NSIG then
           (case siglist of
              NULL \<Rightarrow> unknown
            | Ptr tab \<Rightarrow> (case rd tab (nat signum) of
                            None \<Rightarrow> None
                          | Some NULL \<Rightarrow> unknown
                          | Some (Ptr t) \<Rightarrow> Some t))
         else unknown)"

definition strerror_l :: "(int \<Rightarrow> string ptr) \<Rightarrow> int \<Rightarrow> 'l \<Rightarrow> string ptr" where
  "strerror_l strerror errnum locale_obj = strerror errnum"

section \<open>Reporting errors\<close>

record estate =
  prog_name :: "string ptr"
  message_count :: u32
  err_text :: string

definition emit :: "string \<Rightarrow> estate \<Rightarrow> estate" where
  "emit t s = s\<lparr>err_text := err_text s @ t\<rparr>"

definition error_tail :: "(int \<Rightarrow> string) \<Rightarrow> int \<Rightarrow> int \<Rightarrow> string \<Rightarrow> estate \<Rightarrow> unit outcome option \<times> estate" where
  "error_tail strerror status errnum msg s =
     (let s = emit msg s;
          s = (if errnum \<noteq> 0 then emit ('': '' @ strerror errnum) s else s);
          s = emit [CHR 0x0A] s;
          s = s\<lparr>message_count := message_count s + 1\<rparr>
      in (if status \<noteq> 0 then Some (Exits status) else None, s))"

definition error :: "(int \<Rightarrow> string) \<Rightarrow> (string \<Rightarrow> 'a \<Rightarrow> string) \<Rightarrow> int \<Rightarrow> int \<Rightarrow> string \<Rightarrow> 'a \<Rightarrow> estate \<Rightarrow> unit outcome option \<times> estate" where
  "error strerror vfprintf status errnum fmt ap s =
     (let s = (case prog_name s of NULL \<Rightarrow> s | Ptr p \<Rightarrow> emit (p @ '': '') s)
      in error_tail strerror status errnum (vfprintf fmt ap) s)"

definition error_at_line ::
    "(int \<Rightarrow> string) \<Rightarrow> (string \<Rightarrow> 'a \<Rightarrow> string) \<Rightarrow> (nat \<Rightarrow> string) \<Rightarrow> int \<Rightarrow> int \<Rightarrow> string ptr \<Rightarrow> nat \<Rightarrow> string \<Rightarrow> 'a \<Rightarrow> estate
     \<Rightarrow> unit outcome option \<times> estate" where
  "error_at_line strerror vfprintf decimal status errnum filename linenum fmt ap s =
     (let s = (case prog_name s of NULL \<Rightarrow> s | Ptr p \<Rightarrow> emit (p @ '':'') s);
          s = (case filename of NULL \<Rightarrow> s | Ptr f \<Rightarrow> emit (f @ '':'' @ decimal linenum @ '': '') s)
      in error_tail strerror status errnum (vfprintf fmt ap) s)"

section \<open>Properties\<close>

lemma preprocess_unknown:
  assumes "length fb = 2048"
  shows "preprocess_fmt ''Unknown error %d'' fb 2048 = Some ''Unknown error %d''"
    "preprocess_fmt ''Unknown signal %d'' fb 2048 = Some ''Unknown signal %d''"
proof -
  let ?d = "Directive [] W_none P_none L_none CHR ''d''"
  show "preprocess_fmt ''Unknown error %d'' fb 2048 = Some ''Unknown error %d''"
    using preprocess_fmt_pieces [of "map Lit ''Unknown error '' @ [?d]" fb 2048] assms by (simp add: conv_char_def)
  show "preprocess_fmt ''Unknown signal %d'' fb 2048 = Some ''Unknown signal %d''"
    using preprocess_fmt_pieces [of "map Lit ''Unknown signal '' @ [?d]" fb 2048] assms by (simp add: conv_char_def)
qed

text \<open>
  \<^verbatim>\<open>strerror_r\<close> never writes outside the caller's array and always terminates it: whether the number is
  known or not, the array holds as much of the text as fits, a terminator, and is otherwise unchanged.
\<close>

theorem strerror_r_bounded:
  assumes "0 < n" "n \<le> length buf" and "length fmt_buf = 2048" "wf_usable usable" "usable STACK_BUF_SIZE = Ptr cap"
    and "vsprintf ''Unknown error %d'' errnum = Some unk" "length unk < STACK_BUF_SIZE"
    and "case strerror errnum of NULL \<Rightarrow> t = unk | Ptr msg \<Rightarrow> t = msg \<and> wf_cstr msg"
  shows "strerror_r usable vsprintf fmt_buf strerror errnum buf n = Some (bounded_result buf t n)"
proof (cases "strerror errnum")
  case NULL
  then have "t = unk" using assms(8) by simp
  then show ?thesis
    using NULL vsnprintf_bounded [of "''Unknown error %d''" fmt_buf "''Unknown error %d''" vsprintf errnum unk usable cap n buf]
      preprocess_unknown(1) [OF assms(3)] assms(1,2,4-7)
    by (simp add: strerror_r_def solcompat_snprintf_def)
next
  case (Ptr msg)
  then show ?thesis using assms(1,2,8) strlcpy_bounded [of msg n buf] by (simp add: strerror_r_def)
qed

theorem strerror_r_bounded_witness:
  "strerror_r Ptr (\<lambda>_ _. Some ''Unknown error 99'') (replicate 2048 NUL) (\<lambda>_. NULL) 99 ''........'' 8 = Some (''Unknown'' @ [NUL])"
  using strerror_r_bounded [of 8 "''........''" "replicate 2048 NUL" Ptr 8192 "\<lambda>_ _. Some ''Unknown error 99''" 99 "''Unknown error 99''"
      "''Unknown error 99''" "\<lambda>_. NULL"]
  by (simp add: wf_usable_def STACK_BUF_SIZE_def bounded_result_def)

end
