(* ===== verification/Runtime.thy ===== *)
theory Runtime
  imports Prelude
begin

text \<open>
  Run-time support: the stack protector's guard, \<open>src/src/ssp.c\<close>; the hardware queries of
  \<open>src/src/hwcap.c\<close>; and the walk over loaded objects, \<open>src/src/dl_iterate_phdr.c\<close>.
\<close>

unbundle bit_operations_syntax

section \<open>The stack guard\<close>

text \<open>
  \<open>unsigned long\<close> has 32 bits, so the shift of \<open>mix_weak_canary_bytes\<close> by 32 is undefined; \<open>shr32\<close> is what
  the compiled program makes of it.
\<close>

record weak_sources =
  w_hrt :: u64
  w_pid :: u32
  w_time :: u32
  w_addr :: u32

definition mix_weak :: "(u32 \<Rightarrow> u32) \<Rightarrow> weak_sources \<Rightarrow> u32" where
  "mix_weak shr32 w =
     (let mix = ucast (w_hrt w);
          mix = mix XOR shr32 (ucast (w_hrt w));
          mix = mix XOR (w_pid w * 2654435761);
          mix = mix XOR (w_time w * 16777619)
      in mix XOR w_addr w)"

definition mix_weak_canary_bytes :: "(u32 \<Rightarrow> u32) \<Rightarrow> weak_sources \<Rightarrow> u8 list" where
  "mix_weak_canary_bytes shr32 w =
     (let mix = mix_weak shr32 w;
          out = [ucast mix, ucast (drop_bit 8 mix), ucast (drop_bit 16 mix), ucast (drop_bit 24 mix)]
      in out[0 := 0])"

text \<open>The answers of \<open>open\<close> and \<open>read\<close>; the result is the guard's bytes and the descriptors closed, in order.\<close>

definition stack_chk_guard_init :: "(u32 \<Rightarrow> u32) \<Rightarrow> weak_sources \<Rightarrow> int \<Rightarrow> u8 list \<Rightarrow> u8 list \<Rightarrow> u8 list \<times> int list" where
  "stack_chk_guard_init shr32 w fd data guard =
     (if fd \<ge> 0 then
        let guard = take 4 data @ drop (length (take 4 data)) guard in
        if length (take 4 data) = 4 then
          if guard \<noteq> [0, 0, 0, 0] then (guard, [fd])
          else (mix_weak_canary_bytes shr32 w, [fd, fd])
        else (mix_weak_canary_bytes shr32 w, [fd])
      else (mix_weak_canary_bytes shr32 w, []))"

definition stack_chk_fail :: "string \<times> bool" where
  "stack_chk_fail = (''*** stack smashing detected ***: terminated'' @ [CHR 0x0A], True)"

section \<open>Hardware queries\<close>

text \<open>\<open>memset(array, 0, n * 4)\<close>, with the byte count a \<open>size_t\<close>.\<close>

definition getisax :: "u32 list ptr \<Rightarrow> int \<Rightarrow> (int \<times> u32 list ptr) option" where
  "getisax array n = (case array of
       NULL \<Rightarrow> Some (0, NULL)
     | Ptr a \<Rightarrow> if n > 0 then map_option (\<lambda>a. (0, Ptr a)) (memset a 0 0 (sz (nat n * 4) div 4)) else Some (0, Ptr a))"

definition getauxval :: "u32 \<Rightarrow> u32" where
  "getauxval typ = 0"

section \<open>Loaded objects\<close>

text \<open>
  An entry of the dynamic section; an object of the link map with the bytes and fields of the ELF header
  at its address; and the information passed to the callback.
\<close>

record dyn =
  d_tag :: int
  d_ptr :: nat

record elf_header =
  e_ident :: "u8 list"
  e_phoff :: u32
  e_phnum :: u16

record link_map =
  l_addr :: u32
  l_name :: "string ptr"
  l_header :: elf_header

record phdr_info =
  dlpi_addr :: u32
  dlpi_name :: string
  dlpi_phdr :: u32
  dlpi_phnum :: u16

definition DT_NULL :: int where "DT_NULL = 0"
definition DT_DEBUG :: int where "DT_DEBUG = 21"

text \<open>The walk to the terminating entry; running off the section is undefined.\<close>

fun get_r_debug :: "dyn list \<Rightarrow> nat ptr option" where
  "get_r_debug [] = None"
| "get_r_debug (e # es) =
     (if d_tag e = DT_NULL then Some NULL
      else if d_tag e = DT_DEBUG then Some (Ptr (d_ptr e)) else get_r_debug es)"

definition is_elf :: "elf_header \<Rightarrow> bool" where
  "is_elf h \<longleftrightarrow> \<not> (e_ident h ! 0 \<noteq> 0x7F \<or> e_ident h ! 1 \<noteq> 0x45 \<or> e_ident h ! 2 \<noteq> 0x4C \<or> e_ident h ! 3 \<noteq> 0x46)"

definition info_of :: "link_map \<Rightarrow> phdr_info" where
  "info_of m = \<lparr>dlpi_addr = l_addr m, dlpi_name = (case l_name m of NULL \<Rightarrow> [] | Ptr n \<Rightarrow> n),
     dlpi_phdr = l_addr m + e_phoff (l_header m), dlpi_phnum = e_phnum (l_header m)\<rparr>"

text \<open>The loop over the chain; the flag says whether the object is the first (\<open>l_prev\<close> is null).\<close>

fun iterate_loop :: "(phdr_info \<Rightarrow> 'd \<Rightarrow> int \<times> 'd) \<Rightarrow> bool \<Rightarrow> link_map list \<Rightarrow> 'd \<Rightarrow> int \<times> 'd" where
  "iterate_loop callback is_first [] dat = (0, dat)"
| "iterate_loop callback is_first (m # ms) dat =
     (if l_addr m = 0 \<and> is_first then iterate_loop callback False ms dat
      else if \<not> is_elf (l_header m) then iterate_loop callback False ms dat
      else case callback (info_of m) dat of (r, dat) \<Rightarrow>
        if r \<noteq> 0 then (r, dat) else iterate_loop callback False ms dat)"

text \<open>\<open>maps\<close> gives the chain of the debug structure at an address; an empty one is a null \<open>r_map\<close>.\<close>

definition dl_iterate_phdr ::
    "dyn list \<Rightarrow> (nat \<Rightarrow> link_map list) \<Rightarrow> (phdr_info \<Rightarrow> 'd \<Rightarrow> int \<times> 'd) \<Rightarrow> 'd \<Rightarrow> (int \<times> 'd) option" where
  "dl_iterate_phdr dynamic maps callback dat = do {
     d \<leftarrow> get_r_debug dynamic;
     (case d of
        NULL \<Rightarrow> Some (0, dat)
      | Ptr a \<Rightarrow> if maps a = [] then Some (0, dat) else Some (iterate_loop callback True (maps a) dat)) }"

section \<open>What the walk visits\<close>

text \<open>The objects visited: all with an ELF header, but the main program at address 0.\<close>

definition visited :: "link_map list \<Rightarrow> link_map list" where
  "visited ms = filter (\<lambda>m. is_elf (l_header m)) (case ms of [] \<Rightarrow> [] | m # ms' \<Rightarrow> if l_addr m = 0 then ms' else ms)"

text \<open>Calling back in order until one answers other than 0.\<close>

fun call_all :: "(phdr_info \<Rightarrow> 'd \<Rightarrow> int \<times> 'd) \<Rightarrow> phdr_info list \<Rightarrow> 'd \<Rightarrow> int \<times> 'd" where
  "call_all callback [] dat = (0, dat)"
| "call_all callback (i # is) dat = (case callback i dat of (r, dat) \<Rightarrow> if r \<noteq> 0 then (r, dat) else call_all callback is dat)"

lemma iterate_loop_later:
  "iterate_loop callback False ms dat = call_all callback (map info_of (filter (\<lambda>m. is_elf (l_header m)) ms)) dat"
  by (induction ms arbitrary: dat) (auto split: prod.split)

lemma iterate_loop_visits: "iterate_loop callback True ms dat = call_all callback (map info_of (visited ms)) dat"
  by (cases ms) (auto simp: visited_def iterate_loop_later split: prod.split)

section \<open>Properties\<close>

text \<open>
  \<^verbatim>\<open>dl_iterate_phdr\<close> calls back once for every loaded object that has an ELF header, in the order of the
  link map and with the object's address, name and program headers, up to the first call that answers
  other than 0, whose answer it returns; the main program at address 0 is left out, and without a debug
  structure it returns 0.
\<close>

lemma dl_iterate_phdr_visits:
  assumes "\<exists>e \<in> set dynamic. d_tag e = DT_NULL"
  shows "\<exists>d. get_r_debug dynamic = Some d \<and> dl_iterate_phdr dynamic maps callback dat =
    Some (case d of NULL \<Rightarrow> (0, dat) | Ptr a \<Rightarrow> call_all callback (map info_of (visited (maps a))) dat)"
proof -
  have "\<exists>d. get_r_debug dynamic = Some d" using assms by (induction dynamic) auto
  then obtain d where "get_r_debug dynamic = Some d" by blast
  moreover have "visited [] = []" by (simp add: visited_def)
  ultimately show ?thesis by (auto simp: dl_iterate_phdr_def iterate_loop_visits split: ptr.split)
qed

definition sample_maps :: "nat \<Rightarrow> link_map list" where
  "sample_maps a = [\<lparr>l_addr = 0, l_name = Ptr ''a.out'', l_header = \<lparr>e_ident = [0x7F, 0x45, 0x4C, 0x46], e_phoff = 52, e_phnum = 5\<rparr>\<rparr>,
     \<lparr>l_addr = 0x4000, l_name = NULL, l_header = \<lparr>e_ident = [0x7F, 0x45, 0x4C, 0x46], e_phoff = 52, e_phnum = 3\<rparr>\<rparr>]"

theorem dl_iterate_phdr_visits_witness:
  "dl_iterate_phdr [\<lparr>d_tag = 21, d_ptr = 9\<rparr>, \<lparr>d_tag = 0, d_ptr = 0\<rparr>] sample_maps (\<lambda>i n. (0, n + unat (dlpi_phnum i))) 0 = Some (0, 3)"
  using dl_iterate_phdr_visits [of "[\<lparr>d_tag = 21, d_ptr = 9\<rparr>, \<lparr>d_tag = 0, d_ptr = 0\<rparr>]" sample_maps
      "\<lambda>i n. (0, n + unat (dlpi_phnum i))" 0]
  by (simp add: DT_NULL_def DT_DEBUG_def sample_maps_def visited_def is_elf_def info_of_def)

text \<open>
  The guard is never all zero when the random device delivers, and otherwise starts with a zero byte; a
  device that delivers four zero bytes makes the code close its descriptor twice.
\<close>

lemma stack_guard_bytes:
  assumes "length guard = 4" and "stack_chk_guard_init shr32 w fd data guard = (g, closed)"
  shows "length g = 4" and "g ! 0 = 0 \<or> g \<noteq> [0, 0, 0, 0]"
  using assms by (auto simp: stack_chk_guard_init_def mix_weak_canary_bytes_def Let_def split: if_splits)

lemma stack_guard_double_close: "0 \<le> fd \<Longrightarrow> length guard = 4 \<Longrightarrow> snd (stack_chk_guard_init shr32 w fd [0, 0, 0, 0] guard) = [fd, fd]"
  by (simp add: stack_chk_guard_init_def)

text \<open>
  A machine whose shift counts modulo 32 leaves the word as it is, and then the high-resolution time
  cancels out of the fallback guard.
\<close>

lemma stack_guard_ignores_time:
  "mix_weak_canary_bytes id (w\<lparr>w_hrt := a\<rparr>) = mix_weak_canary_bytes id (w\<lparr>w_hrt := b\<rparr>)"
  by (simp add: mix_weak_canary_bytes_def mix_weak_def)

end
