(* ===== verification/Numeric.thy ===== *)
theory Numeric
  imports Prelude Complex_Main "HOL-Library.Signed_Division"
begin

text \<open>
  Numbers: \<open>src/src/c99_types.c\<close>, the character tests of \<open>src/src/ctype_compat.c\<close>, and the functions of
  \<open>src/src/math.c\<close> that compute rather than forward: classification, rounding, minimum and maximum,
  positive difference, the remainder with its quotient, the complex exponential (also of \<open>complex_math.c\<close>), and
  the functions of single precision that go through these.

  A double is its value, an infinity or not a number; the sign of zero is not represented. Operations
  that round take the rounding function \<open>rn\<close> of the machine, which may overflow to an infinity, as a parameter. A conversion to an integer
  type is undefined (\<open>None\<close>) for values the type does not have.
\<close>

section \<open>Wide integers\<close>

definition LLONG_MIN :: int where "LLONG_MIN = - (2 ^ 63)"
definition LLONG_MAX :: int where "LLONG_MAX = 2 ^ 63 - 1"

definition llong :: "int \<Rightarrow> int option" where
  "llong n = (if LLONG_MIN \<le> n \<and> n \<le> LLONG_MAX then Some n else None)"

definition imaxabs :: "int \<Rightarrow> int option" where
  "imaxabs j = (if j < 0 then llong (- j) else Some j)"

definition imaxdiv :: "int \<Rightarrow> int \<Rightarrow> (int \<times> int) option" where
  "imaxdiv numer denom = (if denom = 0 then None else do {
     quot \<leftarrow> llong (numer sdiv denom);
     rem \<leftarrow> llong (numer smod denom);
     Some (quot, rem) })"

section \<open>Blanks\<close>

definition isblank :: "int \<Rightarrow> bool" where
  "isblank c \<longleftrightarrow> c = 32 \<or> c = 9"

definition iswblank :: "u32 \<Rightarrow> bool" where
  "iswblank wc \<longleftrightarrow> wc = 32 \<or> wc = 9"

definition isblank_l :: "int \<Rightarrow> 'l \<Rightarrow> bool" where
  "isblank_l c locale_obj = isblank c"

section \<open>Doubles\<close>

datatype dbl = NaN | PInf | NInf | Fin rat

datatype fpclass = FP_SNAN | FP_QNAN | FP_NINF | FP_PINF | FP_NZERO | FP_PZERO | FP_NDENORM | FP_PDENORM | FP_NNORM | FP_PNORM

definition solcompat_fpclassify_d :: "fpclass \<Rightarrow> int" where
  "solcompat_fpclassify_d c = (case c of
     FP_SNAN \<Rightarrow> 0 | FP_QNAN \<Rightarrow> 0 | FP_NINF \<Rightarrow> 1 | FP_PINF \<Rightarrow> 1 | FP_NZERO \<Rightarrow> 2 | FP_PZERO \<Rightarrow> 2
   | FP_NDENORM \<Rightarrow> 3 | FP_PDENORM \<Rightarrow> 3 | _ \<Rightarrow> 4)"

text \<open>Comparisons are false on a value that is not a number.\<close>

fun less_d :: "dbl \<Rightarrow> dbl \<Rightarrow> bool" where
  "less_d NaN y = False"
| "less_d x NaN = False"
| "less_d PInf y = False"
| "less_d x NInf = False"
| "less_d NInf y = True"
| "less_d x PInf = True"
| "less_d (Fin x) (Fin y) = (x < y)"

definition ge_zero :: "dbl \<Rightarrow> bool" where
  "ge_zero x = (case x of NaN \<Rightarrow> False | NInf \<Rightarrow> False | PInf \<Rightarrow> True | Fin q \<Rightarrow> 0 \<le> q)"

definition floor_d :: "dbl \<Rightarrow> dbl" where
  "floor_d x = (case x of Fin q \<Rightarrow> Fin (of_int \<lfloor>q\<rfloor>) | _ \<Rightarrow> x)"

definition ceil_d :: "dbl \<Rightarrow> dbl" where
  "ceil_d x = (case x of Fin q \<Rightarrow> Fin (of_int \<lceil>q\<rceil>) | _ \<Rightarrow> x)"

text \<open>Adding a number to a double, rounded.\<close>

definition add_d :: "(rat \<Rightarrow> dbl) \<Rightarrow> dbl \<Rightarrow> rat \<Rightarrow> dbl" where
  "add_d rn x c = (case x of Fin q \<Rightarrow> rn (q + c) | _ \<Rightarrow> x)"

definition round_d :: "(rat \<Rightarrow> dbl) \<Rightarrow> dbl \<Rightarrow> dbl" where
  "round_d rn x = (if ge_zero x then floor_d (add_d rn x (1/2)) else ceil_d (add_d rn x (- 1/2)))"

definition trunc_d :: "dbl \<Rightarrow> dbl" where
  "trunc_d x = (if ge_zero x then floor_d x else ceil_d x)"

definition fdim :: "(rat \<Rightarrow> dbl) \<Rightarrow> dbl \<Rightarrow> dbl \<Rightarrow> dbl" where
  "fdim rn x y = (if less_d y x then (case (x, y) of (Fin a, Fin b) \<Rightarrow> rn (a - b) | _ \<Rightarrow> PInf) else Fin 0)"

definition fmin :: "dbl \<Rightarrow> dbl \<Rightarrow> dbl" where
  "fmin x y = (if x = NaN then y else if y = NaN then x else if less_d x y then x else y)"

definition fmax :: "dbl \<Rightarrow> dbl \<Rightarrow> dbl" where
  "fmax x y = (if x = NaN then y else if y = NaN then x else if less_d y x then x else y)"

text \<open>\<open>rint\<close> to even, as the system's default rounding has it.\<close>

definition rint :: "rat \<Rightarrow> int" where
  "rint q = (let n = \<lfloor>q\<rfloor>; f = q - of_int n in
     if f < 1/2 then n else if f > 1/2 then n + 1 else if even n then n else n + 1)"

text \<open>A conversion to a signed type of \<open>w\<close> bits truncates.\<close>

definition to_signed :: "nat \<Rightarrow> dbl \<Rightarrow> int option" where
  "to_signed w x = (case x of
       Fin q \<Rightarrow> (let n = (if 0 \<le> q then \<lfloor>q\<rfloor> else \<lceil>q\<rceil>) in
                if - (2 ^ (w - 1)) \<le> n \<and> n < 2 ^ (w - 1) then Some n else None)
     | _ \<Rightarrow> None)"

definition nearbyint :: "dbl \<Rightarrow> dbl" where
  "nearbyint x = (case x of Fin q \<Rightarrow> Fin (of_int (rint q)) | _ \<Rightarrow> x)"

definition lrint :: "dbl \<Rightarrow> int option" where "lrint x = to_signed 32 (nearbyint x)"
definition llrint :: "dbl \<Rightarrow> int option" where "llrint x = to_signed 64 (nearbyint x)"
definition lround :: "(rat \<Rightarrow> dbl) \<Rightarrow> dbl \<Rightarrow> int option" where "lround rn x = to_signed 32 (round_d rn x)"
definition llround :: "(rat \<Rightarrow> dbl) \<Rightarrow> dbl \<Rightarrow> int option" where "llround rn x = to_signed 64 (round_d rn x)"

text \<open>\<open>remainder\<close> is exact on finite numbers with a divisor other than 0, keeps a number divided by an infinity, and is otherwise not a number.\<close>

definition remainder_d :: "dbl \<Rightarrow> dbl \<Rightarrow> dbl" where
  "remainder_d x y = (case (x, y) of
       (Fin a, Fin b) \<Rightarrow> if b = 0 then NaN else Fin (a - of_int (rint (a / b)) * b)
     | (Fin a, NaN) \<Rightarrow> NaN
     | (Fin a, _) \<Rightarrow> Fin a
     | _ \<Rightarrow> NaN)"

text \<open>The expression \<open>(x - r) / y\<close> of \<open>remquo\<close>; the remainder is a number only for the first two cases.\<close>

definition quotient_d :: "(rat \<Rightarrow> dbl) \<Rightarrow> dbl \<Rightarrow> dbl \<Rightarrow> dbl \<Rightarrow> dbl" where
  "quotient_d rn x r y = (case (x, r, y) of
       (Fin a, Fin c, Fin b) \<Rightarrow> (case rn (a - c) of Fin d \<Rightarrow> rn (d / b) | e \<Rightarrow> e)
     | (Fin a, Fin c, _) \<Rightarrow> Fin 0
     | _ \<Rightarrow> NaN)"

text \<open>The three low bits of a number in two's complement are its residue; \<open>want\<close> says that \<open>quo\<close> is not null.\<close>

definition remquo :: "(rat \<Rightarrow> dbl) \<Rightarrow> dbl \<Rightarrow> dbl \<Rightarrow> bool \<Rightarrow> (dbl \<times> int option) option" where
  "remquo rn x y want = (let r = remainder_d x y in
     if \<not> want then Some (r, None)
     else do {
       n \<leftarrow> to_signed 32 (quotient_d rn x r y);
       let quo = n mod 8;
       Some (r, Some (if less_d x (Fin 0) \<noteq> less_d y (Fin 0) then - quo else quo)) })"

section \<open>More functions of doubles\<close>

text \<open>Sign, product and sum of doubles; the sign of zero is not represented.\<close>

definition sgn_d :: "dbl \<Rightarrow> int" where
  "sgn_d x = (case x of NaN \<Rightarrow> 0 | PInf \<Rightarrow> 1 | NInf \<Rightarrow> - 1 | Fin q \<Rightarrow> if q > 0 then 1 else if q < 0 then - 1 else 0)"

definition mul_d :: "(rat \<Rightarrow> dbl) \<Rightarrow> dbl \<Rightarrow> dbl \<Rightarrow> dbl" where
  "mul_d rn x y = (case (x, y) of
       (NaN, _) \<Rightarrow> NaN
     | (_, NaN) \<Rightarrow> NaN
     | (Fin a, Fin b) \<Rightarrow> rn (a * b)
     | _ \<Rightarrow> let s = sgn_d x * sgn_d y in if s = 0 then NaN else if s > 0 then PInf else NInf)"

definition sum_d :: "(rat \<Rightarrow> dbl) \<Rightarrow> dbl \<Rightarrow> dbl \<Rightarrow> dbl" where
  "sum_d rn x y = (case (x, y) of
       (NaN, _) \<Rightarrow> NaN
     | (_, NaN) \<Rightarrow> NaN
     | (Fin a, Fin b) \<Rightarrow> rn (a + b)
     | (Fin a, _) \<Rightarrow> y
     | (_, Fin b) \<Rightarrow> x
     | _ \<Rightarrow> if x = y then x else NaN)"

text \<open>The functions of the system's mathematical library are parameters, named as there with a prime; \<open>ln2\<close> is the double nearest to the literal.\<close>

definition log2 :: "(rat \<Rightarrow> dbl) \<Rightarrow> (dbl \<Rightarrow> dbl) \<Rightarrow> rat \<Rightarrow> dbl \<Rightarrow> dbl" where
  "log2 rn log' ln2 x = (case log' x of Fin q \<Rightarrow> rn (q / ln2) | r \<Rightarrow> r)"

definition exp2 :: "(dbl \<Rightarrow> dbl \<Rightarrow> dbl) \<Rightarrow> dbl \<Rightarrow> dbl" where
  "exp2 pow' x = pow' (Fin 2) x"

text \<open>\<open>lgamma'\<close> gives the value and the sign it leaves in \<open>signgam\<close>.\<close>

definition tgamma :: "(rat \<Rightarrow> dbl) \<Rightarrow> (dbl \<Rightarrow> dbl) \<Rightarrow> (dbl \<Rightarrow> dbl \<times> int) \<Rightarrow> dbl \<Rightarrow> dbl" where
  "tgamma rn exp' lgamma' x = (case lgamma' x of (lg, signgam) \<Rightarrow>
     (case lg of Fin q \<Rightarrow> mul_d rn (Fin (of_int signgam)) (exp' lg) | _ \<Rightarrow> lg))"

definition nan_d :: "string \<Rightarrow> dbl" where
  "nan_d tagp = NaN"

text \<open>\<open>int\<close> and \<open>long\<close> have the same width, so the cast keeps \<open>n\<close>.\<close>

definition scalbln :: "(dbl \<Rightarrow> int \<Rightarrow> dbl) \<Rightarrow> dbl \<Rightarrow> int \<Rightarrow> dbl" where
  "scalbln scalbn' x n = scalbn' x n"

definition cexp :: "(rat \<Rightarrow> dbl) \<Rightarrow> (dbl \<Rightarrow> dbl) \<Rightarrow> (dbl \<Rightarrow> dbl) \<Rightarrow> (dbl \<Rightarrow> dbl) \<Rightarrow> dbl \<times> dbl \<Rightarrow> dbl \<times> dbl" where
  "cexp rn exp' cos' sin' z = (case z of (a, b) \<Rightarrow>
     let ea = exp' a in (mul_d rn ea (cos' b), mul_d rn ea (sin' b)))"

text \<open>\<open>complex_math.c\<close>: the same through the functions of single precision, products rounded to it.\<close>

definition cexpf :: "(rat \<Rightarrow> dbl) \<Rightarrow> (dbl \<Rightarrow> dbl) \<Rightarrow> (dbl \<Rightarrow> dbl) \<Rightarrow> (dbl \<Rightarrow> dbl) \<Rightarrow> dbl \<times> dbl \<Rightarrow> dbl \<times> dbl" where
  "cexpf rnf expf' cosf' sinf' z = (case z of (real_part, imag_part) \<Rightarrow>
     let exp_real = expf' real_part in (mul_d rnf exp_real (cosf' imag_part), mul_d rnf exp_real (sinf' imag_part)))"

section \<open>Single precision\<close>

text \<open>A double rounded to single precision.\<close>

definition to_single :: "(rat \<Rightarrow> dbl) \<Rightarrow> dbl \<Rightarrow> dbl" where
  "to_single rnf x = (case x of Fin q \<Rightarrow> rnf q | _ \<Rightarrow> x)"

definition floorf :: "(rat \<Rightarrow> dbl) \<Rightarrow> dbl \<Rightarrow> dbl" where "floorf rnf x = to_single rnf (floor_d x)"
definition ceilf :: "(rat \<Rightarrow> dbl) \<Rightarrow> dbl \<Rightarrow> dbl" where "ceilf rnf x = to_single rnf (ceil_d x)"
definition truncf :: "(rat \<Rightarrow> dbl) \<Rightarrow> dbl \<Rightarrow> dbl" where "truncf rnf x = to_single rnf (trunc_d x)"
definition roundf :: "(rat \<Rightarrow> dbl) \<Rightarrow> (rat \<Rightarrow> dbl) \<Rightarrow> dbl \<Rightarrow> dbl" where "roundf rnf rn x = to_single rnf (round_d rn x)"
definition nearbyintf :: "(rat \<Rightarrow> dbl) \<Rightarrow> dbl \<Rightarrow> dbl" where "nearbyintf rnf x = to_single rnf (nearbyint x)"
definition fdimf :: "(rat \<Rightarrow> dbl) \<Rightarrow> (rat \<Rightarrow> dbl) \<Rightarrow> dbl \<Rightarrow> dbl \<Rightarrow> dbl" where "fdimf rnf rn x y = to_single rnf (fdim rn x y)"
definition fminf :: "(rat \<Rightarrow> dbl) \<Rightarrow> dbl \<Rightarrow> dbl \<Rightarrow> dbl" where "fminf rnf x y = to_single rnf (fmin x y)"
definition fmaxf :: "(rat \<Rightarrow> dbl) \<Rightarrow> dbl \<Rightarrow> dbl \<Rightarrow> dbl" where "fmaxf rnf x y = to_single rnf (fmax x y)"
definition lrintf :: "dbl \<Rightarrow> int option" where "lrintf x = lrint x"
definition lroundf :: "(rat \<Rightarrow> dbl) \<Rightarrow> dbl \<Rightarrow> int option" where "lroundf rn x = lround rn x"
definition llrintf :: "dbl \<Rightarrow> int option" where "llrintf x = llrint x"
definition llroundf :: "(rat \<Rightarrow> dbl) \<Rightarrow> dbl \<Rightarrow> int option" where "llroundf rn x = llround rn x"

definition remquof :: "(rat \<Rightarrow> dbl) \<Rightarrow> (rat \<Rightarrow> dbl) \<Rightarrow> dbl \<Rightarrow> dbl \<Rightarrow> bool \<Rightarrow> (dbl \<times> int option) option" where
  "remquof rnf rn x y want = map_option (\<lambda>(r, quo). (to_single rnf r, quo)) (remquo rn x y want)"

text \<open>\<open>modf'\<close> gives the fraction and the integral part.\<close>

definition modff :: "(rat \<Rightarrow> dbl) \<Rightarrow> (dbl \<Rightarrow> dbl \<times> dbl) \<Rightarrow> dbl \<Rightarrow> dbl \<times> dbl" where
  "modff rnf modf' x = (case modf' x of (r, di) \<Rightarrow> (to_single rnf r, to_single rnf di))"

definition fmaf :: "(rat \<Rightarrow> dbl) \<Rightarrow> (rat \<Rightarrow> dbl) \<Rightarrow> dbl \<Rightarrow> dbl \<Rightarrow> dbl \<Rightarrow> dbl" where
  "fmaf rnf rn x y z = to_single rnf (sum_d rn (mul_d rn x y) z)"

definition fmal :: "(rat \<Rightarrow> dbl) \<Rightarrow> dbl \<Rightarrow> dbl \<Rightarrow> dbl \<Rightarrow> dbl" where
  "fmal rn x y z = sum_d rn (mul_d rn x y) z"

definition nextafterf :: "(rat \<Rightarrow> dbl) \<Rightarrow> (dbl \<Rightarrow> dbl \<Rightarrow> dbl) \<Rightarrow> dbl \<Rightarrow> dbl \<Rightarrow> dbl" where
  "nextafterf rnf nextafter' x y = to_single rnf (nextafter' x y)"

definition nexttoward :: "(dbl \<Rightarrow> dbl \<Rightarrow> dbl) \<Rightarrow> dbl \<Rightarrow> dbl \<Rightarrow> dbl" where
  "nexttoward nextafter' x y = nextafter' x y"

definition nexttowardf :: "(rat \<Rightarrow> dbl) \<Rightarrow> (dbl \<Rightarrow> dbl \<Rightarrow> dbl) \<Rightarrow> dbl \<Rightarrow> dbl \<Rightarrow> dbl" where
  "nexttowardf rnf nextafter' x y = nextafterf rnf nextafter' x (to_single rnf y)"

text \<open>
  \<open>strtof\<close> and \<open>strtold\<close> of \<open>stdlib.c\<close> over the system's \<open>strtod\<close>, which gives the value, the rest of the text
  and whether it set \<open>errno\<close> to \<open>ERANGE\<close>.
\<close>

definition strtof :: "(rat \<Rightarrow> dbl) \<Rightarrow> (string \<Rightarrow> dbl \<times> string \<times> bool) \<Rightarrow> string \<Rightarrow> dbl \<times> string \<times> bool" where
  "strtof rnf strtod nptr = (case strtod nptr of (v, r) \<Rightarrow> (to_single rnf v, r))"

definition strtold :: "(string \<Rightarrow> dbl \<times> string \<times> bool) \<Rightarrow> string \<Rightarrow> dbl \<times> string \<times> bool" where
  "strtold strtod nptr = strtod nptr"

text \<open>The classification macros of \<open>math_ext.h\<close>.\<close>

definition FP_NAN :: int where "FP_NAN = 0"
definition FP_INFINITE :: int where "FP_INFINITE = 1"
definition FP_ZERO :: int where "FP_ZERO = 2"
definition FP_SUBNORMAL :: int where "FP_SUBNORMAL = 3"
definition FP_NORMAL :: int where "FP_NORMAL = 4"

definition isfinite :: "fpclass \<Rightarrow> bool" where
  "isfinite c \<longleftrightarrow> solcompat_fpclassify_d c \<noteq> FP_NAN \<and> solcompat_fpclassify_d c \<noteq> FP_INFINITE"

definition isinf :: "fpclass \<Rightarrow> bool" where
  "isinf c \<longleftrightarrow> solcompat_fpclassify_d c = FP_INFINITE"

definition isnormal :: "fpclass \<Rightarrow> bool" where
  "isnormal c \<longleftrightarrow> solcompat_fpclassify_d c = FP_NORMAL"

section \<open>Properties\<close>

text \<open>
  \<^verbatim>\<open>imaxdiv\<close> divides as C does: for a nonzero divisor, unless the quotient is the one value that does not
  fit, the quotient times the divisor plus the remainder is the number, the remainder is smaller than the
  divisor and has the sign of the number, and both fit 64 bits; \<^verbatim>\<open>imaxabs\<close> is the absolute value except at the
  least number, where the negation overflows.
\<close>

theorem imaxdiv_laws:
  assumes "LLONG_MIN \<le> numer" "numer \<le> LLONG_MAX" "LLONG_MIN \<le> denom" "denom \<le> LLONG_MAX" "denom \<noteq> 0"
    and "\<not> (numer = LLONG_MIN \<and> denom = - 1)"
  shows "\<exists>q r. imaxdiv numer denom = Some (q, r) \<and> q * denom + r = numer \<and> \<bar>r\<bar> < \<bar>denom\<bar> \<and> (r = 0 \<or> sgn r = sgn numer)
    \<and> imaxabs numer = (if numer = LLONG_MIN then None else Some \<bar>numer\<bar>)"
proof -
  let ?q = "numer sdiv denom" and ?r = "numer smod denom"
  have r: "\<bar>?r\<bar> < \<bar>denom\<bar>" "?r = 0 \<or> sgn ?r = sgn numer"
  proof -
    have "0 \<le> \<bar>numer\<bar> mod \<bar>denom\<bar>" "\<bar>numer\<bar> mod \<bar>denom\<bar> < \<bar>denom\<bar>" using assms(5) by simp_all
    then show "\<bar>?r\<bar> < \<bar>denom\<bar>" "?r = 0 \<or> sgn ?r = sgn numer"
      by (auto simp: signed_modulo_int_def abs_mult sgn_mult sgn_if)
  qed
  have abs_q: "\<bar>?q\<bar> = \<bar>numer\<bar> div \<bar>denom\<bar>" if "numer \<noteq> 0"
    using that assms(5) by (simp add: signed_divide_int_def abs_mult pos_imp_zdiv_nonneg_iff)
  have "\<bar>numer\<bar> div \<bar>denom\<bar> \<le> \<bar>numer\<bar> div 1" using assms(5) by (intro zdiv_mono2) simp_all
  then have "\<bar>?q\<bar> \<le> \<bar>numer\<bar>" using abs_q by (cases "numer = 0") (simp_all add: signed_divide_int_def)
  moreover have "?q \<le> LLONG_MAX"
  proof (cases "numer = LLONG_MIN")
    case True
    show ?thesis
    proof (cases "denom = 1")
      case False
      then have "2 \<le> \<bar>denom\<bar>" using True assms(5,6) by auto
      then have "\<bar>numer\<bar> div \<bar>denom\<bar> \<le> \<bar>numer\<bar> div 2" by (intro zdiv_mono2) simp_all
      then show ?thesis using abs_q True by (simp add: LLONG_MIN_def LLONG_MAX_def)
    qed (use True in \<open>simp add: LLONG_MIN_def LLONG_MAX_def\<close>)
  next
    case False
    with \<open>\<bar>?q\<bar> \<le> \<bar>numer\<bar>\<close> assms(1,2) show ?thesis by (simp add: LLONG_MIN_def LLONG_MAX_def)
  qed
  ultimately have q: "llong ?q = Some ?q" using assms(1,2) by (simp add: llong_def LLONG_MIN_def LLONG_MAX_def)
  have "llong ?r = Some ?r" using r(1) assms(3,4) unfolding llong_def LLONG_MIN_def LLONG_MAX_def by auto
  with q have "imaxdiv numer denom = Some (?q, ?r)" using assms(5) by (simp add: imaxdiv_def)
  moreover have "?q * denom + ?r = numer" by (metis mult.commute mult_sdiv_smod_eq)
  moreover have "imaxabs numer = (if numer = LLONG_MIN then None else Some \<bar>numer\<bar>)"
    using assms(1,2) by (auto simp: imaxabs_def llong_def LLONG_MIN_def LLONG_MAX_def)
  ultimately show ?thesis using r by blast
qed

theorem imaxdiv_laws_witness:
  "\<exists>q r. imaxdiv (- 7) 2 = Some (q, r) \<and> q * 2 + r = - 7 \<and> \<bar>r\<bar> < 2"
  using imaxdiv_laws [of "- 7" 2] by (auto simp: LLONG_MIN_def LLONG_MAX_def)

lemma nearest_floor:
  fixes q :: rat
  assumes "0 \<le> q"
  shows "\<bar>q - of_int \<lfloor>q + 1/2\<rfloor>\<bar> \<le> 1/2 \<and> (\<bar>q - of_int \<lfloor>q + 1/2\<rfloor>\<bar> = 1/2 \<longrightarrow> \<bar>q\<bar> < \<bar>of_int \<lfloor>q + 1/2\<rfloor>\<bar>)"
proof -
  define v :: rat where "v = of_int \<lfloor>q + 1/2\<rfloor>"
  have "v \<le> q + 1/2" "q + 1/2 < v + 1" unfolding v_def by linarith+
  then have "\<bar>q - v\<bar> \<le> 1/2 \<and> (\<bar>q - v\<bar> = 1/2 \<longrightarrow> \<bar>q\<bar> < \<bar>v\<bar>)" using assms by linarith
  then show ?thesis unfolding v_def .
qed

lemma nearest_ceiling:
  fixes q :: rat
  assumes "q < 0"
  shows "\<bar>q - of_int \<lceil>q - 1/2\<rceil>\<bar> \<le> 1/2 \<and> (\<bar>q - of_int \<lceil>q - 1/2\<rceil>\<bar> = 1/2 \<longrightarrow> \<bar>q\<bar> < \<bar>of_int \<lceil>q - 1/2\<rceil>\<bar>)"
proof -
  define v :: rat where "v = of_int \<lceil>q - 1/2\<rceil>"
  have "q - 1/2 \<le> v" "v < q - 1/2 + 1" unfolding v_def by linarith+
  then have "\<bar>q - v\<bar> \<le> 1/2 \<and> (\<bar>q - v\<bar> = 1/2 \<longrightarrow> \<bar>q\<bar> < \<bar>v\<bar>)" using assms by linarith
  then show ?thesis unfolding v_def .
qed

text \<open>
  Rounding to integers: \<^verbatim>\<open>trunc\<close> drops the fraction for every finite value, and \<^verbatim>\<open>round\<close> gives the nearest
  integer with halves away from zero whenever adding one half to the magnitude is exact; infinities and values that
  are not numbers stay.
\<close>

theorem round_trunc_nearest:
  assumes "rn (q + 1/2) = Fin (q + 1/2)" and "rn (q - 1/2) = Fin (q - 1/2)"
  shows "trunc_d (Fin q) = Fin (of_int (if 0 \<le> q then \<lfloor>q\<rfloor> else \<lceil>q\<rceil>))
    \<and> (\<exists>n :: int. round_d rn (Fin q) = Fin (of_int n) \<and> \<bar>q - of_int n\<bar> \<le> 1/2
       \<and> (\<bar>q - of_int n\<bar> = 1/2 \<longrightarrow> \<bar>q\<bar> < \<bar>of_int n\<bar>))
    \<and> round_d rn NaN = NaN \<and> round_d rn PInf = PInf \<and> round_d rn NInf = NInf"
proof -
  let ?n = "if 0 \<le> q then \<lfloor>q + 1/2\<rfloor> else \<lceil>q - 1/2\<rceil>"
  have "round_d rn (Fin q) = Fin (of_int ?n)"
    using assms by (simp add: round_d_def ge_zero_def floor_d_def ceil_d_def add_d_def)
  moreover have "\<bar>q - of_int ?n\<bar> \<le> 1/2 \<and> (\<bar>q - of_int ?n\<bar> = 1/2 \<longrightarrow> \<bar>q\<bar> < \<bar>of_int ?n\<bar>)"
    using nearest_floor [of q] nearest_ceiling [of q] by (cases "0 \<le> q") simp_all
  ultimately have "\<exists>n :: int. round_d rn (Fin q) = Fin (of_int n) \<and> \<bar>q - of_int n\<bar> \<le> 1/2
       \<and> (\<bar>q - of_int n\<bar> = 1/2 \<longrightarrow> \<bar>q\<bar> < \<bar>of_int n\<bar>)" by blast
  then show ?thesis
    by (simp add: trunc_d_def round_d_def ge_zero_def floor_d_def ceil_d_def add_d_def)
qed

theorem round_trunc_nearest_witness:
  "\<exists>n :: int. round_d Fin (Fin (- 5/2)) = Fin (of_int n) \<and> \<bar>(- 5/2 :: rat) - of_int n\<bar> \<le> 1/2"
  using round_trunc_nearest [of Fin "- 5/2"] by blast

text \<open>
  Where the sum is not exact \<^verbatim>\<open>round\<close> can be wrong: just below one half the sum rounds to 1, and so does the result.
\<close>

lemma round_below_half:
  assumes "rn (1/2 - 1 / 2 ^ 54 + 1/2) = Fin 1"
  shows "round_d rn (Fin (1/2 - 1 / 2 ^ 54)) = Fin 1"
  using assms by (simp add: round_d_def ge_zero_def floor_d_def add_d_def)

text \<open>\<^verbatim>\<open>fmin\<close> and \<^verbatim>\<open>fmax\<close> ignore a value that is not a number; \<^verbatim>\<open>fdim\<close> turns it into 0 where C99 keeps it.\<close>

lemma fmin_fmax_order:
  "fmin x NaN = x" "fmin NaN x = x" "fmax x NaN = x" "fmax NaN x = x"
  "fmin (Fin a) (Fin b) = Fin (min a b)" "fmax (Fin a) (Fin b) = Fin (max a b)"
  by (auto simp: fmin_def fmax_def min_def max_def)

lemma fdim_loses_nan: "fdim rn NaN y = Fin 0" "fdim rn x NaN = Fin 0"
  by (cases x; cases y; simp add: fdim_def)+

lemma minus_mod_8_iff: "(- k) mod 8 = k mod 8 \<longleftrightarrow> 4 dvd (k :: int)"
proof -
  have "- k - k = - (2 * k)" by simp
  then have "(- k) mod 8 = k mod 8 \<longleftrightarrow> 2 * 4 dvd 2 * k"
    unfolding mod_eq_dvd_iff by (simp only: dvd_minus_iff) simp
  then show ?thesis by presburger
qed

text \<open>
  The quotient of \<^verbatim>\<open>remquo\<close>: with \<open>k\<close> the integral quotient (and the two intermediate results exact), the
  remainder is exact, and the quotient stored agrees with \<open>k\<close> modulo 8, as C99 asks, for operands of the same
  sign; for operands of different signs the bits of the negative quotient are negated again, so that it
  agrees only when \<open>k\<close> is a multiple of 4.
\<close>

lemma remquo_quotient:
  assumes "rint (x / y) = k" and "y \<noteq> 0" and "\<bar>k\<bar> < 2 ^ 31"
    and "rn (of_int k * y) = Fin (of_int k * y)" and "rn (of_int k) = Fin (of_int k)"
  shows "\<exists>quo. remquo rn (Fin x) (Fin y) True = Some (Fin (x - of_int k * y), Some quo)
    \<and> \<bar>quo\<bar> < 8 \<and> (quo mod 8 = k mod 8 \<longleftrightarrow> (x < 0) = (y < 0) \<or> 4 dvd k)"
proof -
  let ?quo = "if (x < 0) = (y < 0) then k mod 8 else - (k mod 8)"
  have "to_signed 32 (quotient_d rn (Fin x) (Fin (x - of_int k * y)) (Fin y)) = Some k"
    using assms(2-5) by (auto simp: quotient_d_def to_signed_def)
  moreover have "remainder_d (Fin x) (Fin y) = Fin (x - of_int k * y)"
    using assms(1,2) by (simp add: remainder_d_def)
  ultimately have "remquo rn (Fin x) (Fin y) True = Some (Fin (x - of_int k * y), Some ?quo)"
    unfolding remquo_def Let_def by simp
  moreover have "\<bar>?quo\<bar> < 8" by simp
  moreover have "?quo mod 8 = k mod 8 \<longleftrightarrow> (x < 0) = (y < 0) \<or> 4 dvd k"
    using minus_mod_8_iff [of k] by (simp add: mod_minus_eq)
  ultimately show ?thesis by blast
qed

lemma rint_of_int: "rint (of_int n) = n"
  by (simp add: rint_def)

theorem remquo_quotient_witness:
  "\<exists>quo. remquo Fin (Fin (- 3)) (Fin 1) True = Some (Fin 0, Some quo) \<and> quo mod 8 \<noteq> (- 3) mod 8"
  using remquo_quotient [of "- 3" 1 "- 3" Fin] rint_of_int [of "- 3"] by auto

text \<open>
  \<^verbatim>\<open>nextafterf\<close> rounds the double neighbour back to the number it started from, and \<^verbatim>\<open>nexttowardf\<close> rounds its
  direction first, so that a target just above the number is taken for the number itself.
\<close>

lemma nextafterf_stuck:
  assumes "nextafter' (Fin 1) (Fin 2) = Fin (1 + 1 / 2 ^ 52)" and "rnf (1 + 1 / 2 ^ 52) = Fin 1"
  shows "nextafterf rnf nextafter' (Fin 1) (Fin 2) = Fin 1"
  using assms by (simp add: nextafterf_def to_single_def)

lemma nexttowardf_direction_lost:
  assumes "rnf (1 + 1 / 2 ^ 52) = Fin 1" and "rnf 1 = Fin 1" and "nextafter' (Fin 1) (Fin 1) = Fin 1"
  shows "nexttowardf rnf nextafter' (Fin 1) (Fin (1 + 1 / 2 ^ 52)) = Fin 1"
  using assms by (simp add: nexttowardf_def nextafterf_def to_single_def)

text \<open>
  When the exponential overflows on the real axis, \<^verbatim>\<open>cexp\<close> multiplies the infinity by a zero sine and its
  imaginary part is not a number, where C99 has 0.
\<close>

lemma cexp_overflow_nan:
  assumes "exp' (Fin a) = PInf" and "cos' (Fin 0) = Fin 1" and "sin' (Fin 0) = Fin 0"
  shows "cexp rn exp' cos' sin' (Fin a, Fin 0) = (PInf, NaN)"
  using assms by (simp add: cexp_def mul_d_def sgn_d_def Let_def)

text \<open>\<^verbatim>\<open>fmal\<close> rounds the product before it adds, which a fused operation does not.\<close>

lemma fmal_rounds_product:
  assumes "rn (x * y) = Fin p" and "p \<noteq> x * y" and "p + z = 0" and "rn 0 = Fin 0"
  shows "fmal rn (Fin x) (Fin y) (Fin z) = Fin 0 \<and> x * y + z \<noteq> 0"
  using assms by (auto simp: fmal_def mul_d_def sum_d_def)

text \<open>Rounding to integers in single precision rounds only once when the integer is a number of single precision.\<close>

lemma single_rounding:
  assumes "\<And>n :: int. rnf (of_int n) = Fin (of_int n)"
  shows "floorf rnf x = floor_d x" "ceilf rnf x = ceil_d x" "truncf rnf x = trunc_d x" "nearbyintf rnf x = nearbyint x"
  using assms
  by (auto simp: floorf_def ceilf_def truncf_def nearbyintf_def to_single_def floor_d_def ceil_d_def trunc_d_def nearbyint_def
      split: dbl.splits)

lemma classification:
  "isfinite c \<longleftrightarrow> c \<notin> {FP_SNAN, FP_QNAN, FP_NINF, FP_PINF}" "isinf c \<longleftrightarrow> c \<in> {FP_NINF, FP_PINF}" "isnormal c \<longleftrightarrow> c \<in> {FP_NNORM, FP_PNORM}"
  by (cases c; simp add: isfinite_def isinf_def isnormal_def solcompat_fpclassify_d_def FP_NAN_def FP_INFINITE_def FP_NORMAL_def)+

text \<open>A number that only single precision cannot hold becomes an infinity without the range error C99 asks for.\<close>

lemma strtof_overflow_silent:
  assumes "strtod nptr = (Fin q, r, False)" and "rnf q = PInf"
  shows "strtof rnf strtod nptr = (PInf, r, False)"
  using assms by (simp add: strtof_def to_single_def)

end
