(* ===== verification/Barriers.thy ===== *)
theory Barriers
  imports Prelude
begin

text \<open>
  The memory barriers of \<open>src/src/atomic_ops.c\<close>: \<open>sst_full_barrier\<close>, \<open>sst_store_barrier\<close>, \<open>sst_load_barrier\<close>,
  the four \<open>membar_*\<close> functions and \<open>__sync_synchronize\<close>, on a machine with store buffers.

  The machine has the two memory models of SPARC V8. Loads execute in order; a store waits in the buffer of
  its processor, from where the processor's own loads see it. In total store order (\<open>tso\<close>) the buffer
  drains from the front; in partial store order a store may overtake others, except stores to its own
  location and the marks a store barrier leaves. A barrier with \<open>#StoreLoad\<close> waits for the buffer to drain.
\<close>

section \<open>The barriers\<close>

text \<open>The three branches of the conditional compilation, and the instructions emitted.\<close>

datatype isa = V9 | V8 | Host

datatype ordering = StoreLoad | LoadLoad | LoadStore | StoreStore

datatype barrier = Membar "ordering list" | Stbar | Compiler_Only

definition sst_full_barrier :: "isa \<Rightarrow> barrier" where
  "sst_full_barrier k = (case k of
     V9 \<Rightarrow> Membar [StoreLoad, LoadLoad, LoadStore, StoreStore] | V8 \<Rightarrow> Stbar | Host \<Rightarrow> Compiler_Only)"

definition sst_store_barrier :: "isa \<Rightarrow> barrier" where
  "sst_store_barrier k = (case k of V9 \<Rightarrow> Membar [StoreStore] | V8 \<Rightarrow> Stbar | Host \<Rightarrow> Compiler_Only)"

definition sst_load_barrier :: "isa \<Rightarrow> barrier" where
  "sst_load_barrier k = (case k of V9 \<Rightarrow> Membar [LoadLoad] | _ \<Rightarrow> Compiler_Only)"

definition membar_enter :: "isa \<Rightarrow> barrier" where
  "membar_enter k = (case k of V9 \<Rightarrow> Membar [LoadLoad, LoadStore] | V8 \<Rightarrow> Stbar | Host \<Rightarrow> Compiler_Only)"

definition membar_exit :: "isa \<Rightarrow> barrier" where
  "membar_exit k = (case k of V9 \<Rightarrow> Membar [LoadStore, StoreStore] | V8 \<Rightarrow> Stbar | Host \<Rightarrow> Compiler_Only)"

definition membar_producer :: "isa \<Rightarrow> barrier" where
  "membar_producer k = sst_store_barrier k"

definition membar_consumer :: "isa \<Rightarrow> barrier" where
  "membar_consumer k = sst_load_barrier k"

definition sync_synchronize :: "isa \<Rightarrow> barrier" where
  "sync_synchronize k = sst_full_barrier k"

text \<open>\<open>stbar\<close> is the barrier with \<open>#StoreStore\<close> alone.\<close>

fun orders :: "barrier \<Rightarrow> ordering list" where
  "orders (Membar os) = os"
| "orders Stbar = [StoreStore]"
| "orders Compiler_Only = []"

section \<open>The machine\<close>

datatype instr = Store nat int | Load nat | Fence barrier

text \<open>
  A processor: the instructions it has left, how many it has executed, the values it has loaded, and its
  store buffer. A buffered store has its number in the program; a mark has the number of its barrier.
\<close>

datatype entry = Pend nat nat int | Mark nat

record cpu =
  code :: "instr list"
  done_count :: nat
  loaded :: "int list"
  sbuf :: "entry list"

text \<open>\<open>stored\<close> lists the stores that have reached memory, by processor and number, oldest first.\<close>

record machine =
  cpus :: "nat \<Rightarrow> cpu"
  cells :: "nat \<Rightarrow> int"
  stored :: "(nat \<times> nat) list"

text \<open>The value a load takes: the youngest buffered store to the location, or memory.\<close>

fun forward :: "nat \<Rightarrow> entry list \<Rightarrow> int \<Rightarrow> int" where
  "forward a [] v = v"
| "forward a (Pend i b w # es) v = forward a es (if a = b then w else v)"
| "forward a (Mark i # es) v = forward a es v"

text \<open>The entries a store to \<open>a\<close> may overtake.\<close>

fun passes :: "bool \<Rightarrow> nat \<Rightarrow> entry list \<Rightarrow> bool" where
  "passes tso a [] = True"
| "passes tso a (Pend i b w # es) = (\<not> tso \<and> a \<noteq> b \<and> passes tso a es)"
| "passes tso a (Mark i # es) = False"

text \<open>The mark a barrier leaves.\<close>

definition marks :: "barrier \<Rightarrow> nat \<Rightarrow> entry list" where
  "marks b i = (if StoreStore \<in> set (orders b) then [Mark i] else [])"

definition issue :: "cpu \<Rightarrow> cpu" where
  "issue c = c\<lparr>code := tl (code c), done_count := Suc (done_count c)\<rparr>"

inductive mstep :: "bool \<Rightarrow> machine \<Rightarrow> machine \<Rightarrow> bool" for tso where
  mstore: "code (cpus s t) = Store a v # is \<Longrightarrow>
    mstep tso s (s\<lparr>cpus := (cpus s)(t := (issue (cpus s t))\<lparr>sbuf := sbuf (cpus s t) @ [Pend (done_count (cpus s t)) a v]\<rparr>)\<rparr>)"
| mload: "code (cpus s t) = Load a # is \<Longrightarrow>
    mstep tso s (s\<lparr>cpus := (cpus s)(t := (issue (cpus s t))\<lparr>loaded := loaded (cpus s t) @ [forward a (sbuf (cpus s t)) (cells s a)]\<rparr>)\<rparr>)"
| mfence: "code (cpus s t) = Fence b # is \<Longrightarrow> (StoreLoad \<in> set (orders b) \<Longrightarrow> sbuf (cpus s t) = []) \<Longrightarrow>
    mstep tso s (s\<lparr>cpus := (cpus s)(t := (issue (cpus s t))\<lparr>sbuf := sbuf (cpus s t) @ marks b (done_count (cpus s t))\<rparr>)\<rparr>)"
| mdrain: "sbuf (cpus s t) = es @ Pend i a v # es' \<Longrightarrow> passes tso a es \<Longrightarrow>
    mstep tso s (s\<lparr>cpus := (cpus s)(t := (cpus s t)\<lparr>sbuf := es @ es'\<rparr>), cells := (cells s)(a := v), stored := stored s @ [(t, i)]\<rparr>)"
| mmark: "sbuf (cpus s t) = Mark i # es \<Longrightarrow>
    mstep tso s (s\<lparr>cpus := (cpus s)(t := (cpus s t)\<lparr>sbuf := es\<rparr>)\<rparr>)"

definition boot :: "(nat \<Rightarrow> instr list) \<Rightarrow> (nat \<Rightarrow> int) \<Rightarrow> machine" where
  "boot prog m = \<lparr>cpus = (\<lambda>t. \<lparr>code = prog t, done_count = 0, loaded = [], sbuf = []\<rparr>), cells = m, stored = []\<rparr>"

abbreviation runs :: "bool \<Rightarrow> machine \<Rightarrow> machine \<Rightarrow> bool" where
  "runs tso \<equiv> (mstep tso)\<^sup>*\<^sup>*"

section \<open>Store barriers order stores\<close>

fun number :: "entry \<Rightarrow> nat" where
  "number (Pend i a v) = i"
| "number (Mark i) = i"

definition pending :: "nat \<Rightarrow> entry list \<Rightarrow> bool" where
  "pending i es \<longleftrightarrow> (\<exists>a v. Pend i a v \<in> set es)"

definition is_store :: "instr \<Rightarrow> bool" where
  "is_store x = (case x of Store a v \<Rightarrow> True | _ \<Rightarrow> False)"

definition is_sfence :: "instr \<Rightarrow> bool" where
  "is_sfence x = (case x of Fence b \<Rightarrow> StoreStore \<in> set (orders b) | _ \<Rightarrow> False)"

lemma pending_simps [simp]:
  "\<not> pending i []"
  "pending i (es @ es') \<longleftrightarrow> pending i es \<or> pending i es'"
  "pending i (Pend j a v # es) \<longleftrightarrow> i = j \<or> pending i es"
  "pending i (Mark j # es) \<longleftrightarrow> pending i es"
  by (auto simp: pending_def)

lemma is_store_simps [simp]:
  "is_store (Store a v)" "\<not> is_store (Load a)" "\<not> is_store (Fence b)"
  "\<not> is_sfence (Store a v)" "\<not> is_sfence (Load a)" "is_sfence (Fence b) \<longleftrightarrow> StoreStore \<in> set (orders b)"
  by (simp_all add: is_store_def is_sfence_def)

lemma sfence_not_store: "is_sfence x \<Longrightarrow> \<not> is_store x"
  by (cases x) simp_all

lemma issue_simps [simp]:
  "code (issue c) = tl (code c)" "done_count (issue c) = Suc (done_count c)" "sbuf (issue c) = sbuf c" "loaded (issue c) = loaded c"
  by (simp_all add: issue_def)

lemma passes_no_mark: "passes tso a es \<Longrightarrow> Mark j \<notin> set es"
  by (induction tso a es rule: passes.induct) auto

lemma pending_number: "pending i es \<Longrightarrow> i \<in> number ` set es"
  by (force simp: pending_def)

text \<open>
  The processor's program so far; its buffer in program order, with the stores of the program; every executed store is buffered or in memory;
  and behind a barrier whose mark has left the buffer no earlier store is buffered.
\<close>

definition cpu_inv :: "instr list \<Rightarrow> nat set \<Rightarrow> cpu \<Rightarrow> bool" where
  "cpu_inv P L c \<longleftrightarrow> code c = drop (done_count c) P
     \<and> sorted_wrt (<) (map number (sbuf c)) \<and> (\<forall>e \<in> set (sbuf c). number e < done_count c)
     \<and> (\<forall>i a v. Pend i a v \<in> set (sbuf c) \<longrightarrow> i < length P \<and> P ! i = Store a v)
     \<and> (\<forall>i < done_count c. is_store (P ! i) \<longrightarrow> i \<in> L \<or> pending i (sbuf c))
     \<and> (\<forall>j < done_count c. is_sfence (P ! j) \<longrightarrow> Mark j \<in> set (sbuf c) \<or> (\<forall>i < j. \<not> pending i (sbuf c)))"

definition in_memory :: "nat \<Rightarrow> (nat \<times> nat) list \<Rightarrow> nat set" where
  "in_memory t l = {i. (t, i) \<in> set l}"

text \<open>The stores before a barrier reach memory before those after it.\<close>

definition fence_ordered :: "instr list \<Rightarrow> nat \<Rightarrow> (nat \<times> nat) list \<Rightarrow> bool" where
  "fence_ordered P t l \<longleftrightarrow> (\<forall>n < length l. \<forall>i j k. l ! n = (t, k) \<longrightarrow> i < j \<longrightarrow> j < k \<longrightarrow>
     is_store (P ! i) \<longrightarrow> is_sfence (P ! j) \<longrightarrow> (t, i) \<in> set (take n l))"

lemma fence_ordered_Nil [simp]: "fence_ordered P t []"
  by (simp add: fence_ordered_def)

lemma fence_ordered_snoc:
  "fence_ordered P t (l @ [(u, k)]) \<longleftrightarrow> fence_ordered P t l
     \<and> (u = t \<longrightarrow> (\<forall>i j. i < j \<longrightarrow> j < k \<longrightarrow> is_store (P ! i) \<longrightarrow> is_sfence (P ! j) \<longrightarrow> i \<in> in_memory t l))"
  by (auto simp: fence_ordered_def in_memory_def nth_append less_Suc_eq)

lemma cpu_inv_issue:
  assumes "cpu_inv P L c" and "code c = x # is" and "sbuf c' = sbuf c @ new"
    and "code c' = is" "done_count c' = Suc (done_count c)"
    and "x = Store a v \<and> new = [Pend (done_count c) a v] \<or> is_sfence x \<and> new = [Mark (done_count c)]
         \<or> \<not> is_store x \<and> \<not> is_sfence x \<and> new = []"
  shows "cpu_inv P L c'"
proof -
  have d: "drop (done_count c) P = x # is" using assms(1,2) by (simp add: cpu_inv_def)
  then have x: "P ! done_count c = x" and "drop (Suc (done_count c)) P = is"
    by (metis nth_via_drop) (metis d drop_Suc list.sel(3) tl_drop)
  moreover have "done_count c < length P" using d by (metis drop_all leI list.distinct(1))
  ultimately show ?thesis
    using assms(6) assms(1-5) sfence_not_store [of x]
    by (elim disjE) (simp_all add: cpu_inv_def less_Suc_eq sorted_wrt_append all_conj_distrib imp_disjL ball_Un)
qed

lemma cpu_inv_drain:
  assumes "cpu_inv P L c" and "sbuf c = es @ Pend k a v # es'" and "passes tso a es"
  shows "cpu_inv P (insert k L) (c\<lparr>sbuf := es @ es'\<rparr>)"
    and "i < j \<Longrightarrow> j < k \<Longrightarrow> is_store (P ! i) \<Longrightarrow> is_sfence (P ! j) \<Longrightarrow> i \<in> L"
proof -
  show "cpu_inv P (insert k L) (c\<lparr>sbuf := es @ es'\<rparr>)"
    using assms(1,2) by (auto simp: cpu_inv_def sorted_wrt_append)
  assume ij: "i < j" "j < k" "is_store (P ! i)" "is_sfence (P ! j)"
  have k: "k < done_count c" and s: "sorted_wrt (<) (map number (sbuf c))" using assms(1,2) by (auto simp: cpu_inv_def)
  have "Mark j \<notin> set (sbuf c)"
  proof
    assume "Mark j \<in> set (sbuf c)"
    then have "Mark j \<in> set es'" using assms(2) passes_no_mark [OF assms(3)] by auto
    then have "k < j" using s assms(2) by (force simp: sorted_wrt_append)
    with ij(2) show False by simp
  qed
  moreover have "j < done_count c" "i < done_count c" using ij(1,2) k by simp_all
  ultimately show "i \<in> L" using assms(1) ij(1,3,4) unfolding cpu_inv_def by blast
qed

lemma cpu_inv_mark:
  assumes "cpu_inv P L c" and "sbuf c = Mark m # es"
  shows "cpu_inv P L (c\<lparr>sbuf := es\<rparr>)"
proof -
  have "\<not> pending i es" if "i < m" for i
    using assms that pending_number [of i es] by (fastforce simp: cpu_inv_def)
  then show ?thesis using assms by (auto simp: cpu_inv_def)
qed

lemma mstep_fence_ordered:
  assumes "mstep tso s s'" and "cpu_inv P (in_memory t (stored s)) (cpus s t)" and "fence_ordered P t (stored s)"
  shows "cpu_inv P (in_memory t (stored s')) (cpus s' t) \<and> fence_ordered P t (stored s')"
  using assms
proof cases
  case (mstore u a v "is")
  then show ?thesis using assms(2,3) by (auto intro: cpu_inv_issue [where x = "Store a v"])
next
  case (mload u a "is")
  then show ?thesis using assms(2,3) by (auto intro: cpu_inv_issue [where x = "Load a" and new = "[]"])
next
  case (mfence u b "is")
  have "is_sfence (Fence b) \<and> marks b n = [Mark n] \<or> \<not> is_store (Fence b) \<and> \<not> is_sfence (Fence b) \<and> marks b n = []" for n
    by (simp add: marks_def)
  then show ?thesis using mfence assms(2,3) cpu_inv_issue [OF assms(2), of "Fence b" "is" _ "marks b (done_count (cpus s t))"]
    by (cases "u = t") simp_all
next
  case (mdrain u es i a v es')
  have "in_memory t (stored s @ [(u, i)]) = (if u = t then insert i (in_memory t (stored s)) else in_memory t (stored s))"
    by (auto simp: in_memory_def)
  then show ?thesis
    using mdrain assms(2,3) cpu_inv_drain [of P "in_memory t (stored s)" "cpus s t" es i a v es' tso]
    by (auto simp: fence_ordered_snoc)
next
  case (mmark u i es)
  then show ?thesis using assms(2,3) by (auto intro: cpu_inv_mark)
qed

lemma runs_fence_ordered:
  assumes "runs tso (boot prog m) s"
  shows "cpu_inv (prog t) (in_memory t (stored s)) (cpus s t) \<and> fence_ordered (prog t) t (stored s)"
  using assms
proof (induction rule: rtranclp_induct)
  case base
  then show ?case by (simp add: boot_def cpu_inv_def)
next
  case (step y z)
  then show ?case using mstep_fence_ordered by blast
qed

section \<open>Runs as schedules\<close>

text \<open>
  A run given as a list of choices: a processor executes its next instruction, the store at a place of its buffer
  reaches memory, or the mark at the front of its buffer is dropped.
\<close>

datatype choice = Issue nat | Drain nat nat | Unmark nat

fun act :: "bool \<Rightarrow> choice \<Rightarrow> machine \<Rightarrow> machine option" where
  "act tso (Issue t) s =
     (let c = cpus s t; go = (\<lambda>c'. Some (s\<lparr>cpus := (cpus s)(t := c')\<rparr>)) in
      case code c of
        [] \<Rightarrow> None
      | Store a v # is \<Rightarrow> go ((issue c)\<lparr>sbuf := sbuf c @ [Pend (done_count c) a v]\<rparr>)
      | Load a # is \<Rightarrow> go ((issue c)\<lparr>loaded := loaded c @ [forward a (sbuf c) (cells s a)]\<rparr>)
      | Fence b # is \<Rightarrow>
          if StoreLoad \<in> set (orders b) \<and> sbuf c \<noteq> [] then None
          else go ((issue c)\<lparr>sbuf := sbuf c @ marks b (done_count c)\<rparr>))"
| "act tso (Drain t n) s =
     (case drop n (sbuf (cpus s t)) of
        Pend i a v # es' \<Rightarrow>
          if passes tso a (take n (sbuf (cpus s t)))
          then Some (s\<lparr>cpus := (cpus s)(t := (cpus s t)\<lparr>sbuf := take n (sbuf (cpus s t)) @ es'\<rparr>),
                       cells := (cells s)(a := v), stored := stored s @ [(t, i)]\<rparr>)
          else None
      | _ \<Rightarrow> None)"
| "act tso (Unmark t) s =
     (case sbuf (cpus s t) of Mark i # es \<Rightarrow> Some (s\<lparr>cpus := (cpus s)(t := (cpus s t)\<lparr>sbuf := es\<rparr>)\<rparr>) | _ \<Rightarrow> None)"

fun schedule :: "bool \<Rightarrow> choice list \<Rightarrow> machine \<Rightarrow> machine option" where
  "schedule tso [] s = Some s"
| "schedule tso (c # cs) s = Option.bind (act tso c s) (schedule tso cs)"

lemma act_mstep: "act tso c s = Some s' \<Longrightarrow> mstep tso s s'"
proof (cases c)
  case (Issue t)
  then show "act tso c s = Some s' \<Longrightarrow> mstep tso s s'"
    using mstep.mfence [of s t _ _ tso]
    by (auto simp: Let_def split: list.splits instr.splits if_splits intro: mstep.mstore mstep.mload)
next
  case (Drain t n)
  moreover have "sbuf (cpus s t) = take n (sbuf (cpus s t)) @ Pend i a v # es'"
    if "drop n (sbuf (cpus s t)) = Pend i a v # es'" for i a v es'
    using append_take_drop_id [of n "sbuf (cpus s t)"] that by simp
  ultimately show "act tso c s = Some s' \<Longrightarrow> mstep tso s s'"
    by (auto split: list.splits entry.splits if_splits intro: mstep.mdrain)
next
  case (Unmark t)
  then show "act tso c s = Some s' \<Longrightarrow> mstep tso s s'"
    by (auto split: list.splits entry.splits intro: mstep.mmark)
qed

lemma schedule_runs: "schedule tso cs s = Some s' \<Longrightarrow> runs tso s s'"
  by (induction cs arbitrary: s) (auto simp: bind_eq_Some_conv dest: act_mstep intro: converse_rtranclp_into_rtranclp)

section \<open>Store buffering\<close>

text \<open>Every buffered store, and every store of a program, is one that \<open>Q\<close> allows.\<close>

fun pends :: "(nat \<Rightarrow> int \<Rightarrow> bool) \<Rightarrow> entry list \<Rightarrow> bool" where
  "pends Q [] = True"
| "pends Q (Pend i a v # es) = (Q a v \<and> pends Q es)"
| "pends Q (Mark i # es) = pends Q es"

fun only_stores :: "(nat \<Rightarrow> int \<Rightarrow> bool) \<Rightarrow> instr list \<Rightarrow> bool" where
  "only_stores Q [] = True"
| "only_stores Q (Store a v # is) = (Q a v \<and> only_stores Q is)"
| "only_stores Q (_ # is) = only_stores Q is"

lemma pends_append [simp]: "pends Q (es @ es') \<longleftrightarrow> pends Q es \<and> pends Q es'"
  by (induction Q es rule: pends.induct) auto

lemma pends_marks [simp]: "pends Q (marks b i)"
  by (simp add: marks_def)

definition quiet :: "cpu \<Rightarrow> bool" where
  "quiet c \<longleftrightarrow> (\<forall>i. \<not> pending i (sbuf c))"

lemma forward_quiet: "\<forall>i. \<not> pending i es \<Longrightarrow> forward a es v = v"
  by (induction a es v rule: forward.induct) auto

text \<open>The processor stores 1 to its own location \<open>x\<close>, passes the barrier and loads the location \<open>y\<close> of the other.\<close>

definition announce :: "barrier \<Rightarrow> nat \<Rightarrow> nat \<Rightarrow> instr list" where
  "announce b x y = [Store x 1, Fence b, Load y]"

definition announced :: "barrier \<Rightarrow> nat \<Rightarrow> nat \<Rightarrow> (nat \<Rightarrow> int) \<Rightarrow> cpu \<Rightarrow> bool" where
  "announced b x y m c \<longleftrightarrow> pends (\<lambda>a v. a = x \<and> v = 1) (sbuf c)
     \<and> (code c = announce b x y \<and> loaded c = []
        \<or> code c = [Fence b, Load y] \<and> loaded c = [] \<and> (quiet c \<longrightarrow> m x = 1)
        \<or> code c = [Load y] \<and> loaded c = [] \<and> quiet c \<and> m x = 1
        \<or> code c = [] \<and> length (loaded c) = 1 \<and> quiet c \<and> m x = 1)"

text \<open>A processor that leaves the two locations alone.\<close>

definition elsewhere :: "nat set \<Rightarrow> cpu \<Rightarrow> bool" where
  "elsewhere A c \<longleftrightarrow> pends (\<lambda>a v. a \<notin> A) (sbuf c) \<and> only_stores (\<lambda>a v. a \<notin> A) (code c)"

definition buffering :: "barrier \<Rightarrow> nat \<Rightarrow> nat \<Rightarrow> machine \<Rightarrow> bool" where
  "buffering b x y s \<longleftrightarrow> announced b x y (cells s) (cpus s 0) \<and> announced b y x (cells s) (cpus s 1)
     \<and> (\<forall>t > 1. elsewhere {x, y} (cpus s t))
     \<and> (code (cpus s 0) = [] \<and> code (cpus s 1) = [] \<longrightarrow> loaded (cpus s 0) = [1] \<or> loaded (cpus s 1) = [1])"

lemma elsewhere_cpus:
  assumes "mstep tso s s'" and "elsewhere A (cpus s t)"
  shows "elsewhere A (cpus s' t)"
  using assms by cases (auto simp: elsewhere_def)

lemma announced_other:
  "announced b x y m c \<Longrightarrow> m' x = m x \<or> m' x = 1 \<Longrightarrow> announced b x y m' c"
  by (auto simp: announced_def)

lemma announced_issue:
  assumes "announced b x y m c" and "StoreLoad \<in> set (orders b)"
  shows "code c = Store a v # is \<Longrightarrow> announced b x y m ((issue c)\<lparr>sbuf := sbuf c @ [Pend (done_count c) a v]\<rparr>)"
    and "code c = Load a # is \<Longrightarrow> announced b x y m ((issue c)\<lparr>loaded := loaded c @ [w]\<rparr>)"
    and "code c = Fence b' # is \<Longrightarrow> (StoreLoad \<in> set (orders b') \<Longrightarrow> sbuf c = [])
      \<Longrightarrow> announced b x y m ((issue c)\<lparr>sbuf := sbuf c @ marks b' (done_count c)\<rparr>)"
  using assms by (auto simp: announced_def announce_def quiet_def marks_def)

lemma announced_drain:
  assumes "announced b x y m c" and "sbuf c = es @ Pend i a v # es'"
  shows "announced b x y (m(a := v)) (c\<lparr>sbuf := es @ es'\<rparr>)" and "a = x" and "v = 1"
  using assms by (auto simp: announced_def announce_def quiet_def)

lemma announced_mark:
  "announced b x y m c \<Longrightarrow> sbuf c = Mark i # es \<Longrightarrow> announced b x y m (c\<lparr>sbuf := es\<rparr>)"
  by (auto simp: announced_def quiet_def)

lemma elsewhere_drain: "elsewhere A c \<Longrightarrow> sbuf c = es @ Pend i a v # es' \<Longrightarrow> a \<notin> A"
  by (simp add: elsewhere_def)

lemma announced_load:
  assumes "announced b x y m c" and "code c = Load a # is"
  shows "a = y" and "is = []" and "loaded c = []" and "forward a (sbuf c) w = w"
  using assms by (auto simp: announced_def announce_def quiet_def forward_quiet)

lemma announced_last:
  assumes "announced b x y m c" and "code c = i # is" and "\<And>a. i \<noteq> Load a"
  shows "is \<noteq> []"
  using assms by (auto simp: announced_def announce_def)

lemma announced_done: "announced b x y m c \<Longrightarrow> code c = [] \<Longrightarrow> m x = 1"
  by (simp add: announced_def announce_def)

lemma buffering_step:
  assumes "mstep tso s s'" and "buffering b x y s" and b: "StoreLoad \<in> set (orders b)" and "x \<noteq> y"
  shows "buffering b x y s'"
proof -
  have a0: "announced b x y (cells s) (cpus s 0)" and a1: "announced b y x (cells s) (cpus s 1)"
    and fin: "code (cpus s 0) = [] \<Longrightarrow> code (cpus s 1) = [] \<Longrightarrow> loaded (cpus s 0) = [1] \<or> loaded (cpus s 1) = [1]"
    using assms(2) by (auto simp: buffering_def)
  have e: "elsewhere {x, y} (cpus s t)" if "1 < t" for t using assms(2) that by (simp add: buffering_def)
  have e': "\<forall>t > 1. elsewhere {x, y} (cpus s' t)" using e elsewhere_cpus [OF assms(1)] by blast
  have u: "u = 0 \<or> u = 1 \<or> 1 < u" for u :: nat by linarith
  have "announced b x y (cells s') (cpus s' 0) \<and> announced b y x (cells s') (cpus s' 1)
    \<and> (code (cpus s' 0) = [] \<and> code (cpus s' 1) = [] \<longrightarrow> loaded (cpus s' 0) = [1] \<or> loaded (cpus s' 1) = [1])"
    using assms(1)
  proof cases
    case (mstore w a v "is")
    show ?thesis using u [of w] mstore a0 a1 fin announced_issue(1) [OF a0 b] announced_issue(1) [OF a1 b]
        announced_last [OF a0, of "Store a v" "is"] announced_last [OF a1, of "Store a v" "is"]
      by (elim disjE) simp_all
  next
    case (mload w a "is")
    show ?thesis using u [of w] mload a0 a1 fin announced_issue(2) [OF a0 b] announced_issue(2) [OF a1 b]
        announced_load [OF a0, of a "is"] announced_load [OF a1, of a "is"] announced_done [OF a0] announced_done [OF a1]
      by (elim disjE) simp_all
  next
    case (mfence w c "is")
    show ?thesis using u [of w] mfence a0 a1 fin announced_issue(3) [OF a0 b] announced_issue(3) [OF a1 b]
        announced_last [OF a0, of "Fence c" "is"] announced_last [OF a1, of "Fence c" "is"]
      by (elim disjE) simp_all
  next
    case (mdrain w es i a v es')
    show ?thesis using u [of w] mdrain a0 a1 fin assms(4) e [of w] elsewhere_drain [of "{x, y}" "cpus s w" es i a v es']
        announced_drain [OF a0, of es i a v es'] announced_drain [OF a1, of es i a v es']
        announced_other [OF a0, of "(cells s)(a := v)"] announced_other [OF a1, of "(cells s)(a := v)"]
      by (elim disjE) auto
  next
    case (mmark w i es)
    show ?thesis using u [of w] mmark a0 a1 fin announced_mark [OF a0] announced_mark [OF a1]
      by (elim disjE) simp_all
  qed
  with e' show ?thesis unfolding buffering_def by blast
qed

lemma buffering_runs:
  assumes "runs tso (boot prog m) s" and "prog 0 = announce b x y" "prog 1 = announce b y x"
    and "\<And>t. 1 < t \<Longrightarrow> only_stores (\<lambda>a v. a \<notin> {x, y}) (prog t)" and "StoreLoad \<in> set (orders b)" "x \<noteq> y"
  shows "buffering b x y s"
  using assms(1)
proof (induction rule: rtranclp_induct)
  case base
  then show ?case using assms(2-4) by (simp add: buffering_def boot_def announced_def elsewhere_def announce_def)
next
  case (step s s')
  then show ?case using buffering_step assms(5,6) by blast
qed

section \<open>Publication\<close>

text \<open>
  Processor \<open>p\<close> stores data and then a flag; processor \<open>q\<close> loads the flag and then the data. The flag in memory is
  still the old one unless the second store has reached memory, and once the first has, the data is there.
\<close>

definition publish :: "barrier \<Rightarrow> nat \<Rightarrow> int \<Rightarrow> nat \<Rightarrow> instr list" where
  "publish b d v f = [Store d v, Fence b, Store f 1]"

definition consume :: "barrier \<Rightarrow> nat \<Rightarrow> nat \<Rightarrow> instr list" where
  "consume b f d = [Load f, Fence b, Load d]"

definition published :: "nat \<Rightarrow> nat \<Rightarrow> int \<Rightarrow> nat \<Rightarrow> machine \<Rightarrow> bool" where
  "published p d v f s \<longleftrightarrow> (cells s f = 0 \<or> (p, 2) \<in> set (stored s)) \<and> ((p, 0) \<in> set (stored s) \<longrightarrow> cells s d = v)
     \<and> (\<forall>t. t \<noteq> p \<longrightarrow> elsewhere {d, f} (cpus s t))"

definition consumed :: "barrier \<Rightarrow> nat \<Rightarrow> nat \<Rightarrow> nat \<Rightarrow> int \<Rightarrow> nat \<Rightarrow> machine \<Rightarrow> bool" where
  "consumed b p q d v f s \<longleftrightarrow> (let c = cpus s q in quiet c
     \<and> (code c = consume b f d \<and> loaded c = []
        \<or> length (loaded c) = 1 \<and> (code c = [Fence b, Load d] \<or> code c = [Load d]) \<and> (hd (loaded c) = 0 \<or> (p, 2) \<in> set (stored s))
        \<or> length (loaded c) = 2 \<and> code c = [] \<and> (hd (loaded c) = 0 \<or> loaded c ! 1 = v)))"

lemma stored_mono: "mstep tso s s' \<Longrightarrow> set (stored s) \<subseteq> set (stored s')"
  by (cases rule: mstep.cases) auto

lemma published_step:
  assumes "mstep tso s s'" and "published p d v f s" and "d \<noteq> f"
    and inv: "cpu_inv (publish b d v f) L (cpus s p)"
  shows "published p d v f s'"
proof -
  have e: "\<forall>t. t \<noteq> p \<longrightarrow> elsewhere {d, f} (cpus s' t)"
    using assms(2) elsewhere_cpus [OF assms(1)] by (auto simp: published_def)
  have "(cells s' f = 0 \<or> (p, 2) \<in> set (stored s')) \<and> ((p, 0) \<in> set (stored s') \<longrightarrow> cells s' d = v)"
    using assms(1)
  proof cases
    case (mdrain w es i a c es')
    have "a \<notin> {d, f}" if "w \<noteq> p"
      using that assms(2) mdrain elsewhere_drain [of "{d, f}" "cpus s w" es i a c es'] by (auto simp: published_def)
    moreover have "i = 0 \<and> a = d \<and> c = v \<or> i = 2 \<and> a = f" if "w = p"
    proof -
      have "publish b d v f ! i = Store a c" "i < length (publish b d v f)"
        using inv mdrain that by (auto simp: cpu_inv_def)
      then have "i < 3" "[Store d v, Fence b, Store f 1] ! i = Store a c" by (simp_all add: publish_def)
      then show ?thesis by (auto simp: nth_Cons' less_Suc_eq numeral_3_eq_3 split: if_splits)
    qed
    ultimately show ?thesis using mdrain assms(2,3) by (cases "w = p") (auto simp: published_def)
  qed (use assms(2) in \<open>auto simp: published_def\<close>)
  with e show ?thesis by (simp add: published_def)
qed

lemma consumed_step:
  assumes "mstep tso s s'" and "consumed b p q d v f s" and "published p d v f s" and "p \<noteq> q" and "d \<noteq> f"
    and "(p, 2) \<in> set (stored s) \<Longrightarrow> (p, 0) \<in> set (stored s)"
  shows "consumed b p q d v f s'"
proof -
  have fw: "forward a (sbuf (cpus s q)) w = w" for a w
    using assms(2) by (intro forward_quiet) (simp add: consumed_def quiet_def Let_def)
  have pub: "cells s f = 0 \<or> (p, 2) \<in> set (stored s)" "(p, 2) \<in> set (stored s) \<Longrightarrow> cells s d = v"
    using assms(3,6) by (auto simp: published_def)
  have mono: "(p, 2) \<in> set (stored s) \<Longrightarrow> (p, 2) \<in> set (stored s')" using stored_mono [OF assms(1)] by blast
  show ?thesis
    using assms(1)
  proof cases
    case (mload w a "is")
    then show ?thesis using assms(2) fw pub
      by (cases "w = q") (auto simp: consumed_def consume_def quiet_def Let_def nth_append hd_append)
  next
    case (mstore w a c "is")
    then show ?thesis using assms(2) by (cases "w = q") (auto simp: consumed_def consume_def Let_def)
  next
    case (mfence w c "is")
    then show ?thesis using assms(2) by (cases "w = q") (auto simp: consumed_def consume_def quiet_def marks_def Let_def)
  next
    case (mdrain w es i a c es')
    then show ?thesis using assms(2) mono by (cases "w = q") (auto simp: consumed_def quiet_def Let_def)
  next
    case (mmark w i es)
    then show ?thesis using assms(2) by (cases "w = q") (auto simp: consumed_def quiet_def Let_def)
  qed
qed

lemma publication_runs:
  assumes "runs tso (boot prog m) s" and "prog p = publish b d v f" "prog q = consume b' f d"
    and "\<And>t. t \<noteq> p \<Longrightarrow> only_stores (\<lambda>a v. a \<notin> {d, f}) (prog t)" and "p \<noteq> q" "d \<noteq> f" "m f = 0"
    and "StoreStore \<in> set (orders b)"
  shows "published p d v f s \<and> consumed b' p q d v f s"
  using assms(1)
proof (induction rule: rtranclp_induct)
  case base
  then show ?case
    using assms(2-7) by (auto simp: published_def consumed_def boot_def elsewhere_def quiet_def Let_def)
next
  case (step s s')
  have inv: "cpu_inv (publish b d v f) (in_memory p (stored s)) (cpus s p)" "fence_ordered (publish b d v f) p (stored s)"
    using runs_fence_ordered [OF step.hyps(1), of p] assms(2) by simp_all
  have "(p, 0) \<in> set (stored s)" if two: "(p, 2) \<in> set (stored s)"
  proof -
    obtain n where n: "n < length (stored s)" "stored s ! n = (p, 2)" using two by (auto simp: in_set_conv_nth)
    have "(p, 0) \<in> set (take n (stored s))"
      using inv(2) n assms(8) unfolding fence_ordered_def by (force simp: publish_def)
    then show ?thesis by (rule in_set_takeD)
  qed
  with step inv(1) show ?case using consumed_step published_step assms(5,6) by metis
qed

section \<open>Properties\<close>

text \<open>
  C8. Store barriers order stores: on a SPARC of either version, in total or partial store order and among any
  other processors, when a program has a store, then any of the barriers \<^verbatim>\<open>sst_store_barrier\<close>,
  \<^verbatim>\<open>sst_full_barrier\<close>, \<^verbatim>\<open>membar_producer\<close>, \<^verbatim>\<open>membar_exit\<close> or \<^verbatim>\<open>__sync_synchronize\<close>, then another store, and the
  later store has reached memory, the earlier one reached memory before it.
\<close>

theorem store_barrier_orders:
  assumes "runs tso (boot prog m) s" and "k \<noteq> Host"
    and "b = sst_store_barrier k \<or> b = sst_full_barrier k \<or> b = membar_producer k \<or> b = membar_exit k \<or> b = sync_synchronize k"
    and "prog t ! i = Store a v" "prog t ! j = Fence b" "prog t ! l = Store a' v'" "i < j" "j < l"
    and "n < length (stored s)" "stored s ! n = (t, l)"
  shows "(t, i) \<in> set (take n (stored s))"
proof -
  have "StoreStore \<in> set (orders b)"
    using assms(2,3)
    by (cases k) (auto simp: sst_store_barrier_def sst_full_barrier_def membar_producer_def membar_exit_def sync_synchronize_def)
  then have "is_store (prog t ! i)" "is_sfence (prog t ! j)" using assms(4,5) by simp_all
  with runs_fence_ordered [OF assms(1), of t] assms(7-10) show ?thesis unfolding fence_ordered_def by blast
qed

text \<open>
  C9. \<^verbatim>\<open>__sync_synchronize\<close> compiled for V9 is a full barrier: when two processors each store 1 to a location of
  their own, pass the barrier and load the other's location, and no other processor stores to the two, they do not
  both miss the other's store, in either memory model.
\<close>

theorem full_barrier_v9:
  assumes "runs tso (boot prog m) s" and "x \<noteq> y"
    and "prog 0 = announce (sync_synchronize V9) x y" "prog 1 = announce (sync_synchronize V9) y x"
    and "\<And>t. 1 < t \<Longrightarrow> only_stores (\<lambda>a v. a \<notin> {x, y}) (prog t)"
    and "loaded (cpus s 0) = [p]" "loaded (cpus s 1) = [q]"
  shows "p = 1 \<or> q = 1"
proof -
  have "buffering (sync_synchronize V9) x y s"
    by (rule buffering_runs [OF assms(1,3,4) assms(5)])
      (simp_all add: assms(2) sync_synchronize_def sst_full_barrier_def)
  then show ?thesis using assms(6,7) by (auto simp: buffering_def announced_def)
qed

text \<open>Runs for the witnesses: publication on two processors, and the announcements with every store drained at once.\<close>

definition two_cpus :: "instr list \<Rightarrow> instr list \<Rightarrow> nat \<Rightarrow> instr list" where
  "two_cpus P Q t = (if t = 0 then P else if t = 1 then Q else [])"

lemmas evaluate_run = boot_def two_cpus_def issue_def Let_def marks_def announce_def publish_def consume_def
  sync_synchronize_def sst_full_barrier_def sst_store_barrier_def membar_producer_def membar_consumer_def sst_load_barrier_def

definition publication :: "isa \<Rightarrow> nat \<Rightarrow> instr list" where
  "publication k = two_cpus (publish (membar_producer k) 0 7 1) (consume (membar_consumer k) 1 0)"

definition publication_schedule :: "choice list" where
  "publication_schedule = [Issue 0, Issue 0, Issue 0, Drain 0 0, Unmark 0, Drain 0 0, Issue 1, Issue 1, Issue 1]"

lemma publication_run:
  obtains s where "runs False (boot (publication V8) (\<lambda>_. 0)) s" "stored s = [(0, 0), (0, 2)]" "loaded (cpus s 1) = [1, 7]"
proof -
  obtain s where "schedule False publication_schedule (boot (publication V8) (\<lambda>_. 0)) = Some s"
    "stored s = [(0, 0), (0, 2)]" "loaded (cpus s 1) = [1, 7]"
    by (simp add: publication_schedule_def publication_def evaluate_run)
  then show thesis using that schedule_runs by blast
qed

theorem store_barrier_orders_witness:
  "\<exists>s. runs False (boot (publication V8) (\<lambda>_. 0)) s \<and> stored s ! 1 = (0, 2) \<and> (0, 0) \<in> set (take 1 (stored s))"
proof -
  obtain s where s: "runs False (boot (publication V8) (\<lambda>_. 0)) s" "stored s = [(0, 0), (0, 2)]" "loaded (cpus s 1) = [1, 7]"
    by (rule publication_run)
  have "(0, 0) \<in> set (take 1 (stored s))"
    by (rule store_barrier_orders [OF s(1), of V8 "membar_producer V8" 0 0 0 7 1 2 1 1])
      (simp_all add: s(2) publication_def two_cpus_def publish_def)
  with s show ?thesis by auto
qed

theorem full_barrier_v9_witness:
  "\<exists>s. runs True (boot (two_cpus (announce (sync_synchronize V9) 0 1) (announce (sync_synchronize V9) 1 0)) (\<lambda>_. 0)) s
     \<and> (loaded (cpus s 0) = [1] \<or> loaded (cpus s 1) = [1])"
proof -
  let ?prog = "two_cpus (announce (sync_synchronize V9) 0 1) (announce (sync_synchronize V9) 1 0)"
  let ?cs = "[Issue 0, Drain 0 0, Issue 0, Issue 0, Issue 1, Drain 1 0, Issue 1, Issue 1]"
  obtain s p q where s: "schedule True ?cs (boot ?prog (\<lambda>_. 0)) = Some s"
    and l: "loaded (cpus s 0) = [p]" "loaded (cpus s 1) = [q]"
    by (simp add: evaluate_run)
  have r: "runs True (boot ?prog (\<lambda>_. 0)) s" using s by (rule schedule_runs)
  have "p = 1 \<or> q = 1"
    by (rule full_barrier_v9 [OF r, of 0 1, OF _ _ _ _ l]) (simp_all add: two_cpus_def)
  with r l show ?thesis by auto
qed

text \<open>
  C10. \<^verbatim>\<open>membar_producer\<close> and \<^verbatim>\<open>membar_consumer\<close> publish data: on a SPARC of either version and in either memory
  model, when one processor stores data and, after the producer's barrier, sets a flag, and another loads the
  flag and, after the consumer's barrier, the data, a consumer that saw the flag set has the data. Loads stay in
  order in both models, so the barrier of the producer is the one that does the work.
\<close>

theorem publication_safe:
  assumes "runs tso (boot prog m) s" and "k \<noteq> Host" "p \<noteq> q" "d \<noteq> f" "m f = 0"
    and "prog p = publish (membar_producer k) d v f" "prog q = consume (membar_consumer k) f d"
    and "\<And>t. t \<noteq> p \<Longrightarrow> only_stores (\<lambda>a v. a \<notin> {d, f}) (prog t)"
    and "loaded (cpus s q) = [1, w]"
  shows "w = v"
proof -
  have "StoreStore \<in> set (orders (membar_producer k))"
    using assms(2) by (cases k) (simp_all add: membar_producer_def sst_store_barrier_def)
  from publication_runs [OF assms(1,6,7) assms(8) assms(3-5) this] show ?thesis
    using assms(9) by (simp add: consumed_def Let_def)
qed

theorem publication_safe_witness:
  "\<exists>s. runs False (boot (publication V8) (\<lambda>_. 0)) s \<and> loaded (cpus s 1) = [1, 7]"
proof -
  obtain s where s: "runs False (boot (publication V8) (\<lambda>_. 0)) s" "stored s = [(0, 0), (0, 2)]" "loaded (cpus s 1) = [1, 7]"
    by (rule publication_run)
  then obtain w where w: "loaded (cpus s 1) = [1, w]" by blast
  have "w = 7"
    by (rule publication_safe [OF s(1), of V8 0 1 0 1, OF _ _ _ _ _ _ _ w])
      (simp_all add: publication_def two_cpus_def consume_def)
  with s(1) w show ?thesis by blast
qed

text \<open>
  C38. Compiled for V7 or V8, where it is \<^verbatim>\<open>stbar\<close>, \<^verbatim>\<open>__sync_synchronize\<close> is not a full barrier: already in
  total store order two processors that each announce themselves with a store and then look for the other after
  the barrier can both miss the other.
\<close>

theorem full_barrier_v8_fails:
  "\<exists>s. runs True (boot (two_cpus (announce (sync_synchronize V8) 0 1) (announce (sync_synchronize V8) 1 0)) (\<lambda>_. 0)) s
     \<and> code (cpus s 0) = [] \<and> code (cpus s 1) = [] \<and> loaded (cpus s 0) = [0] \<and> loaded (cpus s 1) = [0]"
proof -
  let ?prog = "two_cpus (announce (sync_synchronize V8) 0 1) (announce (sync_synchronize V8) 1 0)"
  obtain s where "schedule True [Issue 0, Issue 0, Issue 0, Issue 1, Issue 1, Issue 1] (boot ?prog (\<lambda>_. 0)) = Some s"
    "code (cpus s 0) = []" "code (cpus s 1) = []" "loaded (cpus s 0) = [0]" "loaded (cpus s 1) = [0]"
    by (simp add: evaluate_run)
  then show ?thesis using schedule_runs by blast
qed

end
