(* ===== verification/Stripe_Weak.thy ===== *)
theory Stripe_Weak
  imports Atomic_Ops Barriers
begin

text \<open>
  The operations of \<open>Atomic_Ops\<close> on processors with store buffers, in total and in partial store order: what
  the barrier in \<open>sst_stripe_unlock\<close> of \<open>src/src/atomic_ops.c\<close> is for.

  The bodies of the operations are those of \<open>Atomic_Ops\<close>. A store of a body and the store that unlocks wait in
  the buffer of their processor; loads see the processor's own buffer. A simulation shows that
  every run of this machine is a run of the sequentially consistent one, so that the operations stay linearizable.
\<close>

section \<open>Store buffers\<close>

text \<open>A buffered store of bytes, a buffered store of 0 to a lock byte, and the mark a store barrier leaves.\<close>

datatype item = Bytes u32 "u8 list" | Free nat | Bar

definition span :: "u32 \<Rightarrow> u8 list \<Rightarrow> u32 list" where
  "span a bs = map (\<lambda>i. a + of_nat i) [0..<length bs]"

text \<open>The memory as the processor of the buffer sees it.\<close>

fun view :: "item list \<Rightarrow> memory \<Rightarrow> memory" where
  "view [] m = m"
| "view (Bytes a bs # es) m = view es (st a bs m)"
| "view (Free i # es) m = view es m"
| "view (Bar # es) m = view es m"

text \<open>Which entries an entry may overtake on its way to memory: none in total store order.\<close>

fun independent :: "item \<Rightarrow> item \<Rightarrow> bool" where
  "independent (Bytes a bs) (Bytes b cs) = list_all (\<lambda>x. x \<notin> set (span b cs)) (span a bs)"
| "independent (Free i) (Free j) = (i \<noteq> j)"
| "independent x Bar = False"
| "independent Bar y = False"
| "independent x y = True"

definition may_pass :: "bool \<Rightarrow> item \<Rightarrow> item list \<Rightarrow> bool" where
  "may_pass tso x es = list_all (\<lambda>y. \<not> tso \<and> independent x y) es"

definition bar :: "barrier \<Rightarrow> item list" where
  "bar b = (if StoreStore \<in> set (orders b) then [Bar] else [])"

definition put :: "u32 \<Rightarrow> nat \<Rightarrow> u8 list option \<Rightarrow> item list" where
  "put a k v = (case v of None \<Rightarrow> [] | Some bs \<Rightarrow> [Bytes a (take k bs)])"

section \<open>The machine\<close>

text \<open>\<open>Release\<close> is the point of \<open>sst_stripe_unlock\<close> after the barrier; the other points are those of \<open>Atomic_Ops\<close>.\<close>

datatype wthread = Run thread | Release operation nat "u8 list"

record wsys =
  wmem :: memory
  wlocks :: stripes
  wbuf :: "nat \<Rightarrow> item list"
  wpc :: "nat \<Rightarrow> wthread"
  whist :: "operation list"
  wrets :: "(nat \<times> u64) list"

abbreviation stripe :: "operation \<Rightarrow> nat" where
  "stripe p \<equiv> sst_stripe_for (op_addr p)"

text \<open>
  \<open>ldstub\<close> is a load and a store at once: it goes through the buffer like a store to the lock byte and the
  processor waits for it, so it executes when such a store could reach memory.
\<close>

inductive wstep :: "isa \<Rightarrow> bool \<Rightarrow> (operation \<Rightarrow> bool) \<Rightarrow> wsys \<Rightarrow> wsys \<Rightarrow> bool" for k tso adm where
  wstart: "wpc w t = Run Idle \<Longrightarrow> adm p \<Longrightarrow> op_locked p \<Longrightarrow>
    wstep k tso adm w (w\<lparr>wpc := (wpc w)(t := Run (Want p))\<rparr>)"
| wstart_plain: "wpc w t = Run Idle \<Longrightarrow> adm p \<Longrightarrow> \<not> op_locked p \<Longrightarrow>
    wstep k tso adm w (w\<lparr>wpc := (wpc w)(t := Run (Busy p (length (whist w)) (op_body p) [])), whist := whist w @ [p]\<rparr>)"
| wlock: "wpc w t = Run (Want p) \<Longrightarrow> may_pass tso (Free (stripe p)) (wbuf w t) \<Longrightarrow>
    sst_ldstub (stripe p) (wlocks w) = (0, l) \<Longrightarrow>
    wstep k tso adm w (w\<lparr>wlocks := l, wpc := (wpc w)(t := Run (Busy p (length (whist w)) (op_body p) [])), whist := whist w @ [p]\<rparr>)"
| wcontend: "wpc w t = Run (Want p) \<Longrightarrow> may_pass tso (Free (stripe p)) (wbuf w t) \<Longrightarrow>
    sst_ldstub (stripe p) (wlocks w) = (b, l) \<Longrightarrow> b \<noteq> 0 \<Longrightarrow>
    wstep k tso adm w (w\<lparr>wlocks := l, wpc := (wpc w)(t := Run (Spin p))\<rparr>)"
| wspin: "wpc w t = Run (Spin p) \<Longrightarrow> Free (stripe p) \<notin> set (wbuf w t) \<Longrightarrow> wlocks w (stripe p) \<noteq> 0 \<Longrightarrow> wstep k tso adm w w"
| wretry: "wpc w t = Run (Spin p) \<Longrightarrow> Free (stripe p) \<in> set (wbuf w t) \<or> wlocks w (stripe p) = 0 \<Longrightarrow>
    wstep k tso adm w (w\<lparr>wpc := (wpc w)(t := Run (Want p))\<rparr>)"
| wload: "wpc w t = Run (Busy p n (Ld a c # is) r) \<Longrightarrow>
    wstep k tso adm w (w\<lparr>wpc := (wpc w)(t := Run (Busy p n is (r @ ld a c (view (wbuf w t) (wmem w)))))\<rparr>)"
| wstore: "wpc w t = Run (Busy p n (St a c f # is) r) \<Longrightarrow>
    wstep k tso adm w (w\<lparr>wbuf := (wbuf w)(t := wbuf w t @ put a c (f r)), wpc := (wpc w)(t := Run (Busy p n is r))\<rparr>)"
| wfinish_plain: "wpc w t = Run (Busy p n [] r) \<Longrightarrow> \<not> op_locked p \<Longrightarrow>
    wstep k tso adm w (w\<lparr>wpc := (wpc w)(t := Run Idle), wrets := wrets w @ [(n, op_ret p r)]\<rparr>)"
| wbarrier: "wpc w t = Run (Busy p n [] r) \<Longrightarrow> op_locked p \<Longrightarrow>
    wstep k tso adm w (w\<lparr>wbuf := (wbuf w)(t := wbuf w t @ bar (sst_store_barrier k)), wpc := (wpc w)(t := Release p n r)\<rparr>)"
| wunlock: "wpc w t = Release p n r \<Longrightarrow>
    wstep k tso adm w (w\<lparr>wbuf := (wbuf w)(t := wbuf w t @ [Free (stripe p)]), wpc := (wpc w)(t := Run Idle),
                        wrets := wrets w @ [(n, op_ret p r)]\<rparr>)"
| wdrain: "wbuf w t = es @ Bytes a bs # es' \<Longrightarrow> may_pass tso (Bytes a bs) es \<Longrightarrow>
    wstep k tso adm w (w\<lparr>wmem := st a bs (wmem w), wbuf := (wbuf w)(t := es @ es')\<rparr>)"
| wfree: "wbuf w t = es @ Free i # es' \<Longrightarrow> may_pass tso (Free i) es \<Longrightarrow>
    wstep k tso adm w (w\<lparr>wlocks := sst_stripe_unlock i (wlocks w), wbuf := (wbuf w)(t := es @ es')\<rparr>)"
| wbar: "wbuf w t = Bar # es \<Longrightarrow> wstep k tso adm w (w\<lparr>wbuf := (wbuf w)(t := es)\<rparr>)"

definition wsys_init :: "memory \<Rightarrow> wsys" where
  "wsys_init m = \<lparr>wmem = m, wlocks = (\<lambda>_. 0), wbuf = (\<lambda>_. []), wpc = (\<lambda>_. Run Idle), whist = [], wrets = []\<rparr>"

section \<open>Facts on buffers\<close>

text \<open>Whether a buffer has a store into a stripe, and whether it has an unlocking store before any mark.\<close>

definition writes :: "nat \<Rightarrow> item list \<Rightarrow> bool" where
  "writes i = list_ex (\<lambda>e. case e of Bytes a bs \<Rightarrow> i \<in> sst_stripe_for ` set (span a bs) | _ \<Rightarrow> False)"

fun exposed :: "nat \<Rightarrow> item list \<Rightarrow> bool" where
  "exposed i [] = False"
| "exposed i (Bytes a bs # es) = exposed i es"
| "exposed i (Free j # es) = (i = j \<or> exposed i es)"
| "exposed i (Bar # es) = False"

text \<open>
  A lock is released once, after the stores into its stripe, and in partial store order with a mark between
  them and the release.
\<close>

fun guarded :: "bool \<Rightarrow> item list \<Rightarrow> bool" where
  "guarded tso [] = True"
| "guarded tso (Bytes a bs # es) = ((tso \<or> (\<forall>x \<in> set (span a bs). \<not> exposed (sst_stripe_for x) es)) \<and> guarded tso es)"
| "guarded tso (Free i # es) = (\<not> writes i es \<and> Free i \<notin> set es \<and> guarded tso es)"
| "guarded tso (Bar # es) = guarded tso es"

lemma writes_simps [simp]:
  "\<not> writes i []"
  "writes i (es @ es') \<longleftrightarrow> writes i es \<or> writes i es'"
  "writes i (Bytes a bs # es) \<longleftrightarrow> i \<in> sst_stripe_for ` set (span a bs) \<or> writes i es"
  "writes i (Free j # es) \<longleftrightarrow> writes i es"
  "writes i (Bar # es) \<longleftrightarrow> writes i es"
  by (simp_all add: writes_def)

lemma may_pass_simps [simp]:
  "may_pass tso x []"
  "may_pass tso x (e # es) \<longleftrightarrow> \<not> tso \<and> independent x e \<and> may_pass tso x es"
  by (simp_all add: may_pass_def)

lemma st_span: "x \<notin> set (span a bs) \<Longrightarrow> st a bs m x = m x"
  by (rule st_outside) (auto simp: span_def)

lemma view_append: "view (es @ es') m = view es' (view es m)"
  by (induction es m rule: view.induct) simp_all

lemma view_cong: "m x = m' x \<Longrightarrow> view es m x = view es m' x"
proof (induction es arbitrary: m m')
  case (Cons e es)
  show ?case
  proof (cases e)
    case (Bytes a bs)
    have "st a bs m x = st a bs m' x" using Cons.prems by (rule st_cong)
    then have "view es (st a bs m) x = view es (st a bs m') x" by (rule Cons.IH)
    then show ?thesis by (simp add: Bytes)
  qed (simp_all, (rule Cons.IH, rule Cons.prems)+)
qed simp

lemma view_not_written: "\<not> writes (sst_stripe_for x) es \<Longrightarrow> view es m x = m x"
proof (induction es m rule: view.induct)
  case (2 a bs es m)
  then have "x \<notin> set (span a bs)" by auto
  with 2 show ?case by (simp add: st_span)
qed simp_all

text \<open>A store that reaches memory leaves its processor's view as it was.\<close>

lemma view_st_front: "may_pass tso (Bytes a bs) es \<Longrightarrow> view es (st a bs m) x = st a bs (view es m) x"
proof (induction es arbitrary: m)
  case (Cons e es)
  show ?case
  proof (cases e)
    case (Bytes b cs)
    have disj: "y \<notin> set (span b cs)" if "y \<in> set (span a bs)" for y
      using Cons.prems that by (auto simp: Bytes list_all_iff)
    have "st b cs (st a bs m) x = st a bs (st b cs m) x"
    proof (cases "x \<in> set (span a bs)")
      case True
      then have "st b cs (st a bs m) x = st a bs m x" using disj by (intro st_span) blast
      also have "\<dots> = st a bs (st b cs m) x" using disj [OF True] by (intro st_cong) (simp add: st_span)
      finally show ?thesis .
    next
      case False
      then show ?thesis by (simp add: st_span) (rule st_cong, simp add: st_span False)
    qed
    then have "view es (st b cs (st a bs m)) x = view es (st a bs (st b cs m)) x" by (rule view_cong)
    also have "\<dots> = st a bs (view es (st b cs m)) x" by (rule Cons.IH) (use Cons.prems in auto)
    finally show ?thesis by (simp add: Bytes)
  qed (use Cons in auto)
qed simp

lemma view_drain:
  assumes "may_pass tso (Bytes a bs) es"
  shows "view (es @ es') (st a bs m) x = view (es @ Bytes a bs # es') m x"
proof -
  have "view es' (view es (st a bs m)) x = view es' (st a bs (view es m)) x"
    by (rule view_cong, rule view_st_front [OF assms])
  then show ?thesis by (simp add: view_append)
qed

lemma may_pass_no_bar: "may_pass tso x es \<Longrightarrow> Bar \<notin> set es"
  by (cases x) (auto simp: may_pass_def list_all_iff)

lemma exposed_remove: "exposed i (es @ es') \<Longrightarrow> x \<noteq> Bar \<Longrightarrow> exposed i (es @ x # es')"
proof (induction i es rule: exposed.induct)
  case (1 i)
  then show ?case by (cases x) simp_all
qed auto

lemma exposed_no_bar: "Bar \<notin> set es \<Longrightarrow> exposed i (es @ Free i # es')"
  by (induction i es rule: exposed.induct) simp_all

lemma exposed_snoc_bar [simp]: "exposed i (es @ [Bar]) \<longleftrightarrow> exposed i es"
  by (induction i es rule: exposed.induct) simp_all

lemma exposed_subset: "exposed i es \<Longrightarrow> Free i \<in> set es"
  by (induction i es rule: exposed.induct) auto

lemma guarded_remove: "guarded tso (es @ x # es') \<Longrightarrow> x \<noteq> Bar \<Longrightarrow> guarded tso (es @ es')"
proof (induction tso es rule: guarded.induct)
  case (1 tso)
  then show ?case by (cases x) simp_all
next
  case (2 tso a bs es)
  then show ?case using exposed_remove by auto
next
  case (3 tso i es)
  have "\<not> writes i es'" using 3(2) writes_simps(2) [of i "[x]" es'] by simp
  with 3 show ?case by simp
qed simp_all

lemma guarded_free:
  assumes "guarded tso (es @ Free i # es')" and "may_pass tso (Free i) es"
  shows "\<not> writes i (es @ es')" "Free i \<notin> set (es @ es')"
proof -
  have "\<not> writes i es' \<and> Free i \<notin> set es'" using assms(1) by (induction tso es rule: guarded.induct) simp_all
  moreover have "\<not> writes i es \<and> Free i \<notin> set es"
    using assms exposed_no_bar may_pass_no_bar [OF assms(2)]
    by (induction tso es rule: guarded.induct) (auto dest: exposed_no_bar)
  ultimately show "\<not> writes i (es @ es')" "Free i \<notin> set (es @ es')" by simp_all
qed

section \<open>The simulation\<close>

text \<open>
  The thread of the sequentially consistent machine: a thread that spins there still wants the lock, and one that
  releases has not left its body. The stripe a thread is in, and the store it is about to make.
\<close>

fun shadow :: "wthread \<Rightarrow> thread" where
  "shadow (Run (Spin p)) = Want p"
| "shadow (Run th) = th"
| "shadow (Release p n r) = Busy p n [] r"

fun busy :: "wthread \<Rightarrow> nat option" where
  "busy (Run (Busy p n is r)) = Some (stripe p)"
| "busy (Release p n r) = Some (stripe p)"
| "busy _ = None"

fun final :: "wthread \<Rightarrow> item list" where
  "final (Release p n r) = [Free (stripe p)]"
| "final _ = []"

text \<open>A stripe belongs to a thread until the store that unlocks has reached memory.\<close>

definition own :: "wthread \<Rightarrow> item list \<Rightarrow> nat \<Rightarrow> bool" where
  "own q es i \<longleftrightarrow> busy q = Some i \<or> Free i \<in> set es"

abbreviation owner :: "wsys \<Rightarrow> nat \<Rightarrow> nat \<Rightarrow> bool" where
  "owner w t \<equiv> own (wpc w t) (wbuf w t)"

definition tidy :: "bool \<Rightarrow> wsys \<Rightarrow> bool" where
  "tidy tso w \<longleftrightarrow> (\<forall>t. guarded tso (wbuf w t @ final (wpc w t)))
     \<and> (\<forall>t u i. owner w t i \<longrightarrow> owner w u i \<longrightarrow> t = u)
     \<and> (\<forall>t i. busy (wpc w t) = Some i \<longrightarrow> Free i \<notin> set (wbuf w t))
     \<and> (\<forall>t i. writes i (wbuf w t) \<longrightarrow> owner w t i)
     \<and> (\<forall>i. wlocks w i \<noteq> 0 \<longleftrightarrow> (\<exists>t. owner w t i))"

text \<open>The memory is what the owner of a stripe sees; of a stripe without owner, what everyone sees.\<close>

definition refines :: "wsys \<Rightarrow> sys \<Rightarrow> bool" where
  "refines w s \<longleftrightarrow> pc s = shadow \<circ> wpc w \<and> hist s = whist w \<and> rets s = wrets w
     \<and> (\<forall>t x. (\<forall>u. owner w u (sst_stripe_for x) \<longrightarrow> u = t) \<longrightarrow> view (wbuf w t) (wmem w) x = mem s x)"

lemma tidyD:
  assumes "tidy tso w"
  shows "guarded tso (wbuf w t @ final (wpc w t))" "owner w t i \<Longrightarrow> owner w u i \<Longrightarrow> t = u"
    "busy (wpc w t) = Some i \<Longrightarrow> Free i \<notin> set (wbuf w t)" "writes i (wbuf w t) \<Longrightarrow> owner w t i"
    "wlocks w i \<noteq> 0 \<longleftrightarrow> (\<exists>t. owner w t i)"
  using assms unfolding tidy_def by blast+

lemma owner_locked: "tidy tso w \<Longrightarrow> owner w t i \<Longrightarrow> wlocks w i \<noteq> 0"
  unfolding tidy_def by blast

text \<open>A step of one thread: what it has to keep.\<close>

lemma tidy_upd:
  assumes "tidy tso w" and upd: "wbuf w' = (wbuf w)(t := es)" "wpc w' = (wpc w)(t := q)"
    and "guarded tso (es @ final q)" "\<And>i. busy q = Some i \<Longrightarrow> Free i \<notin> set es" "\<And>i. writes i es \<Longrightarrow> own q es i"
    and new: "\<And>i. own q es i \<Longrightarrow> owner w t i \<or> wlocks w i = 0"
    and locks: "\<And>i. wlocks w' i \<noteq> 0 \<longleftrightarrow> own q es i \<or> \<not> owner w t i \<and> wlocks w i \<noteq> 0"
  shows "tidy tso w'"
proof -
  note td = tidyD [OF assms(1)]
  have o: "owner w' u i \<longleftrightarrow> (if u = t then own q es i else owner w u i)" for u i by (simp add: upd)
  have excl: "\<not> owner w u i" if "own q es i" "u \<noteq> t" for u i using new [OF that(1)] td(2,5) that(2) by blast
  have "guarded tso (wbuf w' u @ final (wpc w' u))" "busy (wpc w' u) = Some i \<Longrightarrow> Free i \<notin> set (wbuf w' u)"
    "writes i (wbuf w' u) \<Longrightarrow> owner w' u i" for u i
    using assms(4-6) td(1,3,4) by (cases "u = t"; simp add: upd)+
  moreover have "u = v" if "owner w' u i" "owner w' v i" for u v i
    using that [unfolded o] excl td(2) by metis
  moreover have "wlocks w' i \<noteq> 0 \<longleftrightarrow> (\<exists>u. owner w' u i)" for i
  proof (cases "own q es i")
    case False
    then have "(\<exists>u. owner w' u i) \<longleftrightarrow> (\<exists>u. u \<noteq> t \<and> owner w u i)" by (auto simp: o)
    also have "\<dots> \<longleftrightarrow> \<not> owner w t i \<and> wlocks w i \<noteq> 0" using td(2,5) by metis
    finally show ?thesis using False locks by simp
  qed (use locks o in auto)
  ultimately show ?thesis unfolding tidy_def by blast
qed

lemma refines_upd:
  assumes "tidy tso w" and "refines w s" and upd: "wbuf w' = (wbuf w)(t := es)" "wpc w' = (wpc w)(t := q)"
    and s': "pc s' = (pc s)(t := shadow q)" "hist s' = whist w'" "rets s' = wrets w'"
    and view: "\<And>x. view (wbuf w t) (wmem w) x = mem s x \<Longrightarrow> view es (wmem w') x = mem s' x"
    and frame: "\<And>x. \<not> own q es (sst_stripe_for x) \<Longrightarrow> \<not> owner w t (sst_stripe_for x) \<Longrightarrow> wmem w' x = wmem w x \<and> mem s' x = mem s x"
    and freed: "\<And>x. \<not> own q es (sst_stripe_for x) \<Longrightarrow> owner w t (sst_stripe_for x) \<Longrightarrow> view (wbuf w t) (wmem w) x = mem s x \<Longrightarrow> wmem w' x = mem s' x"
  shows "refines w' s'"
proof -
  note td = tidyD [OF assms(1)]
  have ref: "view (wbuf w u) (wmem w) x = mem s x" if "\<And>v. owner w v (sst_stripe_for x) \<Longrightarrow> v = u" for u x
    using assms(2) that unfolding refines_def by blast
  have "view (wbuf w' u) (wmem w') x = mem s' x" if ow: "\<And>v. owner w' v (sst_stripe_for x) \<Longrightarrow> v = u" for u x
  proof (cases "u = t")
    case True
    have "v = t" if "owner w v (sst_stripe_for x)" for v using ow [of v] that True by (cases "v = t") (simp_all add: upd)
    then have "view (wbuf w t) (wmem w) x = mem s x" by (rule ref)
    then show ?thesis using view True by (simp add: upd)
  next
    case False
    then have nt: "\<not> own q es (sst_stripe_for x)" using ow [of t] by (auto simp: upd)
    show ?thesis
    proof (cases "owner w t (sst_stripe_for x)")
      case True
      then have "\<not> writes (sst_stripe_for x) (wbuf w u)" using td(2,4) False by blast
      moreover have "wmem w' x = mem s' x" by (rule freed [OF nt True ref]) (use td(2) True in blast)
      ultimately show ?thesis using False by (simp add: upd view_not_written)
    next
      case nw: False
      have "v = u" if "owner w v (sst_stripe_for x)" for v using ow [of v] that nw by (cases "v = t") (simp_all add: upd)
      then have "view (wbuf w u) (wmem w) x = mem s x" by (rule ref)
      moreover have "wmem w' x = wmem w x" "mem s' x = mem s x" using frame [OF nt nw] by simp_all
      ultimately show ?thesis using False view_cong [of "wmem w'" x "wmem w" "wbuf w u"] by (simp add: upd)
    qed
  qed
  moreover have "pc s' = shadow \<circ> wpc w'" using assms(2) s'(1) by (auto simp: refines_def upd fun_eq_iff)
  ultimately show ?thesis using s' by (simp add: refines_def)
qed

lemma exposed_snoc [simp]: "exposed i (es @ [Bytes a bs]) \<longleftrightarrow> exposed i es" "exposed i (es @ Bar # es') \<longleftrightarrow> exposed i es"
  by (induction i es rule: exposed.induct) simp_all

lemma guarded_bytes:
  "guarded tso es \<Longrightarrow> (\<And>x. x \<in> set (span a bs) \<Longrightarrow> Free (sst_stripe_for x) \<notin> set es) \<Longrightarrow> guarded tso (es @ [Bytes a bs])"
  by (induction tso es rule: guarded.induct) auto

lemma guarded_release:
  "guarded tso es \<Longrightarrow> Free i \<notin> set es \<Longrightarrow> tso \<or> StoreStore \<in> set (orders b) \<Longrightarrow> guarded tso (es @ bar b @ [Free i])"
  by (induction tso es rule: guarded.induct) (auto simp: bar_def)

lemma view_bar [simp]: "view (es @ bar b) m = view es m" "view (es @ [Free i]) m = view es m"
  by (simp_all add: view_append bar_def)

lemma bar_simps [simp]: "Free i \<notin> set (bar b)" "\<not> writes i (bar b)"
  by (simp_all add: bar_def)

lemma busy_final: "busy q = None \<Longrightarrow> final q = []"
  by (cases q) simp_all

lemma bar_store_barrier: "k \<noteq> Host \<Longrightarrow> StoreStore \<in> set (orders (sst_store_barrier k))"
  by (cases k) (simp_all add: sst_store_barrier_def)

lemma holds_busy: "refines w s \<Longrightarrow> holds s t i \<longleftrightarrow> busy (wpc w t) = Some i"
  by (cases "wpc w t" rule: busy.cases) (auto simp: refines_def holds_def)

lemma span_take: "set (span a (take c bs)) \<subseteq> set (foot (St a c f))"
  by (auto simp: span_def)

text \<open>Steps that leave the memory, and what their thread sees of it, as they were.\<close>

lemma refines_quiet:
  assumes "tidy tso w" and "refines w s" and "wbuf w' = (wbuf w)(t := es)" "wpc w' = (wpc w)(t := q)"
    and "pc s' = (pc s)(t := shadow q)" "hist s' = whist w'" "rets s' = wrets w'"
    and "wmem w' = wmem w" "mem s' = mem s" "view es (wmem w) = view (wbuf w t) (wmem w)"
    and "\<And>i. owner w t i \<Longrightarrow> own q es i"
  shows "refines w' s'"
  by (rule refines_upd [OF assms(1-7)]) (use assms(8-11) in auto)

lemma wait_step:
  assumes "tidy tso w" and "busy (wpc w t) = None" "busy q = None" and "wbuf w' = wbuf w" "wpc w' = (wpc w)(t := q)"
    and "\<And>i. wlocks w' i \<noteq> 0 \<longleftrightarrow> wlocks w i \<noteq> 0"
  shows "tidy tso w'"
proof -
  note td = tidyD [OF assms(1)]
  have o: "own q (wbuf w t) = owner w t" by (simp add: own_def assms(2,3) fun_eq_iff)
  show ?thesis
    by (rule tidy_upd [OF assms(1), of w' t "wbuf w t" q])
      (use td(1) [of t] td(4) [of _ t] td(5) assms(2-6) o busy_final in \<open>auto\<close>)
qed

lemma lock_step:
  assumes "tidy tso w" and "busy (wpc w t) = None" and "wlocks w (stripe p) = 0"
    and "wbuf w' = wbuf w" "wpc w' = (wpc w)(t := Run (Busy p n is r))" "wlocks w' = (wlocks w)(stripe p := 0xFF)"
  shows "tidy tso w'"
proof -
  note td = tidyD [OF assms(1)]
  have "\<not> owner w u (stripe p)" for u using assms(3) td(5) by blast
  then have f: "Free (stripe p) \<notin> set (wbuf w t)" by (simp add: own_def)
  have o: "own (Run (Busy p n is r)) (wbuf w t) i \<longleftrightarrow> i = stripe p \<or> owner w t i" for i
    using assms(2) by (auto simp: own_def)
  show ?thesis
    by (rule tidy_upd [OF assms(1), of w' t "wbuf w t" "Run (Busy p n is r)"])
      (use td(1) [of t] td(4) [of _ t] td(5) assms(2-6) o f busy_final in \<open>auto\<close>)
qed

text \<open>Steps between \<open>ldstub\<close> and the end of the operation: the thread keeps its stripe and adds to its buffer.\<close>

lemma body_step:
  assumes "tidy tso w" and "busy (wpc w t) = Some i" "busy q = Some i"
    and "wbuf w' = (wbuf w)(t := wbuf w t @ new)" "wpc w' = (wpc w)(t := q)" "wlocks w' = wlocks w"
    and "guarded tso (wbuf w t @ new @ final q)" and "\<And>j. Free j \<notin> set new" "\<And>j. writes j new \<Longrightarrow> j = i"
  shows "tidy tso w'"
proof -
  note td = tidyD [OF assms(1)]
  have o: "own q (wbuf w t @ new) = owner w t" using assms(2,3,8) by (simp add: own_def fun_eq_iff)
  show ?thesis
    by (rule tidy_upd [OF assms(1,4,5)])
      (use td(3) [of t] td(4) [of _ t] td(5) assms(2,3,6-9) o in \<open>auto simp: own_def\<close>)
qed

lemma unlock_step:
  assumes "tidy tso w" and "wpc w t = Release p n r"
    and "wbuf w' = (wbuf w)(t := wbuf w t @ [Free (stripe p)])" "wpc w' = (wpc w)(t := Run Idle)" "wlocks w' = wlocks w"
  shows "tidy tso w'"
proof -
  note td = tidyD [OF assms(1)]
  have o: "own (Run Idle) (wbuf w t @ [Free (stripe p)]) = owner w t" using assms(2) by (auto simp: own_def fun_eq_iff)
  show ?thesis
    by (rule tidy_upd [OF assms(1,3,4)]) (use td(1,3) [of t] td(4) [of _ t] owner_locked [OF assms(1), of t] assms(2,5) o in \<open>auto\<close>)
qed

text \<open>Steps of a buffer.\<close>

lemma drain_step:
  assumes "tidy tso w" and "wbuf w t = es @ Bytes a bs # es'" and "wbuf w' = (wbuf w)(t := es @ es')"
    and "wpc w' = wpc w" "wlocks w' = wlocks w"
  shows "tidy tso w'"
proof -
  note td = tidyD [OF assms(1)]
  have o: "own (wpc w t) (es @ es') = owner w t" using assms(2) by (auto simp: own_def fun_eq_iff)
  have g: "guarded tso (es @ es' @ final (wpc w t))" using td(1) [of t] assms(2) guarded_remove [of tso es "Bytes a bs"] by simp
  show ?thesis
    by (rule tidy_upd [OF assms(1,3), of "wpc w t"])
      (use g td(3) [of t] td(4) [of _ t] owner_locked [OF assms(1), of t] assms(2,4,5) o in \<open>auto\<close>)
qed

lemma bar_step:
  assumes "tidy tso w" and "wbuf w t = Bar # es" and "wbuf w' = (wbuf w)(t := es)"
    and "wpc w' = wpc w" "wlocks w' = wlocks w"
  shows "tidy tso w'"
proof -
  note td = tidyD [OF assms(1)]
  have o: "own (wpc w t) es = owner w t" using assms(2) by (auto simp: own_def fun_eq_iff)
  show ?thesis
    by (rule tidy_upd [OF assms(1,3), of "wpc w t"])
      (use td(1,3) [of t] td(4) [of _ t] owner_locked [OF assms(1), of t] assms(2,4,5) o in \<open>auto\<close>)
qed

text \<open>The store that unlocks reaches memory: by then the stores into the stripe have.\<close>

lemma free_facts:
  assumes "tidy tso w" and "wbuf w t = es @ Free i # es'" and "may_pass tso (Free i) es"
  shows "\<not> writes i (es @ es')" "Free i \<notin> set (es @ es')" "busy (wpc w t) \<noteq> Some i"
    "own (wpc w t) (es @ es') j \<longleftrightarrow> j \<noteq> i \<and> owner w t j"
proof -
  note td = tidyD [OF assms(1)]
  have g: "guarded tso (es @ Free i # es' @ final (wpc w t))" using td(1) [of t] assms(2) by simp
  note gf = guarded_free [OF g assms(3)]
  show w: "\<not> writes i (es @ es')" and f: "Free i \<notin> set (es @ es')" using gf by simp_all
  show b: "busy (wpc w t) \<noteq> Some i" using td(3) [of t i] assms(2) by auto
  show "own (wpc w t) (es @ es') j \<longleftrightarrow> j \<noteq> i \<and> owner w t j" using f b assms(2) by (auto simp: own_def)
qed

lemma free_step:
  assumes "tidy tso w" and "wbuf w t = es @ Free i # es'" and "may_pass tso (Free i) es"
    and "wbuf w' = (wbuf w)(t := es @ es')" "wpc w' = wpc w" "wlocks w' = sst_stripe_unlock i (wlocks w)"
  shows "tidy tso w'"
proof -
  note td = tidyD [OF assms(1)] and ff = free_facts [OF assms(1-3)]
  have g: "guarded tso (es @ es' @ final (wpc w t))" using td(1) [of t] assms(2) guarded_remove [of tso es "Free i"] by simp
  have i: "owner w t i" using assms(2) by (simp add: own_def)
  show ?thesis
    by (rule tidy_upd [OF assms(1,4), of "wpc w t"])
      (use g i ff td(3) [of t] td(4) [of _ t] owner_locked [OF assms(1), of t] assms(2,5,6) in \<open>auto simp: sst_stripe_unlock_def\<close>)
qed

text \<open>One lemma per step on the machine without buffers: an equal step, or none.\<close>

lemma body_ok:
  assumes "refines w s" and "simulates m0 s" and "wpc w t = Run (Busy p n is r)"
  shows "striped p" "in_stripe (stripe p) is" "op_locked p" "pc s t = Busy p n is r"
proof -
  have pc: "pc s t = Busy p n is r" using assms(1,3) by (simp add: refines_def)
  obtain am vs where "thread_ok am vs (hist s) (mem s) (pc s t)" using assms(2) unfolding simulates_def by blast
  then have "thread_ok am vs (hist s) (mem s) (Busy p n is r)" by (simp add: pc)
  from thread_okD [OF this refl] show "striped p" "in_stripe (stripe p) is" "op_locked p" by (simp_all add: striped_def)
  show "pc s t = Busy p n is r" by (rule pc)
qed

lemma owner_view:
  assumes "tidy tso w" and "refines w s" and "owner w t (sst_stripe_for x)"
  shows "view (wbuf w t) (wmem w) x = mem s x"
  using assms tidyD(2) [OF assms(1)] unfolding refines_def by blast

lemma refines_load:
  assumes "tidy tso w" and "refines w s" and "simulates m0 s" and pc: "wpc w t = Run (Busy p n (Ld a c # is) r)"
    and w': "w' = w\<lparr>wpc := (wpc w)(t := Run (Busy p n is (r @ ld a c (view (wbuf w t) (wmem w)))))\<rparr>"
  shows "\<exists>s'. step striped s s' \<and> refines w' s'"
proof (intro exI conjI)
  note ok = body_ok [OF assms(2,3) pc]
  have "view (wbuf w t) (wmem w) (a + of_nat j) = mem s (a + of_nat j)" if "j < c" for j
    by (rule owner_view [OF assms(1,2)]) (use ok(2) pc that in \<open>simp add: own_def list_all_iff\<close>)
  then have l: "ld a c (view (wbuf w t) (wmem w)) = ld a c (mem s)" by (simp add: ld_def)
  let ?s = "s\<lparr>mem := mem s, pc := (pc s)(t := Busy p n is (r @ ld a c (mem s)))\<rparr>"
  show "step striped s ?s" by (rule step.access [OF ok(4)]) simp
  show "refines w' ?s"
    by (rule refines_quiet [OF assms(1,2), of _ t "wbuf w t" "Run (Busy p n is (r @ ld a c (mem s)))"])
      (use assms(2) pc in \<open>simp_all add: w' l refines_def own_def\<close>)
qed

lemma refines_store:
  assumes "tidy tso w" and "refines w s" and "simulates m0 s" and pc: "wpc w t = Run (Busy p n (St a c f # is) r)"
    and w': "w' = w\<lparr>wbuf := (wbuf w)(t := wbuf w t @ put a c (f r)), wpc := (wpc w)(t := Run (Busy p n is r))\<rparr>"
  shows "\<exists>s'. step striped s s' \<and> refines w' s'"
proof (intro exI conjI)
  note ok = body_ok [OF assms(2,3) pc]
  let ?m = "case f r of None \<Rightarrow> mem s | Some bs \<Rightarrow> st a (take c bs) (mem s)"
  let ?s = "s\<lparr>mem := ?m, pc := (pc s)(t := Busy p n is r)\<rparr>"
  let ?q = "Run (Busy p n is r)" and ?es = "wbuf w t @ put a c (f r)"
  show "step striped s ?s" by (rule step.access [OF ok(4)]) (simp split: option.split)
  have o: "own ?q ?es = owner w t" using pc by (simp add: own_def put_def fun_eq_iff split: option.split)
  have v: "view ?es (wmem w) x = ?m x" if "view (wbuf w t) (wmem w) x = mem s x" for x
    using that by (auto simp: view_append put_def split: option.split intro: st_cong)
  have m: "?m x = mem s x" if "\<not> owner w t (sst_stripe_for x)" for x
  proof -
    have "sst_stripe_for x \<noteq> stripe p" using that pc by (auto simp: own_def)
    then have "x \<notin> set (foot (St a c f))" using ok(2) by (auto simp: list_all_iff)
    then have "x \<notin> set (span a (take c bs))" for bs using span_take by blast
    then show ?thesis by (simp add: st_span split: option.split)
  qed
  show "refines w' ?s"
    by (rule refines_upd [OF assms(1,2), of _ t ?es ?q]) (use assms(2) in \<open>simp_all add: w' refines_def o v m\<close>)
qed

lemma refines_drain:
  assumes "tidy tso w" and "refines w s" and "wbuf w t = es @ Bytes a bs # es'" and "may_pass tso (Bytes a bs) es"
    and w': "w' = w\<lparr>wmem := st a bs (wmem w), wbuf := (wbuf w)(t := es @ es')\<rparr>"
  shows "refines w' s"
proof -
  have o: "own (wpc w t) (es @ es') = owner w t" using assms(3) by (auto simp: own_def fun_eq_iff)
  have v: "view (es @ es') (st a bs (wmem w)) x = view (wbuf w t) (wmem w) x" for x
    by (simp add: assms(3) view_drain [OF assms(4)])
  have m: "st a bs (wmem w) x = wmem w x" if "\<not> owner w t (sst_stripe_for x)" for x
    by (rule st_span) (use that tidyD(4) [OF assms(1), of _ t] assms(3) in auto)
  show ?thesis
    by (rule refines_upd [OF assms(1,2), of _ t "es @ es'" "wpc w t"])
      (use assms(2) in \<open>simp_all add: w' refines_def o v m fun_eq_iff\<close>)
qed

lemma refines_free:
  assumes "tidy tso w" and "refines w s" and "wbuf w t = es @ Free i # es'" and "may_pass tso (Free i) es"
    and w': "w' = w\<lparr>wlocks := l, wbuf := (wbuf w)(t := es @ es')\<rparr>"
  shows "refines w' s"
proof -
  note ff = free_facts [OF assms(1,3,4)]
  have v: "view (wbuf w t) m = view (es @ es') m" for m by (simp add: assms(3) view_append)
  have f: "wmem w x = mem s x" if "view (es @ es') (wmem w) x = mem s x" "sst_stripe_for x = i" for x
    using that view_not_written [of x "es @ es'"] ff(1) by simp
  show ?thesis
    by (rule refines_upd [OF assms(1,2), of _ t "es @ es'" "wpc w t"])
      (use assms(2) ff(4) f in \<open>auto simp: w' refines_def v\<close>)
qed

lemma wstep_tidy:
  assumes "wstep k tso striped w w'" and "tso \<or> k \<noteq> Host" and "tidy tso w" and "refines w s" and "simulates m0 s"
  shows "tidy tso w'"
  using assms(1)
proof cases
  case (wstart t p)
  then show ?thesis by (intro wait_step [OF assms(3)]) auto
next
  case (wstart_plain t p)
  then show ?thesis by (simp add: striped_def)
next
  case (wlock t p l)
  then show ?thesis by (intro lock_step [OF assms(3)]) (auto simp: sst_ldstub_def)
next
  case (wcontend t p b l)
  then show ?thesis by (intro wait_step [OF assms(3)]) (auto simp: sst_ldstub_def split: if_splits)
next
  case (wspin t p)
  then show ?thesis using assms(3) by simp
next
  case (wretry t p)
  then show ?thesis by (intro wait_step [OF assms(3)]) auto
next
  case (wload t p n a c "is" r)
  show ?thesis
    by (rule body_step [OF assms(3), of t "stripe p" "Run (Busy p n is (r @ ld a c (view (wbuf w t) (wmem w))))" _ "[]"])
      (use wload tidyD(1) [OF assms(3), of t] in simp_all)
next
  case (wstore t p n a c f "is" r)
  have p: "x \<in> set (span a (take c bs)) \<Longrightarrow> sst_stripe_for x = stripe p" for bs x
    using body_ok(2) [OF assms(4,5) wstore(2)] span_take [of a c bs f] by (auto simp: list_all_iff)
  then have "writes j (put a c (f r)) \<Longrightarrow> j = stripe p" for j by (auto simp: put_def split: option.splits)
  moreover have "guarded tso (wbuf w t @ put a c (f r))"
    using p guarded_bytes tidyD(1,3) [OF assms(3), of t] wstore(2) by (auto simp: put_def split: option.split)
  ultimately show ?thesis
    by (intro body_step [OF assms(3), of t "stripe p" "Run (Busy p n is r)" _ "put a c (f r)"])
      (use wstore in \<open>simp_all add: put_def split: option.split\<close>)
next
  case (wfinish_plain t p n r)
  then show ?thesis using body_ok(3) [OF assms(4,5), of t] by auto
next
  case (wbarrier t p n r)
  have "guarded tso (wbuf w t @ bar (sst_store_barrier k) @ [Free (stripe p)])"
    by (rule guarded_release)
      (use assms(2) bar_store_barrier tidyD(1,3) [OF assms(3), of t] wbarrier(2) in auto)
  then show ?thesis
    by (intro body_step [OF assms(3), of t "stripe p" "Release p n r" _ "bar (sst_store_barrier k)"]) (use wbarrier in simp_all)
next
  case (wunlock t p n r)
  then show ?thesis by (intro unlock_step [OF assms(3)]) auto
next
  case (wdrain t es a bs es')
  then show ?thesis by (intro drain_step [OF assms(3)]) auto
next
  case (wfree t es i es')
  then show ?thesis by (intro free_step [OF assms(3) wfree(2,3)]) auto
next
  case (wbar t es)
  then show ?thesis by (intro bar_step [OF assms(3)]) auto
qed

lemma refines_lock:
  assumes "tidy tso w" and "refines w s" and "mutex s" and "wpc w t = Run (Want p)" and "wlocks w (stripe p) = 0"
    and w': "w' = w\<lparr>wlocks := l, wpc := (wpc w)(t := Run (Busy p (length (whist w)) (op_body p) [])), whist := whist w @ [p]\<rparr>"
  shows "\<exists>s'. step striped s s' \<and> refines w' s'"
proof (intro exI conjI)
  let ?b = "Busy p (length (hist s)) (op_body p) []"
  let ?s = "s\<lparr>locks := (locks s)(stripe p := 0xFF), pc := (pc s)(t := ?b), hist := hist s @ [p]\<rparr>"
  have "\<not> holds s u (stripe p)" for u
    using assms(1,5) holds_busy [OF assms(2), of u] owner_locked [of tso w u "stripe p"] by (auto simp: own_def)
  then have "locks s (stripe p) = 0" using assms(3) unfolding mutex_def by blast
  moreover have "pc s t = Want p" using assms(2,4) by (simp add: refines_def)
  ultimately show "step striped s ?s" by (intro step.lock) (simp_all add: sst_ldstub_def)
  show "refines w' ?s"
    by (rule refines_quiet [OF assms(1,2), of _ t "wbuf w t" "Run ?b"])
      (use assms(2,4) in \<open>simp_all add: w' refines_def own_def\<close>)
qed

text \<open>Steps without a counterpart: waiting for the lock, and the barrier.\<close>

lemma refines_stutter:
  assumes "tidy tso w" and "refines w s" and "wbuf w' = (wbuf w)(t := wbuf w t @ new)" "wpc w' = (wpc w)(t := q)"
    and "shadow q = shadow (wpc w t)" "busy q = busy (wpc w t)" "view (wbuf w t @ new) (wmem w) = view (wbuf w t) (wmem w)"
    and "wmem w' = wmem w" "whist w' = whist w" "wrets w' = wrets w"
  shows "refines w' s"
  by (rule refines_quiet [OF assms(1-4)]) (use assms(2,5-10) in \<open>auto simp: refines_def own_def fun_eq_iff\<close>)

lemma wstep_refines:
  assumes "wstep k tso striped w w'" and "tidy tso w" and "refines w s" and "simulates m0 s" and "mutex s"
  shows "\<exists>s'. (step striped)\<^sup>=\<^sup>= s s' \<and> refines w' s'"
  using assms(1)
proof cases
  case (wstart t p)
  let ?s = "s\<lparr>pc := (pc s)(t := Want p)\<rparr>"
  have "step striped s ?s" using wstart assms(3) by (intro step.start) (simp_all add: refines_def)
  moreover have "refines w' ?s"
    by (rule refines_quiet [OF assms(2,3), of _ t "wbuf w t" "Run (Want p)"])
      (use assms(3) wstart in \<open>simp_all add: refines_def own_def\<close>)
  ultimately show ?thesis by blast
next
  case (wstart_plain t p)
  then show ?thesis by (simp add: striped_def)
next
  case (wlock t p l)
  then show ?thesis using refines_lock [OF assms(2,3,5) wlock(2)] by (auto simp: sst_ldstub_def)
next
  case (wcontend t p b l)
  then have "refines w' s" by (intro refines_stutter [OF assms(2,3), of _ t "[]" "Run (Spin p)"]) simp_all
  then show ?thesis by blast
next
  case (wspin t p)
  then show ?thesis using assms(3) by blast
next
  case (wretry t p)
  then have "refines w' s" by (intro refines_stutter [OF assms(2,3), of _ t "[]" "Run (Want p)"]) simp_all
  then show ?thesis by blast
next
  case (wload t p n a c "is" r)
  then show ?thesis using refines_load [OF assms(2-4)] by blast
next
  case (wstore t p n a c f "is" r)
  then show ?thesis using refines_store [OF assms(2-4)] by blast
next
  case (wfinish_plain t p n r)
  then show ?thesis using body_ok(3) [OF assms(3,4), of t] by auto
next
  case (wbarrier t p n r)
  then have "refines w' s"
    by (intro refines_stutter [OF assms(2,3), of _ t "bar (sst_store_barrier k)" "Release p n r"]) simp_all
  then show ?thesis by blast
next
  case (wunlock t p n r)
  let ?s = "s\<lparr>locks := sst_stripe_unlock (stripe p) (locks s), pc := (pc s)(t := Idle), rets := rets s @ [(n, op_ret p r)]\<rparr>"
  have pc: "pc s t = Busy p n [] r" using wunlock assms(3) by (simp add: refines_def)
  then have "step striped s ?s"
    using simulates_striped [OF assms(4), of t p n "[]" r] by (intro step.unlock) (simp_all add: striped_def)
  moreover have "refines w' ?s"
    by (rule refines_quiet [OF assms(2,3), of _ t "wbuf w t @ [Free (stripe p)]" "Run Idle"])
      (use assms(3) wunlock in \<open>auto simp: refines_def own_def\<close>)
  ultimately show ?thesis by blast
next
  case (wdrain t es a bs es')
  then show ?thesis using refines_drain [OF assms(2,3)] by blast
next
  case (wfree t es i es')
  then show ?thesis using refines_free [OF assms(2,3)] by blast
next
  case (wbar t es)
  have "refines w' s"
    by (rule refines_quiet [OF assms(2,3), of _ t es "wpc w t"]) (use assms(3) wbar in \<open>auto simp: refines_def own_def\<close>)
  then show ?thesis by blast
qed

lemma wreachable:
  assumes "(wstep k tso striped)\<^sup>*\<^sup>* (wsys_init m0) w" and "tso \<or> k \<noteq> Host"
  shows "tidy tso w \<and> (\<exists>s. (step striped)\<^sup>*\<^sup>* (sys_init m0) s \<and> refines w s)"
  using assms(1)
proof (induction rule: rtranclp_induct)
  case base
  have "tidy tso (wsys_init m0)" by (simp add: wsys_init_def tidy_def own_def)
  moreover have "refines (wsys_init m0) (sys_init m0)"
    by (simp add: wsys_init_def sys_init_def refines_def own_def fun_eq_iff)
  ultimately show ?case by blast
next
  case (step w w')
  then obtain s where t: "tidy tso w" and s: "(step striped)\<^sup>*\<^sup>* (sys_init m0) s" "refines w s" by blast
  have i: "simulates m0 s" "mutex s" using reachable_inv [OF s(1)] by auto
  have "tidy tso w'" using step.hyps(2) assms(2) t s(2) i(1) by (rule wstep_tidy)
  moreover obtain s' where "(step striped)\<^sup>=\<^sup>= s s'" "refines w' s'" using wstep_refines [OF step.hyps(2) t s(2) i] by blast
  moreover have "(step striped)\<^sup>*\<^sup>* (sys_init m0) s'"
    using s(1) \<open>(step striped)\<^sup>=\<^sup>= s s'\<close> by (auto intro: rtranclp.rtrancl_into_rtrancl)
  ultimately show ?case by blast
qed

lemma weak_linearizable:
  assumes "(wstep k tso striped)\<^sup>*\<^sup>* (wsys_init m0) w" and "tso \<or> k \<noteq> Host"
  shows "\<forall>(n, v) \<in> set (wrets w). n < length (whist w) \<and> snd (replay (whist w) m0) ! n = v"
    and "wlocks w (sst_stripe_for x) = 0 \<Longrightarrow> wmem w x = fst (replay (whist w) m0) x"
proof -
  from wreachable [OF assms] obtain s where t: "tidy tso w" and s: "(step striped)\<^sup>*\<^sup>* (sys_init m0) s" "refines w s" by blast
  have h: "hist s = whist w" "rets s = wrets w" using s(2) by (simp_all add: refines_def)
  from reachable_inv [OF s(1)] have i: "simulates m0 s" "mutex s" by auto
  show "\<forall>(n, v) \<in> set (wrets w). n < length (whist w) \<and> snd (replay (whist w) m0) ! n = v"
    using linearizable [OF s(1)] by (simp add: h)
  assume "wlocks w (sst_stripe_for x) = 0"
  then have no: "\<not> owner w u (sst_stripe_for x)" for u using owner_locked [OF t] by blast
  then have "wmem w x = mem s x"
    using s(2) tidyD(4) [OF t] view_not_written [of x "wbuf w 0" "wmem w"] unfolding refines_def by metis
  moreover have "locks s (sst_stripe_for x) = 0"
    using i(2) no holds_busy [OF s(2)] unfolding mutex_def own_def by blast
  ultimately show "wmem w x = fst (replay (whist w) m0) x"
    using i(1) unfolding simulates_def by (auto simp: h agree_def)
qed

section \<open>Runs as schedules\<close>

text \<open>A thread makes its next step, starting an operation when it is idle; or the entry at a place of its buffer leaves it.\<close>

datatype turn = Go nat operation | Out nat nat


fun turn_step :: "isa \<Rightarrow> bool \<Rightarrow> turn \<Rightarrow> wsys \<Rightarrow> wsys option" where
  "turn_step k tso (Go t p) w = (case wpc w t of
     Run Idle \<Rightarrow> if op_locked p then Some (w\<lparr>wpc := (wpc w)(t := Run (Want p))\<rparr>) else None
   | Run (Want q) \<Rightarrow> (let (b, l) = sst_ldstub (stripe q) (wlocks w) in
       if \<not> may_pass tso (Free (stripe q)) (wbuf w t) then None
       else if b = 0 then Some (w\<lparr>wlocks := l, wpc := (wpc w)(t := Run (Busy q (length (whist w)) (op_body q) [])), whist := whist w @ [q]\<rparr>)
       else Some (w\<lparr>wlocks := l, wpc := (wpc w)(t := Run (Spin q))\<rparr>))
   | Run (Spin q) \<Rightarrow>
       if Free (stripe q) \<in> set (wbuf w t) \<or> wlocks w (stripe q) = 0 then Some (w\<lparr>wpc := (wpc w)(t := Run (Want q))\<rparr>) else Some w
   | Run (Busy q n (Ld a c # is) r) \<Rightarrow>
       Some (w\<lparr>wpc := (wpc w)(t := Run (Busy q n is (r @ ld a c (view (wbuf w t) (wmem w)))))\<rparr>)
   | Run (Busy q n (St a c f # is) r) \<Rightarrow>
       Some (w\<lparr>wbuf := (wbuf w)(t := wbuf w t @ put a c (f r)), wpc := (wpc w)(t := Run (Busy q n is r))\<rparr>)
   | Run (Busy q n [] r) \<Rightarrow> if op_locked q
       then Some (w\<lparr>wbuf := (wbuf w)(t := wbuf w t @ bar (sst_store_barrier k)), wpc := (wpc w)(t := Release q n r)\<rparr>) else None
   | Release q n r \<Rightarrow> Some (w\<lparr>wbuf := (wbuf w)(t := wbuf w t @ [Free (stripe q)]), wpc := (wpc w)(t := Run Idle),
                               wrets := wrets w @ [(n, op_ret q r)]\<rparr>))"
| "turn_step k tso (Out t n) w = (case drop n (wbuf w t) of
     [] \<Rightarrow> None
   | Bytes a bs # es' \<Rightarrow> if may_pass tso (Bytes a bs) (take n (wbuf w t))
       then Some (w\<lparr>wmem := st a bs (wmem w), wbuf := (wbuf w)(t := take n (wbuf w t) @ es')\<rparr>) else None
   | Free i # es' \<Rightarrow> if may_pass tso (Free i) (take n (wbuf w t))
       then Some (w\<lparr>wlocks := sst_stripe_unlock i (wlocks w), wbuf := (wbuf w)(t := take n (wbuf w t) @ es')\<rparr>) else None
   | Bar # es' \<Rightarrow> if n = 0 then Some (w\<lparr>wbuf := (wbuf w)(t := es')\<rparr>) else None)"

fun turns :: "isa \<Rightarrow> bool \<Rightarrow> turn list \<Rightarrow> wsys \<Rightarrow> wsys option" where
  "turns k tso [] w = Some w"
| "turns k tso (c # cs) w = (case turn_step k tso c w of None \<Rightarrow> None | Some w' \<Rightarrow> turns k tso cs w')"

fun starts :: "(operation \<Rightarrow> bool) \<Rightarrow> turn \<Rightarrow> bool" where
  "starts adm (Go t p) = adm p"
| "starts adm (Out t n) = True"

lemma turn_out:
  assumes "turn_step k tso (Out t n) w = Some w'"
  shows "wstep k tso adm w w'"
proof -
  have s: "wbuf w t = take n (wbuf w t) @ e # es" if "drop n (wbuf w t) = e # es" for e es
    using that by (metis append_take_drop_id)
  show ?thesis
    using assms by (auto split: list.splits item.splits if_splits dest!: s intro: wstep.wdrain wstep.wfree wstep.wbar)
qed

lemma turn_go: "turn_step k tso (Go t p) w = Some w' \<Longrightarrow> adm p \<Longrightarrow> wstep k tso adm w w'"
  by (auto simp: Let_def split: wthread.splits thread.splits list.splits access.splits if_splits prod.splits intro: wstep.intros)

lemma turns_run: "turns k tso cs w = Some w' \<Longrightarrow> list_all (starts adm) cs \<Longrightarrow> (wstep k tso adm)\<^sup>*\<^sup>* w w'"
proof (induction cs arbitrary: w)
  case (Cons c cs)
  then obtain w1 where w1: "turn_step k tso c w = Some w1" "turns k tso cs w1 = Some w'" by (auto split: option.splits)
  have "wstep k tso adm w w1" using w1(1) Cons.prems(2) turn_out turn_go by (cases c) auto
  then show ?case using Cons.IH [OF w1(2)] Cons.prems(2) by (auto intro: converse_rtranclp_into_rtranclp)
qed simp

section \<open>Properties\<close>

text \<open>
  C3. The stripe-locked operations stay linearizable on processors with store buffers, in total store order and,
  compiled for a SPARC, in partial store order: every value returned is the one the operation returns when the
  operations are executed one after the other in the order in which they took their locks, and
  the memory of every stripe whose lock byte is 0 is the memory of that sequential execution.
\<close>

theorem stripe_ops_store_buffers:
  assumes "(wstep k tso striped)\<^sup>*\<^sup>* (wsys_init m0) w" and "tso \<or> k \<noteq> Host"
  shows "(\<forall>(n, v) \<in> set (wrets w). n < length (whist w) \<and> snd (replay (whist w) m0) ! n = v)
    \<and> (\<forall>x. wlocks w (sst_stripe_for x) = 0 \<longrightarrow> wmem w x = fst (replay (whist w) m0) x)"
  using weak_linearizable [OF assms] by blast

text \<open>
  Two threads add to one word in partial store order. The first thread has left its operation while its stores are
  in its buffer; the unlocking store may not overtake the sum, the second thread finds the lock taken.
\<close>

definition adds_turns :: "turn list" where
  "adds_turns = (let p = sync_fetch_and FAdd 8 1; q = sync_fetch_and FAdd 8 2 in
     [Go 0 p, Go 0 p, Go 0 p, Go 0 p, Go 0 p, Go 0 p, Go 1 q, Go 1 q, Out 0 0, Out 0 0, Out 0 0,
      Go 1 q, Go 1 q, Go 1 q, Go 1 q, Go 1 q, Go 1 q])"

lemma adds_striped: "list_all (starts striped) adds_turns"
proof -
  have "aligned 4 8" by (simp add: aligned_def widths_def)
  then show ?thesis by (simp add: adds_turns_def Let_def sync_fetch_and_def rmw_striped)
qed

lemmas evaluate_turns = Let_def wsys_init_def sync_fetch_and_def rmw_def loads_def stores_def sst_ldstub_def
  sst_stripe_unlock_def stripe_nat bar_def put_def sst_store_barrier_def span_def

lemma adds_run:
  obtains w v where "(wstep V8 False striped)\<^sup>*\<^sup>* (wsys_init (\<lambda>_. 0)) w" "(1, v) \<in> set (wrets w)"
proof -
  obtain w v where "turns V8 False adds_turns (wsys_init (\<lambda>_. 0)) = Some w" "(1, v) \<in> set (wrets w)"
    by (simp add: adds_turns_def evaluate_turns)
  then show thesis using that turns_run adds_striped by blast
qed

theorem stripe_ops_store_buffers_witness:
  "\<exists>w v. (wstep V8 False striped)\<^sup>*\<^sup>* (wsys_init (\<lambda>_. 0)) w \<and> (1, v) \<in> set (wrets w) \<and> snd (replay (whist w) (\<lambda>_. 0)) ! 1 = v"
proof -
  obtain w v where w: "(wstep V8 False striped)\<^sup>*\<^sup>* (wsys_init (\<lambda>_. 0)) w" "(1, v) \<in> set (wrets w)" by (rule adds_run)
  from stripe_ops_store_buffers [OF w(1)] w(2) have "snd (replay (whist w) (\<lambda>_. 0)) ! 1 = v" by auto
  with w show ?thesis by blast
qed

text \<open>
  The barrier is needed: without one, as in the branch for other processors, the unlocking store may overtake the
  sum in partial store order, and one of two additions is lost.
\<close>

definition lost_turns :: "turn list" where
  "lost_turns = (let p = sync_fetch_and FAdd 8 1 in
     [Go 0 p, Go 0 p, Go 0 p, Go 0 p, Go 0 p, Go 0 p, Out 0 (Suc 0),
      Go 1 p, Go 1 p, Go 1 p, Go 1 p, Go 1 p, Go 1 p, Out 1 0, Out 0 0, Out 1 0])"

lemma unlock_without_barrier:
  "\<exists>w. (wstep Host False striped)\<^sup>*\<^sup>* (wsys_init (\<lambda>_. 0)) w \<and> length (wrets w) = 2
     \<and> wlocks w (sst_stripe_for 8) = 0 \<and> obj 4 8 (wmem w) = 1
     \<and> obj 4 8 (fst (replay (whist w) (\<lambda>_. 0))) = 2"
proof -
  have zero: "val_of (ld 8 4 (\<lambda>_. 0)) = 0" by code_simp
  let ?m = "st 8 (bytes_of 4 1) (st 8 (bytes_of 4 1) (\<lambda>_. 0))" and ?p = "sync_fetch_and FAdd 8 1"
  obtain w where w: "turns Host False lost_turns (wsys_init (\<lambda>_. 0)) = Some w"
    "length (wrets w) = 2" "wlocks w (sst_stripe_for 8) = 0" "wmem w = ?m" "whist w = [?p, ?p]"
    by (simp add: lost_turns_def evaluate_turns zero)
  have "aligned 4 8" by (simp add: aligned_def widths_def)
  then have "list_all (starts striped) lost_turns"
    by (simp add: lost_turns_def Let_def sync_fetch_and_def rmw_striped list_all_iff)
  then have "(wstep Host False striped)\<^sup>*\<^sup>* (wsys_init (\<lambda>_. 0)) w" using w(1) turns_run by blast
  moreover have "obj 4 8 ?m = 1" "obj 4 8 (fst (replay [?p, ?p] (\<lambda>_. 0))) = 2" by code_simp+
  ultimately show ?thesis using w by auto
qed

end
