(* ===== verification/C11_Atomics.thy ===== *)
theory C11_Atomics
  imports Atomic_Ops
begin

text \<open>
  C11 atomics, \<open>src/sysroot-overlay/usr/include/stdatomic.h\<close>: the macros on objects of \<open>w\<close> bytes, as the
  compiler calls the functions of \<open>atomic_ops.c\<close> for them. Loads and stores are those of four and eight bytes.
  Here the two components meet: a counter that threads share is correct because the operations are linearizable.
\<close>

unbundle bit_operations_syntax

section \<open>The macros\<close>

datatype memory_order = relaxed | consume | acquire | release | acq_rel | seq_cst

fun order_value :: "memory_order \<Rightarrow> int" where
  "order_value relaxed = 0" | "order_value consume = 1" | "order_value acquire = 2"
| "order_value release = 3" | "order_value acq_rel = 4" | "order_value seq_cst = 5"

definition atomic_store_explicit :: "nat \<Rightarrow> u32 \<Rightarrow> u64 \<Rightarrow> memory_order \<Rightarrow> operation option" where
  "atomic_store_explicit w a desired order =
     (if w = 4 then Some (atomic_store_4 a (ucast desired) (order_value order))
      else if w = 8 then Some (atomic_store_8 a desired (order_value order)) else None)"

definition atomic_store :: "nat \<Rightarrow> u32 \<Rightarrow> u64 \<Rightarrow> operation option" where
  "atomic_store w a desired = atomic_store_explicit w a desired seq_cst"

definition atomic_load_explicit :: "nat \<Rightarrow> u32 \<Rightarrow> memory_order \<Rightarrow> operation option" where
  "atomic_load_explicit w a order =
     (if w = 4 then Some (atomic_load_4 a (order_value order))
      else if w = 8 then Some (atomic_load_8 a (order_value order)) else None)"

definition atomic_load :: "nat \<Rightarrow> u32 \<Rightarrow> operation option" where
  "atomic_load w a = atomic_load_explicit w a seq_cst"

definition atomic_exchange_explicit :: "nat \<Rightarrow> u32 \<Rightarrow> u64 \<Rightarrow> memory_order \<Rightarrow> operation" where
  "atomic_exchange_explicit w a desired order = atomic_exchange w a desired (order_value order)"

definition atomic_exchange_seq_cst :: "nat \<Rightarrow> u32 \<Rightarrow> u64 \<Rightarrow> operation" where
  "atomic_exchange_seq_cst w a desired = atomic_exchange_explicit w a desired seq_cst"

text \<open>The functions compare and exchange alike for the weak and the strong form and for every order.\<close>

definition atomic_compare_exchange_strong_explicit :: "nat \<Rightarrow> u32 \<Rightarrow> u64 \<Rightarrow> u64 \<Rightarrow> memory_order \<Rightarrow> memory_order \<Rightarrow> operation" where
  "atomic_compare_exchange_strong_explicit w a expected desired success failure = compare_exchange w a expected desired"

definition atomic_compare_exchange_strong :: "nat \<Rightarrow> u32 \<Rightarrow> u64 \<Rightarrow> u64 \<Rightarrow> operation" where
  "atomic_compare_exchange_strong w a expected desired =
     atomic_compare_exchange_strong_explicit w a expected desired seq_cst seq_cst"

definition atomic_compare_exchange_weak_explicit :: "nat \<Rightarrow> u32 \<Rightarrow> u64 \<Rightarrow> u64 \<Rightarrow> memory_order \<Rightarrow> memory_order \<Rightarrow> operation" where
  "atomic_compare_exchange_weak_explicit w a expected desired success failure = compare_exchange w a expected desired"

definition atomic_compare_exchange_weak :: "nat \<Rightarrow> u32 \<Rightarrow> u64 \<Rightarrow> u64 \<Rightarrow> operation" where
  "atomic_compare_exchange_weak w a expected desired =
     atomic_compare_exchange_weak_explicit w a expected desired seq_cst seq_cst"

definition atomic_fetch_add_explicit :: "nat \<Rightarrow> u32 \<Rightarrow> u64 \<Rightarrow> memory_order \<Rightarrow> operation" where
  "atomic_fetch_add_explicit w a val order = atomic_fetch FAdd w a val (order_value order)"

definition atomic_fetch_add :: "nat \<Rightarrow> u32 \<Rightarrow> u64 \<Rightarrow> operation" where
  "atomic_fetch_add w a val = atomic_fetch_add_explicit w a val seq_cst"

definition atomic_fetch_sub_explicit :: "nat \<Rightarrow> u32 \<Rightarrow> u64 \<Rightarrow> memory_order \<Rightarrow> operation" where
  "atomic_fetch_sub_explicit w a val order = atomic_fetch FSub w a val (order_value order)"

definition atomic_fetch_sub :: "nat \<Rightarrow> u32 \<Rightarrow> u64 \<Rightarrow> operation" where
  "atomic_fetch_sub w a val = atomic_fetch_sub_explicit w a val seq_cst"

definition atomic_fetch_or_explicit :: "nat \<Rightarrow> u32 \<Rightarrow> u64 \<Rightarrow> memory_order \<Rightarrow> operation" where
  "atomic_fetch_or_explicit w a val order = atomic_fetch FOr w a val (order_value order)"

definition atomic_fetch_or :: "nat \<Rightarrow> u32 \<Rightarrow> u64 \<Rightarrow> operation" where
  "atomic_fetch_or w a val = atomic_fetch_or_explicit w a val seq_cst"

definition atomic_fetch_xor_explicit :: "nat \<Rightarrow> u32 \<Rightarrow> u64 \<Rightarrow> memory_order \<Rightarrow> operation" where
  "atomic_fetch_xor_explicit w a val order = atomic_fetch FXor w a val (order_value order)"

definition atomic_fetch_xor :: "nat \<Rightarrow> u32 \<Rightarrow> u64 \<Rightarrow> operation" where
  "atomic_fetch_xor w a val = atomic_fetch_xor_explicit w a val seq_cst"

definition atomic_fetch_and_explicit :: "nat \<Rightarrow> u32 \<Rightarrow> u64 \<Rightarrow> memory_order \<Rightarrow> operation" where
  "atomic_fetch_and_explicit w a val order = atomic_fetch FAnd w a val (order_value order)"

definition atomic_fetch_and :: "nat \<Rightarrow> u32 \<Rightarrow> u64 \<Rightarrow> operation" where
  "atomic_fetch_and w a val = atomic_fetch_and_explicit w a val seq_cst"

section \<open>Runs of admitted operations\<close>

lemma step_mono: "step adm s s' \<Longrightarrow> (\<And>p. adm p \<Longrightarrow> adm' p) \<Longrightarrow> step adm' s s'"
  by (induction rule: step.induct) (blast intro: step.intros)+

lemma steps_mono: "(step adm)\<^sup>*\<^sup>* s s' \<Longrightarrow> (\<And>p. adm p \<Longrightarrow> adm' p) \<Longrightarrow> (step adm')\<^sup>*\<^sup>* s s'"
  by (rule rtranclp_mono [THEN predicate2D, rotated]) (auto intro: step_mono)

text \<open>The operations of the history, and those about to start, are admitted.\<close>

definition all_admitted :: "(operation \<Rightarrow> bool) \<Rightarrow> sys \<Rightarrow> bool" where
  "all_admitted adm s \<longleftrightarrow> list_all adm (hist s) \<and> (\<forall>t p. pc s t = Want p \<or> pc s t = Spin p \<longrightarrow> adm p)"

lemma admitted_step: "step adm s s' \<Longrightarrow> all_admitted adm s \<Longrightarrow> all_admitted adm s'"
  by (induction rule: step.induct) (auto simp: all_admitted_def)

lemma admitted_runs:
  assumes "(step adm)\<^sup>*\<^sup>* (sys_init m0) s"
  shows "list_all adm (hist s)"
proof -
  have "all_admitted adm s"
    using assms
  proof (induction rule: rtranclp_induct)
    case (step s s')
    then show ?case using admitted_step by blast
  qed (simp add: all_admitted_def sys_init_def)
  then show ?thesis by (simp add: all_admitted_def)
qed

section \<open>A shared counter\<close>

lemma take_bit_val_of: "take_bit (8 * length bs) (val_of bs) = val_of bs"
proof (induction bs rule: rev_induct)
  case (snoc b bs)
  have "\<not> bit (val_of bs) k" if "8 * length bs \<le> k" for k
    using that snoc bit_take_bit_iff [of "8 * length bs" "val_of bs" k] by simp
  then have high: "\<not> bit (push_bit 8 (val_of bs) OR ucast b :: u64) k" if "8 * length (bs @ [b]) \<le> k" for k
    using that by (auto simp: bit_simps dest: bit_imp_le_length)
  show ?case
    unfolding val_of_snoc push_or_byte [symmetric]
  proof (rule bit_word_eqI)
    fix k
    show "bit (take_bit (8 * length (bs @ [b])) (push_bit 8 (val_of bs) OR ucast b :: u64)) k = bit (push_bit 8 (val_of bs) OR ucast b :: u64) k"
      using high [of k] unfolding bit_take_bit_iff by linarith
  qed
qed (simp add: val_of_def)

lemma take_bit_obj [simp]: "take_bit (8 * w) (obj w a m) = obj w a m"
  using take_bit_val_of [of "ld a w m"] by (simp add: obj_def ld_def)

lemma same_outside_trans: "same_outside w a m m1 \<Longrightarrow> same_outside w a m1 m2 \<Longrightarrow> same_outside w a m m2"
  by (simp add: same_outside_def)

lemma fetch_add_execute:
  assumes "w \<in> set widths" and "execute (atomic_fetch_add w a d) m = (m', v)"
  shows "v = obj w a m" "same_outside w a m m'" "obj w a m' = take_bit (8 * w) (obj w a m + d)"
  using rmw_execute [OF assms(1), of a _ id m m' v] assms(2)
  by (auto simp: atomic_fetch_add_def atomic_fetch_add_explicit_def atomic_fetch_def)

lemma replay_Cons: "execute p m = (m1, v) \<Longrightarrow> replay (p # ps) m = (fst (replay ps m1), v # snd (replay ps m1))"
  by (auto simp: execute_def split: prod.splits)

lemma replay_fetch_add:
  assumes "w \<in> set widths"
  shows "obj w a (fst (replay (map (atomic_fetch_add w a) ds) m)) = take_bit (8 * w) (obj w a m + sum_list ds)
    \<and> same_outside w a m (fst (replay (map (atomic_fetch_add w a) ds) m))
    \<and> snd (replay (map (atomic_fetch_add w a) ds) m) = map (\<lambda>n. take_bit (8 * w) (obj w a m + sum_list (take n ds))) [0..<length ds]"
proof (induction ds arbitrary: m)
  case Nil
  then show ?case by (simp add: same_outside_def)
next
  case (Cons d ds)
  obtain m1 v where e: "execute (atomic_fetch_add w a d) m = (m1, v)" by fastforce
  note f = fetch_add_execute [OF assms e]
  have sum: "take_bit (8 * w) (obj w a m1 + x) = take_bit (8 * w) (obj w a m + (d + x))" for x
    unfolding f(3) add.assoc [symmetric] by (rule take_bit_word_add)
  have "v = take_bit (8 * w) (obj w a m)" using f(1) by simp
  then show ?case
    using Cons [of m1] f(2) same_outside_trans
    by (auto simp: replay_Cons [OF e] sum upt_conv_Cons map_Suc_upt [symmetric] simp del: upt_Suc replay.simps)
qed

section \<open>Properties\<close>

text \<open>
  C4. Counting with C11 atomics loses nothing: when threads do nothing but \<^verbatim>\<open>atomic_fetch_add\<close> on one aligned object,
  there is an order of the additions such that, once no thread is inside an operation, the object holds
  the initial value plus all of them, modulo its width, and nothing else has changed; and every value
  returned, also while others run, is the initial value plus the additions before its own.
\<close>

theorem c11_counter:
  assumes "aligned w a" and "(step (\<lambda>p. \<exists>d. p = atomic_fetch_add w a d))\<^sup>*\<^sup>* (sys_init m0) s"
  shows "\<exists>ds. hist s = map (atomic_fetch_add w a) ds
    \<and> (\<forall>(n, v) \<in> set (rets s). n < length ds \<and> v = take_bit (8 * w) (obj w a m0 + sum_list (take n ds)))
    \<and> ((\<forall>t. pc s t = Idle) \<longrightarrow> obj w a (mem s) = take_bit (8 * w) (obj w a m0 + sum_list ds) \<and> same_outside w a m0 (mem s))"
proof -
  have "list_all (\<lambda>p. \<exists>d. p = atomic_fetch_add w a d) (hist s)" using assms(2) by (rule admitted_runs)
  then obtain ds where ds: "hist s = map (atomic_fetch_add w a) ds"
    using ex_map_conv [of "hist s" "atomic_fetch_add w a"] by (auto simp: list_all_iff)
  have "striped (atomic_fetch FAdd w a d o')" for d o' by (rule aligned_operations_striped [OF assms(1), THEN conjunct1])
  then have "striped p" if "\<exists>d. p = atomic_fetch_add w a d" for p
    using that by (auto simp: atomic_fetch_add_def atomic_fetch_add_explicit_def)
  then have "(step striped)\<^sup>*\<^sup>* (sys_init m0) s" using steps_mono [OF assms(2)] by blast
  note lin = linearizable [OF this]
  have w: "w \<in> set widths" using assms(1) by (simp add: aligned_def)
  have "v = take_bit (8 * w) (obj w a m0 + sum_list (take n ds)) \<and> n < length ds" if "(n, v) \<in> set (rets s)" for n v
  proof -
    have "n < length (hist s) \<and> snd (replay (hist s) m0) ! n = v" using lin [THEN conjunct1] that by fast
    then show ?thesis using replay_fetch_add [OF w, of a ds m0] by (auto simp: ds)
  qed
  moreover have "obj w a (mem s) = take_bit (8 * w) (obj w a m0 + sum_list ds) \<and> same_outside w a m0 (mem s)" if "\<forall>t. pc s t = Idle"
    using lin that replay_fetch_add [OF w, of a ds m0] by (simp add: ds)
  ultimately show ?thesis using ds by blast
qed

text \<open>Two threads count, the second spinning while the first is inside.\<close>

definition two_counts :: "(nat \<times> operation) list" where
  "two_counts = (let p = atomic_fetch_add 4 8 1; q = atomic_fetch_add 4 8 2 in
     [(0, p), (1, q), (0, p), (1, q), (0, p), (1, q), (0, p), (0, p), (1, q), (1, q), (1, q), (1, q), (1, q)])"

theorem c11_counter_witness:
  "\<exists>s ds. (step (\<lambda>p. \<exists>d. p = atomic_fetch_add 4 8 d))\<^sup>*\<^sup>* (sys_init (\<lambda>_. 0)) s \<and> length ds = 2
     \<and> (\<forall>t. pc s t = Idle) \<and> obj 4 8 (mem s) = take_bit 32 (sum_list ds)"
proof -
  let ?s = "fold sched two_counts (sys_init (\<lambda>_. 0))"
  have run: "(step (\<lambda>p. \<exists>d. p = atomic_fetch_add 4 8 d))\<^sup>*\<^sup>* (sys_init (\<lambda>_. 0)) ?s"
    by (rule sched_run) (auto simp: two_counts_def Let_def)
  note eval = two_counts_def sched_def sys_init_def atomic_fetch_add_def atomic_fetch_add_explicit_def atomic_fetch_def
    rmw_def loads_def stores_def sst_ldstub_def sst_stripe_unlock_def stripe_nat Let_def
  have idle: "\<forall>t. pc ?s t = Idle" and len: "length (hist ?s) = 2" by (simp_all add: eval)
  have "aligned 4 8" by (simp add: aligned_def widths_def)
  from c11_counter [OF this run] obtain ds where ds: "hist ?s = map (atomic_fetch_add 4 8) ds"
    "obj 4 8 (mem ?s) = take_bit (8 * 4) (obj 4 8 (\<lambda>_. 0) + sum_list ds)" using idle by blast
  have "obj 4 8 (\<lambda>_. 0) = 0" by (simp add: obj_def ld_def val_of_def numeral_eq_Suc)
  moreover have "length ds = 2" using len ds(1) by simp
  ultimately show ?thesis using run idle ds(2) by auto
qed

end
