(* ===== verification/Byte_Order.thy ===== *)
theory Byte_Order
  imports Prelude
begin

text \<open>
  Byte order: the macros of \<open>src/sysroot-overlay/usr/include/endian.h\<close>, \<open>sys/byteorder.h\<close> and \<open>byteswap.h\<close>.

  The host's byte order selects the branch of the conditional definitions; an argument is converted to the
  width of the macro. The compiler's \<open>__builtin_bswap\<close> functions reverse the bytes of a word.
\<close>

unbundle bit_operations_syntax

section \<open>Words and their bytes\<close>

datatype host = Big | Little

text \<open>The bytes of a word of \<open>n\<close> bytes, the most significant one first, and the word of a list of bytes.\<close>

definition be_bytes :: "nat \<Rightarrow> 'a :: len word \<Rightarrow> u8 list" where
  "be_bytes n w = map (\<lambda>i. ucast (drop_bit (8 * (n - 1 - i)) w)) [0..<n]"

definition of_be_bytes :: "u8 list \<Rightarrow> 'a :: len word" where
  "of_be_bytes bs = foldl (\<lambda>v b. push_bit 8 v OR ucast b) 0 bs"

text \<open>The bytes of an object of that value in the memory of the host, and the value such bytes have.\<close>

definition object_bytes :: "host \<Rightarrow> nat \<Rightarrow> 'a :: len word \<Rightarrow> u8 list" where
  "object_bytes h n w = (case h of Big \<Rightarrow> be_bytes n w | Little \<Rightarrow> rev (be_bytes n w))"

definition builtin_bswap16 :: "u16 \<Rightarrow> u16" where
  "builtin_bswap16 x = of_be_bytes (rev (be_bytes 2 x))"

definition builtin_bswap32 :: "u32 \<Rightarrow> u32" where
  "builtin_bswap32 x = of_be_bytes (rev (be_bytes 4 x))"

definition builtin_bswap64 :: "u64 \<Rightarrow> u64" where
  "builtin_bswap64 x = of_be_bytes (rev (be_bytes 8 x))"

section \<open>The macros\<close>

definition htobe16 :: "host \<Rightarrow> u64 \<Rightarrow> u16" where
  "htobe16 h x = (case h of Big \<Rightarrow> ucast x | Little \<Rightarrow> builtin_bswap16 (ucast x))"

definition htobe32 :: "host \<Rightarrow> u64 \<Rightarrow> u32" where
  "htobe32 h x = (case h of Big \<Rightarrow> ucast x | Little \<Rightarrow> builtin_bswap32 (ucast x))"

definition htobe64 :: "host \<Rightarrow> u64 \<Rightarrow> u64" where
  "htobe64 h x = (case h of Big \<Rightarrow> x | Little \<Rightarrow> builtin_bswap64 x)"

definition htole16 :: "host \<Rightarrow> u64 \<Rightarrow> u16" where
  "htole16 h x = (case h of Big \<Rightarrow> builtin_bswap16 (ucast x) | Little \<Rightarrow> ucast x)"

definition htole32 :: "host \<Rightarrow> u64 \<Rightarrow> u32" where
  "htole32 h x = (case h of Big \<Rightarrow> builtin_bswap32 (ucast x) | Little \<Rightarrow> ucast x)"

definition htole64 :: "host \<Rightarrow> u64 \<Rightarrow> u64" where
  "htole64 h x = (case h of Big \<Rightarrow> builtin_bswap64 x | Little \<Rightarrow> x)"

definition be16toh :: "host \<Rightarrow> u64 \<Rightarrow> u16" where
  "be16toh h x = (case h of Big \<Rightarrow> ucast x | Little \<Rightarrow> builtin_bswap16 (ucast x))"

definition be32toh :: "host \<Rightarrow> u64 \<Rightarrow> u32" where
  "be32toh h x = (case h of Big \<Rightarrow> ucast x | Little \<Rightarrow> builtin_bswap32 (ucast x))"

definition be64toh :: "host \<Rightarrow> u64 \<Rightarrow> u64" where
  "be64toh h x = (case h of Big \<Rightarrow> x | Little \<Rightarrow> builtin_bswap64 x)"

definition le16toh :: "host \<Rightarrow> u64 \<Rightarrow> u16" where
  "le16toh h x = (case h of Big \<Rightarrow> builtin_bswap16 (ucast x) | Little \<Rightarrow> ucast x)"

definition le32toh :: "host \<Rightarrow> u64 \<Rightarrow> u32" where
  "le32toh h x = (case h of Big \<Rightarrow> builtin_bswap32 (ucast x) | Little \<Rightarrow> ucast x)"

definition le64toh :: "host \<Rightarrow> u64 \<Rightarrow> u64" where
  "le64toh h x = (case h of Big \<Rightarrow> builtin_bswap64 x | Little \<Rightarrow> x)"

text \<open>\<open>sys/byteorder.h\<close>; on a little-endian host \<open>htonl\<close> and the others are functions of the system.\<close>

definition BSWAP_16 :: "u64 \<Rightarrow> u16" where
  "BSWAP_16 x = builtin_bswap16 (ucast x)"

definition BSWAP_32 :: "u64 \<Rightarrow> u32" where
  "BSWAP_32 x = builtin_bswap32 (ucast x)"

definition BSWAP_64 :: "u64 \<Rightarrow> u64" where
  "BSWAP_64 x = builtin_bswap64 x"

definition BE_16 :: "host \<Rightarrow> u64 \<Rightarrow> u16" where
  "BE_16 h x = (case h of Big \<Rightarrow> ucast x | Little \<Rightarrow> BSWAP_16 x)"

definition BE_32 :: "host \<Rightarrow> u64 \<Rightarrow> u32" where
  "BE_32 h x = (case h of Big \<Rightarrow> ucast x | Little \<Rightarrow> BSWAP_32 x)"

definition BE_64 :: "host \<Rightarrow> u64 \<Rightarrow> u64" where
  "BE_64 h x = (case h of Big \<Rightarrow> x | Little \<Rightarrow> BSWAP_64 x)"

definition LE_16 :: "host \<Rightarrow> u64 \<Rightarrow> u16" where
  "LE_16 h x = (case h of Big \<Rightarrow> BSWAP_16 x | Little \<Rightarrow> ucast x)"

definition LE_32 :: "host \<Rightarrow> u64 \<Rightarrow> u32" where
  "LE_32 h x = (case h of Big \<Rightarrow> BSWAP_32 x | Little \<Rightarrow> ucast x)"

definition LE_64 :: "host \<Rightarrow> u64 \<Rightarrow> u64" where
  "LE_64 h x = (case h of Big \<Rightarrow> BSWAP_64 x | Little \<Rightarrow> x)"

definition htonl :: "u32 \<Rightarrow> u32" where "htonl x = x"
definition htons :: "u16 \<Rightarrow> u16" where "htons x = x"
definition ntohl :: "u32 \<Rightarrow> u32" where "ntohl x = x"
definition ntohs :: "u16 \<Rightarrow> u16" where "ntohs x = x"

text \<open>\<open>byteswap.h\<close>.\<close>

definition bswap_16 :: "u16 \<Rightarrow> u16" where "bswap_16 x = builtin_bswap16 x"
definition bswap_32 :: "u32 \<Rightarrow> u32" where "bswap_32 x = builtin_bswap32 x"
definition bswap_64 :: "u64 \<Rightarrow> u64" where "bswap_64 x = builtin_bswap64 x"

section \<open>Bytes and words correspond\<close>

lemma length_be_bytes [simp]: "length (be_bytes n w) = n"
  by (simp add: be_bytes_def)

lemma of_be_bytes_snoc: "of_be_bytes (bs @ [b]) = push_bit 8 (of_be_bytes bs) OR ucast b"
  by (simp add: of_be_bytes_def)

lemma bit_of_be_bytes:
  "bit (of_be_bytes bs :: 'a :: len word) k \<longleftrightarrow>
     k < LENGTH('a) \<and> k < 8 * length bs \<and> bit (bs ! (length bs - 1 - k div 8)) (k mod 8)"
proof (induction bs arbitrary: k rule: rev_induct)
  case Nil
  then show ?case by (simp add: of_be_bytes_def)
next
  case (snoc b bs)
  show ?case
  proof (cases "k < 8")
    case True
    then show ?thesis by (auto simp: of_be_bytes_snoc bit_simps)
  next
    case False
    then obtain j where k: "k = j + 8" using le_Suc_ex [of 8 k] by (auto simp: add.commute)
    have "\<not> bit b (j + 8)" using bit_imp_le_length [of b "j + 8"] by auto
    then have "bit (of_be_bytes (bs @ [b]) :: 'a word) k \<longleftrightarrow> k < LENGTH('a) \<and> bit (of_be_bytes bs :: 'a word) j"
      by (auto simp: of_be_bytes_snoc bit_simps k)
    moreover have "(bs @ [b]) ! (length bs - Suc (j div 8)) = bs ! (length bs - Suc (j div 8))" if "j < 8 * length bs"
    proof -
      have "0 < length bs" using that by auto
      then show ?thesis by (simp add: nth_append)
    qed
    moreover have "(j + 8) div 8 = Suc (j div 8)" by simp
    ultimately show ?thesis using snoc [of j] by (auto simp: k)
  qed
qed

lemma be_bytes_of_be_bytes:
  assumes "LENGTH('a) = 8 * length bs"
  shows "be_bytes (length bs) (of_be_bytes bs :: 'a :: len word) = bs"
proof (rule nth_equalityI)
  fix i assume "i < length (be_bytes (length bs) (of_be_bytes bs :: 'a word))"
  then have i: "i < length bs" by simp
  show "be_bytes (length bs) (of_be_bytes bs :: 'a word) ! i = bs ! i"
  proof (rule bit_word_eqI)
    fix k assume "k < LENGTH(8)"
    then have "k < 8" by simp
    then have "8 * (length bs - 1 - i) + k < 8 * length bs" "(8 * (length bs - 1 - i) + k) div 8 = length bs - 1 - i"
      "(8 * (length bs - 1 - i) + k) mod 8 = k" using i by simp_all
    with i \<open>k < 8\<close> assms show "bit (be_bytes (length bs) (of_be_bytes bs :: 'a word) ! i) k = bit (bs ! i) k"
      by (simp add: be_bytes_def bit_simps bit_of_be_bytes)
  qed
qed simp

lemma of_be_bytes_be_bytes:
  assumes "LENGTH('a) = 8 * n"
  shows "of_be_bytes (be_bytes n w) = (w :: 'a :: len word)"
proof (rule bit_word_eqI)
  fix k assume k: "k < LENGTH('a)"
  then have "k div 8 < n" using assms by (simp add: less_mult_imp_div_less mult.commute)
  moreover from this have "n - 1 - (n - 1 - k div 8) = k div 8" by simp
  ultimately show "bit (of_be_bytes (be_bytes n w) :: 'a word) k = bit w k"
    using k assms by (simp add: bit_of_be_bytes be_bytes_def bit_simps)
qed

lemma bswap_bytes:
  "be_bytes 2 (builtin_bswap16 x) = rev (be_bytes 2 x)"
  "be_bytes 4 (builtin_bswap32 y) = rev (be_bytes 4 y)"
  "be_bytes 8 (builtin_bswap64 z) = rev (be_bytes 8 z)"
  using be_bytes_of_be_bytes [of "rev (be_bytes 2 x)", where 'a = 16] be_bytes_of_be_bytes [of "rev (be_bytes 4 y)", where 'a = 32]
    be_bytes_of_be_bytes [of "rev (be_bytes 8 z)", where 'a = 64]
  by (simp_all add: builtin_bswap16_def builtin_bswap32_def builtin_bswap64_def)

lemma bswap_bswap [simp]:
  "builtin_bswap16 (builtin_bswap16 x) = x" "builtin_bswap32 (builtin_bswap32 y) = y" "builtin_bswap64 (builtin_bswap64 z) = z"
proof -
  show "builtin_bswap16 (builtin_bswap16 x) = x"
    unfolding builtin_bswap16_def [of "builtin_bswap16 x"] bswap_bytes by (simp add: of_be_bytes_be_bytes)
  show "builtin_bswap32 (builtin_bswap32 y) = y"
    unfolding builtin_bswap32_def [of "builtin_bswap32 y"] bswap_bytes by (simp add: of_be_bytes_be_bytes)
  show "builtin_bswap64 (builtin_bswap64 z) = z"
    unfolding builtin_bswap64_def [of "builtin_bswap64 z"] bswap_bytes by (simp add: of_be_bytes_be_bytes)
qed

lemma ucast_widened [simp]: "ucast (ucast x :: u64) = (x :: u16)" "ucast (ucast y :: u64) = (y :: u32)"
  by (intro bit_word_eqI, auto simp: bit_simps)+

lemmas byte_order_defs = htobe16_def htobe32_def htobe64_def htole16_def htole32_def htole64_def
  be16toh_def be32toh_def be64toh_def le16toh_def le32toh_def le64toh_def object_bytes_def

section \<open>An interface for byte-order conversions\<close>

text \<open>
  A pair of conversions for words of \<open>n\<close> bytes: the object converted has the bytes of the number in the order
  asked for, and converting back is the inverse. What a program that exchanges such objects needs follows:
  equal objects are equal numbers, and a received object is the number whose bytes were sent.
\<close>

locale wire_order =
  fixes n :: nat and out_order :: "u8 list \<Rightarrow> u8 list" and conv :: "host \<Rightarrow> 'a :: len word \<Rightarrow> 'a word" and unconv :: "host \<Rightarrow> 'a word \<Rightarrow> 'a word"
  assumes sent_bytes: "object_bytes h n (conv h x) = out_order (be_bytes n x)"
    and unconv_conv: "unconv h (conv h x) = x"
    and width: "LENGTH('a) = 8 * n"
begin

lemma object_bytes_inject: "object_bytes h n x = object_bytes h n y \<Longrightarrow> x = (y :: 'a word)"
proof -
  assume "object_bytes h n x = object_bytes h n y"
  then have "of_be_bytes (be_bytes n x) = (of_be_bytes (be_bytes n y) :: 'a word)"
    by (cases h) (simp_all add: object_bytes_def)
  then show "x = y" by (simp add: of_be_bytes_be_bytes width)
qed

lemma same_on_hosts: "object_bytes h' n (conv h' x) = object_bytes h n (conv h x)"
  by (simp add: sent_bytes)

lemma received:
  assumes "object_bytes h' n y = object_bytes h n (conv h x)"
  shows "unconv h' y = x"
proof -
  have "object_bytes h' n y = object_bytes h' n (conv h' x)" using assms by (simp only: same_on_hosts [of h' x h])
  then show ?thesis using object_bytes_inject unconv_conv by blast
qed

lemma conv_inject: "conv h x = conv h y \<Longrightarrow> x = y"
  by (metis unconv_conv)

end

interpretation be16: wire_order 2 id "\<lambda>h x. htobe16 h (ucast x)" "\<lambda>h x. be16toh h (ucast x)"
  by unfold_locales (auto simp: byte_order_defs bswap_bytes split: host.splits)

interpretation be32: wire_order 4 id "\<lambda>h x. htobe32 h (ucast x)" "\<lambda>h x. be32toh h (ucast x)"
  by unfold_locales (auto simp: byte_order_defs bswap_bytes split: host.splits)

interpretation be64: wire_order 8 id htobe64 be64toh
  by unfold_locales (auto simp: byte_order_defs bswap_bytes split: host.splits)

interpretation le16: wire_order 2 rev "\<lambda>h x. htole16 h (ucast x)" "\<lambda>h x. le16toh h (ucast x)"
  by unfold_locales (auto simp: byte_order_defs bswap_bytes split: host.splits)

interpretation le32: wire_order 4 rev "\<lambda>h x. htole32 h (ucast x)" "\<lambda>h x. le32toh h (ucast x)"
  by unfold_locales (auto simp: byte_order_defs bswap_bytes split: host.splits)

interpretation le64: wire_order 8 rev htole64 le64toh
  by unfold_locales (auto simp: byte_order_defs bswap_bytes split: host.splits)

section \<open>Properties\<close>

text \<open>
  C14. The byte-order macros exchange numbers between hosts: on a host of either byte order the object that
  \<^verbatim>\<open>htobe32\<close> makes has the bytes of the number with the most significant one first and the one that \<^verbatim>\<open>htole32\<close>
  makes has them reversed; an object with those bytes, received on a host of either order, is converted back to
  the number; and so for 16 and 64 bits. \<^verbatim>\<open>BE_32\<close> and its siblings of \<^verbatim>\<open>sys/byteorder.h\<close> are the same functions.
\<close>

theorem byte_order_exchange:
  fixes r16 s16 x16 :: u16 and r32 s32 x32 :: u32 and r64 s64 x64 :: u64
  assumes "object_bytes h' 2 r16 = object_bytes h 2 (htobe16 h (ucast x16))" "object_bytes h' 2 s16 = object_bytes h 2 (htole16 h (ucast x16))"
    and "object_bytes h' 4 r32 = object_bytes h 4 (htobe32 h (ucast x32))" "object_bytes h' 4 s32 = object_bytes h 4 (htole32 h (ucast x32))"
    and "object_bytes h' 8 r64 = object_bytes h 8 (htobe64 h x64)" "object_bytes h' 8 s64 = object_bytes h 8 (htole64 h x64)"
  shows "object_bytes h 2 (htobe16 h (ucast x16)) = be_bytes 2 x16 \<and> object_bytes h 2 (htole16 h (ucast x16)) = rev (be_bytes 2 x16)
    \<and> object_bytes h 4 (htobe32 h (ucast x32)) = be_bytes 4 x32 \<and> object_bytes h 4 (htole32 h (ucast x32)) = rev (be_bytes 4 x32)
    \<and> object_bytes h 8 (htobe64 h x64) = be_bytes 8 x64 \<and> object_bytes h 8 (htole64 h x64) = rev (be_bytes 8 x64)
    \<and> be16toh h' (ucast r16) = x16 \<and> le16toh h' (ucast s16) = x16
    \<and> be32toh h' (ucast r32) = x32 \<and> le32toh h' (ucast s32) = x32
    \<and> be64toh h' r64 = x64 \<and> le64toh h' s64 = x64
    \<and> BE_16 = htobe16 \<and> BE_32 = htobe32 \<and> BE_64 = htobe64 \<and> LE_16 = htole16 \<and> LE_32 = htole32 \<and> LE_64 = htole64"
proof -
  note sent = be16.sent_bytes [of h x16] le16.sent_bytes [of h x16] be32.sent_bytes [of h x32] le32.sent_bytes [of h x32]
    be64.sent_bytes [of h x64] le64.sent_bytes [of h x64]
  note received = be16.received [OF assms(1)] le16.received [OF assms(2)] be32.received [OF assms(3)] le32.received [OF assms(4)]
    be64.received [OF assms(5)] le64.received [OF assms(6)]
  have "BE_16 = htobe16" "BE_32 = htobe32" "BE_64 = htobe64" "LE_16 = htole16" "LE_32 = htole32" "LE_64 = htole64"
    by (simp_all add: fun_eq_iff byte_order_defs BE_16_def BE_32_def BE_64_def LE_16_def LE_32_def LE_64_def
        BSWAP_16_def BSWAP_32_def BSWAP_64_def split: host.split)
  with sent received show ?thesis by simp
qed

theorem byte_order_exchange_witness:
  "\<exists>r s. object_bytes Little 4 (r :: u32) = [1, 2, 3, 4] \<and> be32toh Little (ucast r) = 0x01020304
     \<and> object_bytes Little 4 (s :: u32) = [4, 3, 2, 1] \<and> le32toh Little (ucast s) = 0x01020304"
proof -
  have "[0..<4] = [0, 1, 2, 3 :: nat]" by (simp add: upt_rec)
  then have b: "be_bytes 4 (0x01020304 :: u32) = [1, 2, 3, 4]" by (simp add: be_bytes_def)
  let ?x = "0x01020304 :: u32" and ?h = "htobe32 Little (ucast (0x01020304 :: u32))" and ?l = "htole32 Little (ucast (0x01020304 :: u32))"
  have "be32toh Little (ucast ?h) = ?x \<and> le32toh Little (ucast ?l) = ?x"
    using byte_order_exchange [OF be16.same_on_hosts [of Little 0 Big] le16.same_on_hosts be32.same_on_hosts le32.same_on_hosts
      be64.same_on_hosts [of _ 0] le64.same_on_hosts]
    by blast
  moreover have "object_bytes Little 4 ?h = [1, 2, 3, 4]" "object_bytes Little 4 ?l = [4, 3, 2, 1]"
    using be32.sent_bytes [of Little ?x] le32.sent_bytes [of Little ?x] by (simp_all add: b)
  ultimately show ?thesis by blast
qed

end
