(* ===== verification/In6_Addr.thy ===== *)
theory In6_Addr
  imports Inet Byte_Order
begin

text \<open>
  IPv6 addresses, \<open>src/include/solcompat/network.h\<close>: the classification macros \<open>IN6_IS_ADDR_*\<close>, the constants
  \<open>in6addr_any\<close> and \<open>in6addr_loopback\<close>, the layout of \<open>sockaddr_storage\<close>, and the numbers of the socket options.

  An address is the list of its 16 bytes. A macro that casts it to \<open>const unsigned int *\<close> loads big-endian words.
\<close>

unbundle bit_operations_syntax

section \<open>Addresses\<close>

type_synonym in6_addr = "u8 list"

definition IN6ADDR_ANY_INIT :: in6_addr where
  "IN6ADDR_ANY_INIT = [0,0,0,0,0,0,0,0,0,0,0,0,0,0,0,0]"

definition IN6ADDR_LOOPBACK_INIT :: in6_addr where
  "IN6ADDR_LOOPBACK_INIT = [0,0,0,0,0,0,0,0,0,0,0,0,0,0,0,1]"

definition in6addr_any :: in6_addr where "in6addr_any = IN6ADDR_ANY_INIT"
definition in6addr_loopback :: in6_addr where "in6addr_loopback = IN6ADDR_LOOPBACK_INIT"

text \<open>\<open>((const unsigned int *)(a))[i]\<close>.\<close>

definition s6_word :: "in6_addr \<Rightarrow> nat \<Rightarrow> u32" where
  "s6_word a i = of_be_bytes (take 4 (drop (4 * i) a))"

definition IN6_IS_ADDR_UNSPECIFIED :: "in6_addr \<Rightarrow> bool" where
  "IN6_IS_ADDR_UNSPECIFIED a \<longleftrightarrow> s6_word a 0 = 0 \<and> s6_word a 1 = 0 \<and> s6_word a 2 = 0 \<and> s6_word a 3 = 0"

definition IN6_IS_ADDR_LOOPBACK :: "in6_addr \<Rightarrow> bool" where
  "IN6_IS_ADDR_LOOPBACK a \<longleftrightarrow> s6_word a 0 = 0 \<and> s6_word a 1 = 0 \<and> s6_word a 2 = 0 \<and> s6_word a 3 = htonl 1"

definition IN6_IS_ADDR_MULTICAST :: "in6_addr \<Rightarrow> bool" where
  "IN6_IS_ADDR_MULTICAST a \<longleftrightarrow> a ! 0 = 0xff"

definition IN6_IS_ADDR_LINKLOCAL :: "in6_addr \<Rightarrow> bool" where
  "IN6_IS_ADDR_LINKLOCAL a \<longleftrightarrow> a ! 0 = 0xfe \<and> a ! 1 AND 0xc0 = 0x80"

definition IN6_IS_ADDR_SITELOCAL :: "in6_addr \<Rightarrow> bool" where
  "IN6_IS_ADDR_SITELOCAL a \<longleftrightarrow> a ! 0 = 0xfe \<and> a ! 1 AND 0xc0 = 0xc0"

definition IN6_IS_ADDR_V4MAPPED :: "in6_addr \<Rightarrow> bool" where
  "IN6_IS_ADDR_V4MAPPED a \<longleftrightarrow> s6_word a 0 = 0 \<and> s6_word a 1 = 0 \<and> s6_word a 2 = htonl 0x0000ffff"

definition IN6_IS_ADDR_V4COMPAT :: "in6_addr \<Rightarrow> bool" where
  "IN6_IS_ADDR_V4COMPAT a \<longleftrightarrow>
     s6_word a 0 = 0 \<and> s6_word a 1 = 0 \<and> s6_word a 2 = 0 \<and> s6_word a 3 \<noteq> 0 \<and> s6_word a 3 \<noteq> htonl 1"

definition IN6_IS_ADDR_MC_NODELOCAL :: "in6_addr \<Rightarrow> bool" where
  "IN6_IS_ADDR_MC_NODELOCAL a \<longleftrightarrow> IN6_IS_ADDR_MULTICAST a \<and> a ! 1 AND 0x0f = 0x01"

definition IN6_IS_ADDR_MC_LINKLOCAL :: "in6_addr \<Rightarrow> bool" where
  "IN6_IS_ADDR_MC_LINKLOCAL a \<longleftrightarrow> IN6_IS_ADDR_MULTICAST a \<and> a ! 1 AND 0x0f = 0x02"

definition IN6_IS_ADDR_MC_SITELOCAL :: "in6_addr \<Rightarrow> bool" where
  "IN6_IS_ADDR_MC_SITELOCAL a \<longleftrightarrow> IN6_IS_ADDR_MULTICAST a \<and> a ! 1 AND 0x0f = 0x05"

definition IN6_IS_ADDR_MC_ORGLOCAL :: "in6_addr \<Rightarrow> bool" where
  "IN6_IS_ADDR_MC_ORGLOCAL a \<longleftrightarrow> IN6_IS_ADDR_MULTICAST a \<and> a ! 1 AND 0x0f = 0x08"

definition IN6_IS_ADDR_MC_GLOBAL :: "in6_addr \<Rightarrow> bool" where
  "IN6_IS_ADDR_MC_GLOBAL a \<longleftrightarrow> IN6_IS_ADDR_MULTICAST a \<and> a ! 1 AND 0x0f = 0x0e"

definition IN6_ARE_ADDR_EQUAL :: "in6_addr \<Rightarrow> in6_addr \<Rightarrow> bool" where
  "IN6_ARE_ADDR_EQUAL a b \<longleftrightarrow> take 16 a = take 16 b"

section \<open>Addresses as numbers\<close>

definition num :: "u8 list \<Rightarrow> nat" where
  "num bs = foldl (\<lambda>n b. n * 256 + unat b) 0 bs"

lemma num_simps [simp]: "num [] = 0" "num (bs @ [b]) = num bs * 256 + unat b"
  by (simp_all add: num_def)

lemma num_append: "num (as @ bs) = num as * 256 ^ length bs + num bs"
proof (induction bs rule: rev_induct)
  case (snoc b bs)
  have "num (as @ bs @ [b]) = num (as @ bs) * 256 + unat b" using num_simps(2) [of "as @ bs" b] by simp
  with snoc show ?case by (simp add: algebra_simps)
qed simp

lemma unat_byte: "unat (b :: u8) < 256"
proof -
  have "unat b < 2 ^ LENGTH(8)" by (rule unsigned_less)
  then show ?thesis by simp
qed

lemma num_less: "num bs < 256 ^ length bs"
proof (induction bs rule: rev_induct)
  case (snoc b bs)
  with unat_byte [of b] show ?case by simp
qed simp

lemma num_inject: "length as = length bs \<Longrightarrow> num as = num bs \<Longrightarrow> as = bs"
proof (induction as arbitrary: bs rule: rev_induct)
  case (snoc a as)
  obtain b bs' where bs: "bs = bs' @ [b]" using snoc.prems(1) by (cases bs rule: rev_cases) auto
  have "(num as * 256 + unat a) mod 256 = (num bs' * 256 + unat b) mod 256"
    "(num as * 256 + unat a) div 256 = (num bs' * 256 + unat b) div 256" using snoc.prems(2) bs by simp_all
  then have "unat a = unat b" "num as = num bs'" using unat_byte [of a] unat_byte [of b] by simp_all
  then show ?case using snoc bs by (simp add: word_unat_eq_iff)
qed simp

lemma of_be_bytes_num: "of_be_bytes bs = (of_nat (num bs) :: 'a :: len word)"
  by (induction bs rule: rev_induct) (simp_all add: of_be_bytes_snoc push_or_byte, simp add: of_be_bytes_def)

lemma s6_word_unat: "length bs = 4 \<Longrightarrow> unat (of_be_bytes bs :: u32) = num bs"
  using num_less [of bs] by (simp add: of_be_bytes_num unat_of_nat)

text \<open>An address is four words of four bytes, and two bytes and a rest.\<close>

lemma address_words:
  assumes "length a = 16"
  shows "num a = unat (s6_word a 0) * 2 ^ 96 + unat (s6_word a 1) * 2 ^ 64 + unat (s6_word a 2) * 2 ^ 32 + unat (s6_word a 3)"
proof -
  have "a = take 4 a @ take 4 (drop 4 a) @ take 4 (drop 8 a) @ take 4 (drop 12 a)"
    using assms append_take_drop_id [of 4 a] append_take_drop_id [of 4 "drop 4 a"] append_take_drop_id [of 4 "drop 8 a"] by simp
  then have "num a = num (take 4 a @ take 4 (drop 4 a) @ take 4 (drop 8 a) @ take 4 (drop 12 a))" by simp
  with assms show ?thesis by (simp add: num_append s6_word_def s6_word_unat)
qed

lemma address_bytes:
  assumes "length a = 16"
  obtains r where "num a = unat (a ! 0) * 2 ^ 120 + unat (a ! 1) * 2 ^ 112 + r" "r < 2 ^ 112"
proof -
  obtain x y z where a: "a = [x, y] @ z" "length z = 14" using assms by (auto simp: numeral_eq_Suc length_Suc_conv)
  have "num [x, y] = unat x * 256 + unat y" using num_simps(2) [of "[x]" y] num_simps(2) [of "[]" x] by simp
  then have "num a = unat (a ! 0) * 2 ^ 120 + unat (a ! 1) * 2 ^ 112 + num z" using a num_append [of "[x, y]" z] by simp
  then show thesis using that num_less [of z] a(2) by simp
qed

lemma byte_top_all:
  "list_all (\<lambda>n. (of_nat n AND 0xc0 = (0x80 :: u8)) = (n div 64 = 2) \<and> (of_nat n AND 0xc0 = (0xc0 :: u8)) = (n div 64 = 3)
     \<and> unat (of_nat n AND 0x0f :: u8) = n mod 16) [0..<256]"
  by code_simp

lemma byte_top_bits:
  "(b :: u8) AND 0xc0 = 0x80 \<longleftrightarrow> unat b div 64 = 2" "b AND 0xc0 = 0xc0 \<longleftrightarrow> unat b div 64 = 3"
  "unat (b AND 0x0f) = unat b mod 16"
  using byte_top_all unat_byte [of b] by (auto simp: list_all_iff dest!: bspec [of _ _ "unat b"])

lemma split_quads:
  assumes "y < 4" "c < (4 :: nat)"
  shows "x * 4 + y = 4 * d + c \<longleftrightarrow> x = d \<and> y = c"
proof
  assume "x * 4 + y = 4 * d + c"
  then have "(x * 4 + y) div 4 = (4 * d + c) div 4" "(x * 4 + y) mod 4 = (4 * d + c) mod 4" by simp_all
  with assms show "x = d \<and> y = c" by simp
qed simp

lemma word_eq_unat: "(w :: u32) = 0 \<longleftrightarrow> unat w = 0" "w = htonl 1 \<longleftrightarrow> unat w = 1" "w = htonl 0xffff \<longleftrightarrow> unat w = 0xffff"
  by (simp_all add: word_unat_eq_iff htonl_def)

lemma unat_word: "unat (w :: u32) < 2 ^ 32"
proof -
  have "unat w < 2 ^ LENGTH(32)" by (rule unsigned_less)
  then show ?thesis by simp
qed

text \<open>The classes that compare whole words.\<close>

lemma word_classes:
  assumes "length a = 16"
  shows "IN6_IS_ADDR_UNSPECIFIED a \<longleftrightarrow> num a = 0"
    and "IN6_IS_ADDR_LOOPBACK a \<longleftrightarrow> num a = 1"
    and "IN6_IS_ADDR_V4COMPAT a \<longleftrightarrow> 1 < num a \<and> num a < 2 ^ 32"
    and "IN6_IS_ADDR_V4MAPPED a \<longleftrightarrow> num a div 2 ^ 32 = 0xffff"
proof -
  note n = address_words [OF assms]
  note b = unat_word [of "s6_word a 0"] unat_word [of "s6_word a 1"] unat_word [of "s6_word a 2"] unat_word [of "s6_word a 3"]
  let ?low = "unat (s6_word a 0) = 0 \<and> unat (s6_word a 1) = 0 \<and> unat (s6_word a 2) = 0"
  have low: "num a < 2 ^ 32 \<longleftrightarrow> ?low"
  proof
    assume "num a < 2 ^ 32"
    then show ?low using n by simp
  qed (use n b in simp)
  have val: "?low \<Longrightarrow> num a = unat (s6_word a 3)" using n by (elim conjE) simp
  show "IN6_IS_ADDR_UNSPECIFIED a \<longleftrightarrow> num a = 0" "IN6_IS_ADDR_LOOPBACK a \<longleftrightarrow> num a = 1"
    using low val by (auto simp: IN6_IS_ADDR_UNSPECIFIED_def IN6_IS_ADDR_LOOPBACK_def word_eq_unat)
  have "num a < 2 ^ 32 \<and> unat (s6_word a 3) \<noteq> 0 \<and> unat (s6_word a 3) \<noteq> 1 \<longleftrightarrow> 1 < num a \<and> num a < 2 ^ 32"
    using low val by auto
  then show "IN6_IS_ADDR_V4COMPAT a \<longleftrightarrow> 1 < num a \<and> num a < 2 ^ 32"
    unfolding IN6_IS_ADDR_V4COMPAT_def word_eq_unat low by blast
  have "num a div 2 ^ 32 = unat (s6_word a 0) * 2 ^ 64 + unat (s6_word a 1) * 2 ^ 32 + unat (s6_word a 2)"
    using n b by simp
  moreover have "p * 2 ^ 64 + q * 2 ^ 32 + r = 0xffff \<longleftrightarrow> p = 0 \<and> q = 0 \<and> r = 0xffff" for p q r :: nat
    by (cases "p = 0"; cases "q = 0") simp_all
  ultimately show "IN6_IS_ADDR_V4MAPPED a \<longleftrightarrow> num a div 2 ^ 32 = 0xffff"
    by (simp only: IN6_IS_ADDR_V4MAPPED_def word_eq_unat)
qed

text \<open>The classes that test the first two bytes.\<close>

lemma byte_classes:
  assumes "length a = 16"
  shows "IN6_IS_ADDR_MULTICAST a \<longleftrightarrow> num a div 2 ^ 120 = 0xff"
    and "IN6_IS_ADDR_LINKLOCAL a \<longleftrightarrow> num a div 2 ^ 118 = 0x3fa"
    and "IN6_IS_ADDR_SITELOCAL a \<longleftrightarrow> num a div 2 ^ 118 = 0x3fb"
    and "unat (a ! 1 AND 0x0f) = num a div 2 ^ 112 mod 16"
proof -
  obtain r where n: "num a = unat (a ! 0) * 2 ^ 120 + unat (a ! 1) * 2 ^ 112 + r" "r < 2 ^ 112"
    by (rule address_bytes [OF assms])
  note b = unat_byte [of "a ! 0"] unat_byte [of "a ! 1"]
  have "num a div 2 ^ 112 = unat (a ! 0) * 256 + unat (a ! 1)" using n by simp
  moreover have "num a div 2 ^ 120 = num a div 2 ^ 112 div 256" "num a div 2 ^ 118 = num a div 2 ^ 112 div 64"
    by (simp_all add: div_mult2_eq [symmetric])
  ultimately have d: "num a div 2 ^ 112 = unat (a ! 0) * 256 + unat (a ! 1)" "num a div 2 ^ 120 = unat (a ! 0)"
    "num a div 2 ^ 118 = unat (a ! 0) * 4 + unat (a ! 1) div 64" using b by simp_all
  show "IN6_IS_ADDR_MULTICAST a \<longleftrightarrow> num a div 2 ^ 120 = 0xff"
    unfolding IN6_IS_ADDR_MULTICAST_def d by (simp add: word_unat_eq_iff)
  have quad: "unat (a ! 1) div 64 < 4" using b(2) by simp
  have split: "unat (a ! 0) * 4 + unat (a ! 1) div 64 = 4 * 0xfe + c \<longleftrightarrow> unat (a ! 0) = 0xfe \<and> unat (a ! 1) div 64 = c"
    if "c < 4" for c using split_quads [OF quad that] by blast
  show "IN6_IS_ADDR_LINKLOCAL a \<longleftrightarrow> num a div 2 ^ 118 = 0x3fa" "IN6_IS_ADDR_SITELOCAL a \<longleftrightarrow> num a div 2 ^ 118 = 0x3fb"
    unfolding IN6_IS_ADDR_LINKLOCAL_def IN6_IS_ADDR_SITELOCAL_def d byte_top_bits using split [of 2] split [of 3] by (simp_all add: word_unat_eq_iff)
  have "unat (a ! 0) * 256 + unat (a ! 1) = unat (a ! 1) + 16 * (unat (a ! 0) * 16)" by simp
  then show "unat (a ! 1 AND 0x0f) = num a div 2 ^ 112 mod 16" by (simp only: byte_top_bits d mod_mult_self2)
qed

lemma equal_is_num_eq:
  "length a = 16 \<Longrightarrow> length b = 16 \<Longrightarrow> IN6_ARE_ADDR_EQUAL a b \<longleftrightarrow> num a = num b"
  using num_inject [of a b] by (auto simp: IN6_ARE_ADDR_EQUAL_def)

section \<open>Socket addresses and options\<close>

text \<open>\<open>sockaddr_storage\<close>: the sizes of its fields in bytes for a family of \<open>fam\<close> bytes.\<close>

definition SS_MAXSIZE :: nat where "SS_MAXSIZE = 128"
definition SS_ALIGNSIZE :: nat where "SS_ALIGNSIZE = 8"
definition SS_PAD1SIZE :: "nat \<Rightarrow> nat" where "SS_PAD1SIZE fam = SS_ALIGNSIZE - fam"
definition SS_PAD2SIZE :: "nat \<Rightarrow> nat" where "SS_PAD2SIZE fam = SS_MAXSIZE - fam - SS_PAD1SIZE fam - SS_ALIGNSIZE"

definition sockaddr_storage :: "nat \<Rightarrow> nat list" where
  "sockaddr_storage fam = [fam, SS_PAD1SIZE fam, 8, SS_PAD2SIZE fam]"

lemma sockaddr_storage_layout:
  "1 \<le> fam \<Longrightarrow> fam \<le> 8 \<Longrightarrow> sum_list (sockaddr_storage fam) = 128 \<and> sum_list (take 2 (sockaddr_storage fam)) = 8"
  by (simp add: sockaddr_storage_def SS_PAD1SIZE_def SS_PAD2SIZE_def SS_MAXSIZE_def SS_ALIGNSIZE_def)

text \<open>The options for source-specific multicast, all at level \<open>IPPROTO_IP\<close>.\<close>

definition IP_ADD_SOURCE_MEMBERSHIP :: int where "IP_ADD_SOURCE_MEMBERSHIP = 39"
definition IP_DROP_SOURCE_MEMBERSHIP :: int where "IP_DROP_SOURCE_MEMBERSHIP = 40"
definition IP_BLOCK_SOURCE :: int where "IP_BLOCK_SOURCE = 41"
definition IP_UNBLOCK_SOURCE :: int where "IP_UNBLOCK_SOURCE = 42"
definition MCAST_JOIN_GROUP :: int where "MCAST_JOIN_GROUP = 41"
definition MCAST_LEAVE_GROUP :: int where "MCAST_LEAVE_GROUP = 42"
definition MCAST_BLOCK_SOURCE :: int where "MCAST_BLOCK_SOURCE = 43"
definition MCAST_UNBLOCK_SOURCE :: int where "MCAST_UNBLOCK_SOURCE = 44"
definition MCAST_JOIN_SOURCE_GROUP :: int where "MCAST_JOIN_SOURCE_GROUP = 46"
definition MCAST_LEAVE_SOURCE_GROUP :: int where "MCAST_LEAVE_SOURCE_GROUP = 47"

text \<open>Joining a group has the number of blocking a source, and leaving one that of unblocking.\<close>

lemma multicast_options_collide: "MCAST_JOIN_GROUP = IP_BLOCK_SOURCE" "MCAST_LEAVE_GROUP = IP_UNBLOCK_SOURCE"
  by (simp_all add: MCAST_JOIN_GROUP_def IP_BLOCK_SOURCE_def MCAST_LEAVE_GROUP_def IP_UNBLOCK_SOURCE_def)

section \<open>Properties\<close>

text \<open>
  C16. The classification of IPv6 addresses is the one of the address architecture: taking the address as a 128-bit
  number, \<^verbatim>\<open>UNSPECIFIED\<close> and \<^verbatim>\<open>LOOPBACK\<close> are 0 and 1, \<^verbatim>\<open>V4COMPAT\<close> the other numbers below \<open>2 ^ 32\<close>, \<^verbatim>\<open>V4MAPPED\<close> the prefix
  \<open>::ffff:0:0/96\<close>, \<^verbatim>\<open>MULTICAST\<close> \<open>ff00::/8\<close> with the scope in the fourth hexadecimal digit, \<^verbatim>\<open>LINKLOCAL\<close>
  \<open>fe80::/10\<close> and \<^verbatim>\<open>SITELOCAL\<close> \<open>fec0::/10\<close>; \<^verbatim>\<open>IN6_ARE_ADDR_EQUAL\<close> is equality of the numbers.
\<close>

theorem in6_classification:
  assumes "length a = 16" and "length b = 16"
  shows "(IN6_IS_ADDR_UNSPECIFIED a \<longleftrightarrow> num a = 0) \<and> (IN6_IS_ADDR_LOOPBACK a \<longleftrightarrow> num a = 1)
    \<and> (IN6_IS_ADDR_V4COMPAT a \<longleftrightarrow> 1 < num a \<and> num a < 2 ^ 32) \<and> (IN6_IS_ADDR_V4MAPPED a \<longleftrightarrow> num a div 2 ^ 32 = 0xffff)
    \<and> (IN6_IS_ADDR_MULTICAST a \<longleftrightarrow> num a div 2 ^ 120 = 0xff)
    \<and> (IN6_IS_ADDR_MC_NODELOCAL a \<longleftrightarrow> num a div 2 ^ 120 = 0xff \<and> num a div 2 ^ 112 mod 16 = 1)
    \<and> (IN6_IS_ADDR_MC_LINKLOCAL a \<longleftrightarrow> num a div 2 ^ 120 = 0xff \<and> num a div 2 ^ 112 mod 16 = 2)
    \<and> (IN6_IS_ADDR_MC_SITELOCAL a \<longleftrightarrow> num a div 2 ^ 120 = 0xff \<and> num a div 2 ^ 112 mod 16 = 5)
    \<and> (IN6_IS_ADDR_MC_ORGLOCAL a \<longleftrightarrow> num a div 2 ^ 120 = 0xff \<and> num a div 2 ^ 112 mod 16 = 8)
    \<and> (IN6_IS_ADDR_MC_GLOBAL a \<longleftrightarrow> num a div 2 ^ 120 = 0xff \<and> num a div 2 ^ 112 mod 16 = 14)
    \<and> (IN6_IS_ADDR_LINKLOCAL a \<longleftrightarrow> num a div 2 ^ 118 = 0x3fa) \<and> (IN6_IS_ADDR_SITELOCAL a \<longleftrightarrow> num a div 2 ^ 118 = 0x3fb)
    \<and> (IN6_ARE_ADDR_EQUAL a b \<longleftrightarrow> num a = num b)"
proof -
  have scope: "a ! 1 AND 0x0f = c \<longleftrightarrow> num a div 2 ^ 112 mod 16 = unat c" for c
    using byte_classes(4) [OF assms(1)] by (simp only: word_unat_eq_iff)
  show ?thesis
    unfolding IN6_IS_ADDR_MC_NODELOCAL_def IN6_IS_ADDR_MC_LINKLOCAL_def IN6_IS_ADDR_MC_SITELOCAL_def IN6_IS_ADDR_MC_ORGLOCAL_def
      IN6_IS_ADDR_MC_GLOBAL_def word_classes [OF assms(1)] byte_classes(1-3) [OF assms(1)] scope equal_is_num_eq [OF assms]
    by simp
qed

theorem in6_classification_witness:
  "IN6_IS_ADDR_LOOPBACK in6addr_loopback \<and> num in6addr_loopback = 1
     \<and> \<not> IN6_ARE_ADDR_EQUAL in6addr_loopback in6addr_any"
proof -
  have n: "num in6addr_loopback = 1" "num in6addr_any = 0"
    by (simp_all add: num_def in6addr_loopback_def in6addr_any_def IN6ADDR_LOOPBACK_INIT_def IN6ADDR_ANY_INIT_def)
  have l: "length in6addr_loopback = 16" "length in6addr_any = 16"
    by (simp_all add: in6addr_loopback_def in6addr_any_def IN6ADDR_LOOPBACK_INIT_def IN6ADDR_ANY_INIT_def)
  show ?thesis using in6_classification [OF l] n by simp
qed

text \<open>The two constants are the addresses that \<^verbatim>\<open>inet_pton\<close> reads from \<open>::1\<close> and \<open>::\<close>.\<close>

lemma in6addr_texts:
  "ip6_text (words_of_bytes in6addr_loopback) = ''::1''" "ip6_text (words_of_bytes in6addr_any) = ''::''"
  by code_simp+

lemma in6addr_parsed:
  assumes "length out = 16"
  shows "inet_pton aton AF_INET6 ''::1'' out = Some (1, None, in6addr_loopback)"
    and "inet_pton aton AF_INET6 ''::'' out = Some (1, None, in6addr_any)"
proof -
  have l: "length in6addr_loopback = 16" "length in6addr_any = 16"
    by (simp_all add: in6addr_loopback_def in6addr_any_def IN6ADDR_LOOPBACK_INIT_def IN6ADDR_ANY_INIT_def)
  show "inet_pton aton AF_INET6 ''::1'' out = Some (1, None, in6addr_loopback)"
    "inet_pton aton AF_INET6 ''::'' out = Some (1, None, in6addr_any)"
    using pton_ip6_text [of "words_of_bytes in6addr_loopback" out aton] pton_ip6_text [of "words_of_bytes in6addr_any" out aton]
      words_of_bytes_bound assms l
    by (simp_all add: in6addr_texts bytes_of_words_of_bytes)
qed

end
