(* ===== verification/Int_Types.thy ===== *)
theory Int_Types
  imports Prelude
begin

text \<open>
  Integer types and limits: \<open>src/sysroot-overlay/usr/include/sys/int_types.h\<close> and \<open>stdint.h\<close>.

  A type is one of the integer types of C at the widths of the target (ILP32, plain \<open>char\<close> signed). A limit is
  the constant expression its macro expands to, evaluated with the rules of C: a literal has the first
  type of its list that holds it, operands are promoted and converted to a common type, and a signed result out of
  range is undefined (\<open>None\<close>).
\<close>

section \<open>Integer types of C\<close>

datatype ctype = TChar | TSChar | TUChar | TShort | TUShort | TInt | TUInt | TLong | TULong | TLLong | TULLong

fun width :: "ctype \<Rightarrow> nat" where
  "width TChar = 8" | "width TSChar = 8" | "width TUChar = 8" | "width TShort = 16" | "width TUShort = 16"
| "width TInt = 32" | "width TUInt = 32" | "width TLong = 32" | "width TULong = 32" | "width TLLong = 64" | "width TULLong = 64"

definition is_unsigned :: "ctype \<Rightarrow> bool" where
  "is_unsigned t \<longleftrightarrow> t \<in> {TUChar, TUShort, TUInt, TULong, TULLong}"

definition least :: "ctype \<Rightarrow> int" where
  "least t = (if is_unsigned t then 0 else - (2 ^ (width t - 1)))"

definition greatest :: "ctype \<Rightarrow> int" where
  "greatest t = (if is_unsigned t then 2 ^ width t - 1 else 2 ^ (width t - 1) - 1)"

definition fits :: "ctype \<Rightarrow> int \<Rightarrow> bool" where
  "fits t n \<longleftrightarrow> least t \<le> n \<and> n \<le> greatest t"

definition promote :: "ctype \<Rightarrow> ctype" where
  "promote t = (if width t < 32 then TInt else t)"

text \<open>The common type of two promoted operands; \<open>long\<close> does not hold every \<open>unsigned int\<close>.\<close>

definition common :: "ctype \<Rightarrow> ctype \<Rightarrow> ctype" where
  "common a b = (let s = {promote a, promote b} in
     if TULLong \<in> s then TULLong else if TLLong \<in> s then TLLong
     else if TULong \<in> s \<or> TLong \<in> s \<and> TUInt \<in> s then TULong
     else if TLong \<in> s then TLong else if TUInt \<in> s then TUInt else TInt)"

datatype suffix = Suf_none | Suf_U | Suf_LL | Suf_ULL

definition literal :: "suffix \<Rightarrow> int \<Rightarrow> (ctype \<times> int) option" where
  "literal x n = map_option (\<lambda>t. (t, n)) (List.find (\<lambda>t. fits t n) (case x of
     Suf_none \<Rightarrow> [TInt, TLong, TLLong] | Suf_U \<Rightarrow> [TUInt, TULong, TULLong] | Suf_LL \<Rightarrow> [TLLong] | Suf_ULL \<Rightarrow> [TULLong]))"

text \<open>A value converted to an unsigned type wraps; one out of the range of a signed type is undefined.\<close>

definition convert :: "ctype \<Rightarrow> int \<Rightarrow> (ctype \<times> int) option" where
  "convert t n = (if is_unsigned t then Some (t, n mod 2 ^ width t) else if fits t n then Some (t, n) else None)"

datatype cexpr = Lit suffix int | Neg cexpr | Sub cexpr cexpr | Less cexpr cexpr

fun eval :: "cexpr \<Rightarrow> (ctype \<times> int) option" where
  "eval (Lit x n) = literal x n"
| "eval (Neg e) = do { (t, n) \<leftarrow> eval e; convert (promote t) (- n) }"
| "eval (Sub e f) = do { (t, m) \<leftarrow> eval e; (u, n) \<leftarrow> eval f;
     (_, m) \<leftarrow> convert (common t u) m; (_, n) \<leftarrow> convert (common t u) n; convert (common t u) (m - n) }"
| "eval (Less e f) = do { (t, m) \<leftarrow> eval e; (u, n) \<leftarrow> eval f;
     (_, m) \<leftarrow> convert (common t u) m; (_, n) \<leftarrow> convert (common t u) n; Some (TInt, if m < n then 1 else 0) }"

section \<open>The types\<close>

definition int8_t :: ctype where "int8_t = TSChar"
definition int16_t :: ctype where "int16_t = TShort"
definition int32_t :: ctype where "int32_t = TInt"
definition int64_t :: ctype where "int64_t = TLLong"
definition uint8_t :: ctype where "uint8_t = TUChar"
definition uint16_t :: ctype where "uint16_t = TUShort"
definition uint32_t :: ctype where "uint32_t = TUInt"
definition uint64_t :: ctype where "uint64_t = TULLong"
definition int_least8_t :: ctype where "int_least8_t = TChar"
definition int_least16_t :: ctype where "int_least16_t = int16_t"
definition int_least32_t :: ctype where "int_least32_t = int32_t"
definition int_least64_t :: ctype where "int_least64_t = int64_t"
definition uint_least8_t :: ctype where "uint_least8_t = uint8_t"
definition uint_least16_t :: ctype where "uint_least16_t = uint16_t"
definition uint_least32_t :: ctype where "uint_least32_t = uint32_t"
definition uint_least64_t :: ctype where "uint_least64_t = uint64_t"
definition intmax_t :: ctype where "intmax_t = TLLong"
definition uintmax_t :: ctype where "uintmax_t = TULLong"
definition intptr_t :: ctype where "intptr_t = TInt"
definition uintptr_t :: ctype where "uintptr_t = TUInt"

definition int_fast8_t :: ctype where "int_fast8_t = TInt"
definition int_fast16_t :: ctype where "int_fast16_t = TInt"
definition int_fast32_t :: ctype where "int_fast32_t = TInt"
definition int_fast64_t :: ctype where "int_fast64_t = TLLong"
definition uint_fast8_t :: ctype where "uint_fast8_t = TUInt"
definition uint_fast16_t :: ctype where "uint_fast16_t = TUInt"
definition uint_fast32_t :: ctype where "uint_fast32_t = TUInt"
definition uint_fast64_t :: ctype where "uint_fast64_t = TULLong"

lemmas type_defs = int8_t_def int16_t_def int32_t_def int64_t_def uint8_t_def uint16_t_def uint32_t_def uint64_t_def
  int_least8_t_def int_least16_t_def int_least32_t_def int_least64_t_def
  uint_least8_t_def uint_least16_t_def uint_least32_t_def uint_least64_t_def
  int_fast8_t_def int_fast16_t_def int_fast32_t_def int_fast64_t_def
  uint_fast8_t_def uint_fast16_t_def uint_fast32_t_def uint_fast64_t_def
  intmax_t_def uintmax_t_def intptr_t_def uintptr_t_def

section \<open>The limits\<close>

definition INT8_MIN :: cexpr where "INT8_MIN = Neg (Lit Suf_none 128)"
definition INT8_MAX :: cexpr where "INT8_MAX = Lit Suf_none 127"
definition UINT8_MAX :: cexpr where "UINT8_MAX = Lit Suf_U 255"
definition INT16_MIN :: cexpr where "INT16_MIN = Neg (Lit Suf_none 32768)"
definition INT16_MAX :: cexpr where "INT16_MAX = Lit Suf_none 32767"
definition UINT16_MAX :: cexpr where "UINT16_MAX = Lit Suf_U 65535"
definition INT32_MIN :: cexpr where "INT32_MIN = Sub (Neg (Lit Suf_none 2147483647)) (Lit Suf_none 1)"
definition INT32_MAX :: cexpr where "INT32_MAX = Lit Suf_none 2147483647"
definition UINT32_MAX :: cexpr where "UINT32_MAX = Lit Suf_U 4294967295"
definition INT64_MIN :: cexpr where "INT64_MIN = Sub (Neg (Lit Suf_LL 9223372036854775807)) (Lit Suf_LL 1)"
definition INT64_MAX :: cexpr where "INT64_MAX = Lit Suf_LL 9223372036854775807"
definition UINT64_MAX :: cexpr where "UINT64_MAX = Lit Suf_ULL 18446744073709551615"

text \<open>Each type with its limits; the least value of an unsigned type has no macro and is 0.\<close>

definition exact_limits :: "(ctype \<times> cexpr option \<times> cexpr) list" where
  "exact_limits = [(int8_t, Some INT8_MIN, INT8_MAX), (int16_t, Some INT16_MIN, INT16_MAX), (int32_t, Some INT32_MIN, INT32_MAX),
     (int64_t, Some INT64_MIN, INT64_MAX), (uint8_t, None, UINT8_MAX), (uint16_t, None, UINT16_MAX),
     (uint32_t, None, UINT32_MAX), (uint64_t, None, UINT64_MAX)]"

definition least_limits :: "(ctype \<times> cexpr option \<times> cexpr) list" where
  "least_limits = [(int_least8_t, Some INT8_MIN, INT8_MAX), (int_least16_t, Some INT16_MIN, INT16_MAX),
     (int_least32_t, Some INT32_MIN, INT32_MAX), (int_least64_t, Some INT64_MIN, INT64_MAX), (uint_least8_t, None, UINT8_MAX),
     (uint_least16_t, None, UINT16_MAX), (uint_least32_t, None, UINT32_MAX), (uint_least64_t, None, UINT64_MAX)]"

definition fast_limits :: "(ctype \<times> cexpr option \<times> cexpr) list" where
  "fast_limits = [(int_fast8_t, Some INT32_MIN, INT32_MAX), (int_fast16_t, Some INT32_MIN, INT32_MAX),
     (int_fast32_t, Some INT32_MIN, INT32_MAX), (int_fast64_t, Some INT64_MIN, INT64_MAX), (uint_fast8_t, None, UINT32_MAX),
     (uint_fast16_t, None, UINT32_MAX), (uint_fast32_t, None, UINT32_MAX), (uint_fast64_t, None, UINT64_MAX)]"

definition pointer_limits :: "(ctype \<times> cexpr option \<times> cexpr) list" where
  "pointer_limits = [(intptr_t, Some INT32_MIN, INT32_MAX), (uintptr_t, None, UINT32_MAX)]"

definition max_limits :: "(ctype \<times> cexpr option \<times> cexpr) list" where
  "max_limits = [(intmax_t, Some INT64_MIN, INT64_MAX), (uintmax_t, None, UINT64_MAX)]"

definition INT8_C :: "int \<Rightarrow> cexpr" where "INT8_C x = Lit Suf_none x"
definition UINT8_C :: "int \<Rightarrow> cexpr" where "UINT8_C x = Lit Suf_U x"
definition INT16_C :: "int \<Rightarrow> cexpr" where "INT16_C x = Lit Suf_none x"
definition UINT16_C :: "int \<Rightarrow> cexpr" where "UINT16_C x = Lit Suf_U x"
definition INT32_C :: "int \<Rightarrow> cexpr" where "INT32_C x = Lit Suf_none x"
definition UINT32_C :: "int \<Rightarrow> cexpr" where "UINT32_C x = Lit Suf_U x"
definition INT64_C :: "int \<Rightarrow> cexpr" where "INT64_C x = Lit Suf_LL x"
definition UINT64_C :: "int \<Rightarrow> cexpr" where "UINT64_C x = Lit Suf_ULL x"
definition INTMAX_C :: "int \<Rightarrow> cexpr" where "INTMAX_C x = Lit Suf_LL x"
definition UINTMAX_C :: "int \<Rightarrow> cexpr" where "UINTMAX_C x = Lit Suf_ULL x"

section \<open>Properties\<close>

definition value_of :: "cexpr \<Rightarrow> int option" where
  "value_of e = map_option snd (eval e)"

text \<open>The limits of a type are the ends of its range.\<close>

definition limits_ok :: "ctype \<times> cexpr option \<times> cexpr \<Rightarrow> bool" where
  "limits_ok r = (case r of (t, lo, hi) \<Rightarrow>
     (case lo of None \<Rightarrow> least t = 0 | Some e \<Rightarrow> value_of e = Some (least t)) \<and> value_of hi = Some (greatest t))"

text \<open>The limits have the type of the promoted type.\<close>

definition limits_typed :: "ctype \<times> cexpr option \<times> cexpr \<Rightarrow> bool" where
  "limits_typed r = (case r of (t, lo, hi) \<Rightarrow>
     (case lo of None \<Rightarrow> True | Some e \<Rightarrow> map_option fst (eval e) = Some (promote t)) \<and> map_option fst (eval hi) = Some (promote t))"

text \<open>
  The limits of \<^verbatim>\<open>stdint.h\<close> are those of the types: for every exact, least, fast, pointer and greatest
  integer type the constant expression of each limit is evaluated without overflow and is the end of the range of the
  type that \<^verbatim>\<open>sys/int_types.h\<close> or \<^verbatim>\<open>stdint.h\<close> gives it, every type is at least as wide as its name
  says, and every limit has the promoted type except those of the unsigned types of 8 and 16 bits.
\<close>

theorem stdint_limits:
  "list_all limits_ok (exact_limits @ least_limits @ fast_limits @ pointer_limits @ max_limits)
   \<and> map width (map fst exact_limits) = [8, 16, 32, 64, 8, 16, 32, 64] \<and> map width (map fst least_limits) = [8, 16, 32, 64, 8, 16, 32, 64]
   \<and> list_all2 (\<le>) [8, 16, 32, 64, 8, 16, 32, 64] (map width (map fst fast_limits))
   \<and> map fst (filter (\<lambda>r. \<not> limits_typed r) (exact_limits @ least_limits @ fast_limits @ pointer_limits @ max_limits))
       = [uint8_t, uint16_t, uint_least8_t, uint_least16_t]"
  by code_simp

text \<open>
  The 8- and 16-bit limits and constants are \<open>unsigned int\<close> where they should have type \<open>int\<close>, so that a
  comparison with a negative number is unsigned.
\<close>

lemma uint8_max_compares_unsigned:
  "eval (Less (Neg (Lit Suf_none 1)) UINT8_MAX) = Some (TInt, 0)" "eval (Less (Neg (Lit Suf_none 1)) (UINT8_C 255)) = Some (TInt, 0)"
  "eval (Less (Neg (Lit Suf_none 1)) INT16_MAX) = Some (TInt, 1)"
  by code_simp+

lemma constants_typed:
  "fits TInt x \<Longrightarrow> eval (INT8_C x) = Some (TInt, x)" "fits TInt x \<Longrightarrow> eval (INT16_C x) = Some (TInt, x)"
  "fits int32_t x \<Longrightarrow> eval (INT32_C x) = Some (int32_t, x)" "fits int64_t x \<Longrightarrow> eval (INT64_C x) = Some (int64_t, x)"
  "fits uint32_t x \<Longrightarrow> eval (UINT32_C x) = Some (uint32_t, x)" "fits uint64_t x \<Longrightarrow> eval (UINT64_C x) = Some (uint64_t, x)"
  "fits intmax_t x \<Longrightarrow> eval (INTMAX_C x) = Some (intmax_t, x)" "fits uintmax_t x \<Longrightarrow> eval (UINTMAX_C x) = Some (uintmax_t, x)"
  by (simp_all add: INT8_C_def INT16_C_def INT32_C_def INT64_C_def UINT32_C_def UINT64_C_def INTMAX_C_def UINTMAX_C_def
      type_defs literal_def)

end
