(* ===== verification/Spec2Isabelle.thy ===== *)
theory Spec2Isabelle
  imports Getopt Resolver Qsort Environ Entropy Atomic_Ops Cxa_Atexit Clock Fenv Memstream At_Funcs Stdio Process Filesystem Alloc Wide_Char
    Stubs Pty Messages Runtime Numeric Barriers Stripe_Weak C11_Atomics In6_Addr Int_Types
begin

text \<open>
  \<^bold>\<open>libsolcompat, a compatibility library for Solaris 7.\<close>

  The library supplies the C99, POSIX 2001/2008, BSD and GNU interfaces that the C library of Solaris 7
  (SPARC, 32 bits) lacks. Each file of \<open>src/src/\<close> provides a family of functions; programs call them
  directly, through macros of \<open>src/include/solcompat/\<close>, or by symbol interposition. The files share no
  state except through the few calls among them: everything that formats goes through
  \<open>solcompat_vsnprintf\<close> of \<open>snprintf.c\<close>, paths are built with it and with \<open>strlcpy\<close> of \<open>string.c\<close>, and
  \<open>filesystem.c\<close> repeats the directory walk of \<open>at_funcs.c\<close>.

  \<^bold>\<open>Modelling.\<close> A pure routine is a function. C objects are lists with checked accesses (\<open>Prelude\<close>: \<open>rd\<close>,
  \<open>wr\<close>, \<open>memcpy\<close>); \<open>None\<close> is undefined behaviour, so a theorem that concludes \<open>= Some \<dots>\<close> states memory
  safety too. A possibly null pointer is an \<open>'a ptr\<close>. Sizes computed from a caller's sizes wrap at 32 bits
  (\<open>sz\<close>, \<open>u32\<close>); \<open>char\<close> is signed; \<open>long\<close> and \<open>time_t\<close> have 32 bits. Errors are values of \<open>errno\<close> in an \<open>option\<close>
  or a sum. State is passed in records. The operating system and the old C library are parameters:
  answers to calls (as values, scripts or sequences indexed by the call), the formatter \<open>vsprintf\<close>, the
  allocator, the clock, \<open>fork\<close>, \<open>execve\<close>. What a theorem needs of them is a named hypothesis with a witness.

  \<^bold>\<open>Loops.\<close> Loops over data are structural or have a measure. The loops whose end depends on the system are
  partial functions where \<open>None\<close> is a run that never returns: the read loops of \<open>random.c\<close> (\<open>read_all\<close>,
  \<open>egd_read\<close>), which retry an interrupted call without bound, the rejection loop of \<open>arc4random_uniform\<close>
  (\<open>uniform_loop\<close>), the write loop of \<open>dprintf\<close> (\<open>dprintf_loop\<close>), and \<open>poll_until\<close>, which the timed locks of
  \<open>process.c\<close> and \<open>sem_timedwait\<close> share. Their theorems state that they return, under a fairness hypothesis
  on the answers, an endless stream for \<open>random.c\<close>. No definition of library code uses fuel; the loop of a client
  that calls a parser until it answers -1 (\<open>parse_loop\<close> of \<open>Getopt\<close>, not code of the library) does, and
  \<open>getopt_loops_terminate\<close> shows how much is enough.

  \<^bold>\<open>Theories.\<close>

  \<^item> \<open>Prelude\<close>: machine types, checked memory, C strings, error numbers, shared lemmas.
  \<^item> \<open>String_Ext\<close> (\<open>string.c\<close>): \<open>strlcpy\<close>, \<open>strlcat\<close>, \<open>strnlen\<close>, \<open>strndup\<close>, \<open>memmem\<close>, \<open>strsep\<close>, \<open>stpcpy\<close>,
    \<open>stpncpy\<close>, \<open>strcasestr\<close> and others. Locale \<open>bounded_writer\<close> states the contract of a truncating copy;
    \<open>strlcpy\<close> and \<open>snprintf("%s")\<close> interpret it. \<open>memmem\<close> finds the first occurrence.
  \<^item> \<open>Snprintf\<close> (\<open>snprintf.c\<close>): the rewriting of C99 length modifiers (\<open>preprocess_fmt\<close>), the growing work
    buffer, and the truncating copy. The rewriting is proved against a grammar of directives; \<open>vsnprintf\<close>
    meets C99 below 8192 bytes; it fails exactly when the text outgrows the work buffer it was given.
  \<^item> \<open>Getopt\<close> (\<open>getopt_long.c\<close>): the parsing state, \<open>getopt\<close>, \<open>getopt_long\<close>, \<open>getopt_long_only\<close>. A command
    line printed from a list of options is parsed back; the loops terminate; long options resolve as
    the exact or unique prefix match. Locale \<open>option_parser\<close>.
  \<^item> \<open>Inet\<close> (\<open>network.c\<close>): \<open>inet_ntop\<close> and \<open>inet_pton\<close>; IPv6 text round-trips and is canonical.
  \<^item> \<open>Byte_Order\<close> (\<open>endian.h\<close>, \<open>sys/byteorder.h\<close>, \<open>byteswap.h\<close>): conversions between host and wire order (locale
    \<open>wire_order\<close>, interpreted for each width and order), exact between hosts of any order.
  \<^item> \<open>In6_Addr\<close> (\<open>network.h\<close>): the classification of IPv6 addresses as prefixes of 128-bit numbers, the constants
    \<open>in6addr_any\<close> and \<open>in6addr_loopback\<close> as \<open>inet_pton\<close> reads them, socket address storage.
  \<^item> \<open>Int_Types\<close> (\<open>sys/int_types.h\<close>, \<open>stdint.h\<close>): the integer types and their limits as constant expressions of C.
  \<^item> \<open>Resolver\<close> (\<open>network.c\<close>): \<open>getaddrinfo\<close>, \<open>getnameinfo\<close>, interface queries, \<open>accept4\<close>; no allocation leaks
    (locale \<open>owned_list\<close>).
  \<^item> \<open>Qsort\<close> (\<open>stdlib.c\<close>): \<open>qsort_r\<close> on bytes sorts and permutes whole elements inside its array.
  \<^item> \<open>Environ\<close> (\<open>stdlib.c\<close>, \<open>clock.c\<close>): the environment (locales \<open>env_store\<close>, \<open>putenv_provider\<close>), \<open>mkdtemp\<close>,
    and \<open>timegm\<close>, which restores the variable it borrows.
  \<^item> \<open>Entropy\<close> (\<open>random.c\<close>): the entropy daemon client, the choice of a source, \<open>getentropy\<close>, \<open>getrandom\<close>,
    \<open>arc4random\<close>. Success means genuine bytes; the state invariant holds; the bounded draw has no bias
    (locale \<open>entropy_source\<close>).
  \<^item> \<open>Atomic_Ops\<close> (\<open>atomic_ops.c\<close>): every operation as a list of memory accesses; threads take a stripe
    lock and interleave access by access (\<open>inductive step\<close>). Mutual exclusion, linearizability of
    operations that stay in their stripe, possible completion, and the values returned.
  \<^item> \<open>Barriers\<close> (\<open>atomic_ops.c\<close>): the memory barriers on a machine with store buffers, in total and partial store
    order (\<open>inductive mstep\<close>). Store barriers order the stores of any program; publication with
    \<open>membar_producer\<close> and \<open>membar_consumer\<close> is safe; \<open>__sync_synchronize\<close> is a full barrier on V9 and not on V8.
  \<^item> \<open>Stripe_Weak\<close> (\<open>atomic_ops.c\<close>): the operations of \<open>Atomic_Ops\<close> on processors with store buffers
    (\<open>inductive wstep\<close>). A simulation by \<open>step\<close> shows them linearizable in total store order and, with the barrier of
    \<open>sst_stripe_unlock\<close>, in partial store order; without it an update can be lost (\<open>unlock_without_barrier\<close>).
  \<^item> \<open>C11_Atomics\<close> (\<open>stdatomic.h\<close>): the macros over \<open>Atomic_Ops\<close>; a counter shared by threads loses nothing.
  \<^item> \<open>Cxa_Atexit\<close> (\<open>cxa_atexit.c\<close>): destructors run once, in reverse order, and which of them run, those
    registered by a running destructor included (locale \<open>destructors\<close>).
  \<^item> \<open>Clock\<close> (\<open>clock.c\<close>, \<open>poll.c\<close>): clocks, \<open>clock_nanosleep\<close>, \<open>ppoll\<close>, \<open>pselect\<close>.
  \<^item> \<open>Fenv\<close> (\<open>fenv.c\<close>): the floating-point environment on the status register; flag operations refine
    operations on a set of flags (locale \<open>exception_flags\<close>).
  \<^item> \<open>Memstream\<close> (\<open>memstream.c\<close>): \<open>fmemopen\<close>, \<open>open_memstream\<close>; what is written is found in the caller's object.
  \<^item> \<open>At_Funcs\<close> (\<open>at_funcs.c\<close>): the directory-relative calls act in the designated directory and restore
    the working directory, the descriptors and the mutex on every path (locale \<open>at_function\<close>, one
    interpretation per function), except that a failing change back strands the process
    (\<open>at_leave_stranded\<close>); \<open>renameat\<close> and \<open>linkat\<close> build full names.
  \<^item> \<open>Stdio\<close> (\<open>stdio.c\<close>): \<open>asprintf\<close> and \<open>dprintf\<close> over \<open>Snprintf\<close>, \<open>getdelim\<close>, \<open>preadv\<close> and \<open>pwritev\<close>, \<open>vscanf\<close>.
  \<^item> \<open>Process\<close> (\<open>process.c\<close>): descriptor flags, \<open>daemon\<close>, \<open>posix_spawn\<close> and its attributes (locale
    \<open>attribute\<close>), the path search of \<open>execvpe\<close> as a refinement of a scan of candidates, group lists, timed
    locks, credentials.
  \<^item> \<open>Filesystem\<close> (\<open>filesystem.c\<close>): time stamps over \<open>At_Funcs\<close>' path building, \<open>flock\<close>, \<open>scandir\<close>,
    \<open>posix_fallocate\<close>.
  \<^item> \<open>Alloc\<close> (\<open>memory.c\<close>): aligned and array allocation, anonymous mappings.
  \<^item> \<open>Wide_Char\<close> (\<open>wchar.c\<close>): wide memory and strings, UTF-16 and UTF-32 conversions, which are inverse.
  \<^item> \<open>Stubs\<close> (\<open>stubs.c\<close>): locale objects, \<open>sem_timedwait\<close>, the translation of a monotonic deadline to real time,
    which is exact to the nanosecond, and the functions that only answer.
  \<^item> \<open>Pty\<close> (\<open>pty.c\<close>): \<open>openpty\<close>, \<open>login_tty\<close> and \<open>forkpty\<close> over the descriptor table of \<open>Process\<close>; no descriptor
    leaks on any path.
  \<^item> \<open>Messages\<close> (\<open>string.c\<close>, \<open>error.c\<close>): \<open>strerror_r\<close>, which stays inside its array, \<open>strsignal\<close>, \<open>error\<close>.
  \<^item> \<open>Runtime\<close> (\<open>ssp.c\<close>, \<open>hwcap.c\<close>, \<open>dl_iterate_phdr.c\<close>): the stack guard and the walk over loaded objects.
  \<^item> \<open>Numeric\<close> (\<open>c99_types.c\<close>, \<open>math.c\<close>, \<open>complex_math.c\<close>, \<open>ctype_compat.c\<close>): wide division, rounding, minimum and
    maximum, remainder with quotient, complex exponential, single precision through double, on rationals with infinities and a parameter for the machine's rounding.

  \<^bold>\<open>Flaws shown.\<close> Where the code does not do what it means to, a theorem or lemma exhibits it, among them the
  heap overrun of \<open>vsnprintf\<close> (\<open>vsnprintf_heap_overflow\<close>), an unlocked 32-bit atomic store that loses an
  update (\<open>atomic_store_4_lost\<close>), cut path names (\<open>linkat_truncates\<close>), stale surrogates
  (\<open>c16rtomb_stale_high\<close>), spawn actions that are dropped (\<open>spawn_ignores_actions\<close>), a locale that is not
  restored (\<open>uselocale_not_restored\<close>), an unbounded copy (\<open>openpty_name_overflow\<close>), a guard's descriptor closed
  twice (\<open>stack_guard_double_close\<close>), a full barrier that is none on V8 (\<open>full_barrier_v8_fails\<close>), colliding option
  numbers (\<open>multicast_options_collide\<close>), a complex exponential that is not a number (\<open>cexp_overflow_nan\<close>) and wrong quotient bits (\<open>remquo_quotient\<close>).

  \<^bold>\<open>Not modelled.\<close> The one-line wrappers of \<open>math.c\<close> that cast the result of a function of the system's
  mathematical library to \<open>float\<close> or \<open>long double\<close>, and those of \<open>ctype_compat.c\<close> that drop a locale, have no
  content beyond the call; the constants of \<open>xpg.c\<close> are read by the linker; \<open>mask_to_category\<close> of \<open>stubs.c\<close> is
  never called; \<open>atomic_flag\<close>, fences and the narrow loads and stores of \<open>stdatomic.h\<close> are instructions the
  compiler emits; the remaining headers declare functions, types and constants of the parts above; \<open>test_all.c\<close> is
  the test program. Programs that mix atomic operations with plain accesses and the barriers are not combined in one
  machine: \<open>Stripe_Weak\<close> runs the locked operations, \<open>Barriers\<close> plain accesses with barriers. The work buffers
  of \<open>snprintf.c\<close> and the registry nodes of \<open>memstream.c\<close> are not heap objects with a record of their release; the
  string \<open>setenv\<close> builds is a list. Relaxed memory
  order, signals during a call and concurrent use of other functions are outside the model.
\<close>

end
